(* ===== verification/Prelude.thy ===== *)
theory Prelude
  imports Main "HOL-Library.Word" "HOL-Library.Char_ord" "HOL-Library.List_Lexorder"
begin

text \<open>
  Shared vocabulary of the development: bytes and C memory, C integer conversions, the
  outcome of a C++ function that may fault or not return, and the splitting of a range into
  chunks, which every data loop of the program does.
\<close>

section \<open>Rule collections\<close>

named_theorems mem_simps \<open>lengths and contents of copied buffers\<close>
named_theorems cast_simps \<open>C integer conversions that do not change the value\<close>
named_theorems table_simps \<open>lookups in the directory tables after an update\<close>

section \<open>Outcomes\<close>

text \<open>
  What the C++ code does when its behaviour is not a return: reading or writing outside an
  object, asking libtorrent for a file that does not exist, dereferencing a pointer that holds
  no object, using a torrent handle that is not valid, dividing by zero, failing an \<open>assert\<close>, or
  using a variable that was not given a value.
  \<^term>\<open>None\<close> is the outcome of a call that does not return.
\<close>

datatype fault = OutOfBounds | BadFileIndex | NullPointer | BadHandle | DivisionByZero
  | AssertFailed | Uninitialised

type_synonym 'a outcome = "(fault + 'a) option"

section \<open>C integers\<close>

text \<open>Conversion of a wider integer to \<open>int\<close>: the low 32 bits, read in two's complement.\<close>

definition INT_MAX :: int where
  "INT_MAX = 2147483647"

definition int_cast :: "int \<Rightarrow> int" where
  "int_cast x = (x + 2147483648) mod 4294967296 - 2147483648"

lemma int_cast_id [cast_simps]:
  "- 2147483648 \<le> x \<Longrightarrow> x \<le> INT_MAX \<Longrightarrow> int_cast x = x"
  by (simp add: int_cast_def INT_MAX_def)

lemma int_cast_wrap: "INT_MAX < x \<Longrightarrow> x < 2 ^ 32 \<Longrightarrow> int_cast x = x - 2 ^ 32"
proof -
  assume x: "INT_MAX < x" "x < 2 ^ 32"
  have "(x + 2147483648) mod 4294967296 = (x + 2147483648 - 4294967296) mod 4294967296"
    by (rule minus_mod_self2 [symmetric])
  also have "\<dots> = x + 2147483648 - 4294967296"
    using x by (intro mod_pos_pos_trivial) (simp_all add: INT_MAX_def)
  finally show ?thesis by (simp add: int_cast_def)
qed

text \<open>The low 32 bits, taken as negative when they are too large for an \<open>int\<close>.\<close>

lemma int_cast_low: "int_cast x = (if INT_MAX < x mod 2 ^ 32 then x mod 2 ^ 32 - 2 ^ 32 else x mod 2 ^ 32)"
proof -
  have "int_cast x = int_cast (x mod 2 ^ 32)"
    unfolding int_cast_def by (simp add: mod_add_left_eq [of x 4294967296 2147483648, symmetric])
  moreover have "x mod 2 ^ 32 < 2 ^ 32" "0 \<le> x mod 2 ^ 32" by simp_all
  ultimately show ?thesis by (simp add: int_cast_wrap int_cast_id del: One_nat_def)
qed

lemma int_cast_range: "- 2147483648 \<le> int_cast x \<and> int_cast x \<le> INT_MAX"
proof -
  have "0 \<le> (x + 2147483648) mod 4294967296" "(x + 2147483648) mod 4294967296 < 4294967296"
    by simp_all
  then show ?thesis unfolding int_cast_def INT_MAX_def by linarith
qed

text \<open>The C value of \<open>int_cast\<close> is the signed reading of the low word.\<close>

lemma int_cast_word: "int_cast x = sint (word_of_int x :: 32 word)"
  by (simp add: int_cast_def sint_word_ariths signed_take_bit_eq_take_bit_shift take_bit_eq_mod
      signed_of_int)

section \<open>C memory\<close>

text \<open>
  A C array is the list of its bytes; \<^term>\<open>None\<close> is a byte that was never written. A copy
  that leaves the source or the destination is a fault, as is a negative length, which
  \<open>size_t\<close> turns into a huge one.
\<close>

type_synonym byte = "8 word"
type_synonym mem = "byte option list"

definition memcpy :: "mem \<Rightarrow> int \<Rightarrow> mem \<Rightarrow> int \<Rightarrow> int \<Rightarrow> fault + mem" where
  "memcpy dst d src s n =
     (if 0 \<le> d \<and> 0 \<le> s \<and> 0 \<le> n \<and> d + n \<le> int (length dst) \<and> s + n \<le> int (length src)
      then Inr (take (nat d) dst @ take (nat n) (drop (nat s) src) @ drop (nat (d + n)) dst)
      else Inl OutOfBounds)"

lemma memcpy_Inr [mem_simps]:
  "0 \<le> d \<Longrightarrow> 0 \<le> s \<Longrightarrow> 0 \<le> n \<Longrightarrow> d + n \<le> int (length dst) \<Longrightarrow> s + n \<le> int (length src) \<Longrightarrow>
   memcpy dst d src s n =
     Inr (take (nat d) dst @ take (nat n) (drop (nat s) src) @ drop (nat (d + n)) dst)"
  by (simp add: memcpy_def)

lemma memcpy_length: "memcpy dst d src s n = Inr r \<Longrightarrow> length r = length dst"
  by (auto simp: memcpy_def split: if_splits)

text \<open>Lists filled from the front.\<close>

lemma drop_past: "length xs = k \<Longrightarrow> drop (k + j) (xs @ drop k ys) = drop (k + j) ys"
  by (simp add: add.commute)

lemma take_drop_join: "take n (drop i xs) @ take m (drop (i + n) xs) = take (n + m) (drop i xs)"
  by (simp add: take_add add.commute [of n i])

section \<open>Splitting a range into chunks\<close>

text \<open>
  \<open>chunks c off rem\<close> lists the offsets and sizes a loop visits that starts at \<open>off\<close> with
  \<open>rem\<close> bytes left and takes \<open>c off rem\<close> bytes in each round.
\<close>

function chunks :: "(int \<Rightarrow> int \<Rightarrow> int) \<Rightarrow> int \<Rightarrow> int \<Rightarrow> (int \<times> int) list" where
  "chunks c off rem =
     (if rem \<le> 0 \<or> c off rem \<le> 0 then []
      else (off, c off rem) # chunks c (off + c off rem) (rem - c off rem))"
  by pat_completeness auto
termination
  by (relation "measure (\<lambda>(c, off, rem). nat rem)") auto

declare chunks.simps [simp del]

text \<open>
  The contract of such a loop: in the context \<open>x\<close>, inside the range that ends at
  \<open>limit x\<close>, every round takes at least one byte and at most what is left.
\<close>

locale chunk_loop =
  fixes ok :: "'x \<Rightarrow> bool"
    and limit :: "'x \<Rightarrow> int"
    and step :: "'x \<Rightarrow> int \<Rightarrow> int \<Rightarrow> int"
  assumes step_pos: "ok x \<Longrightarrow> 0 \<le> off \<Longrightarrow> 0 < rem \<Longrightarrow> off + rem \<le> limit x \<Longrightarrow> 0 < step x off rem"
    and step_le: "ok x \<Longrightarrow> 0 \<le> off \<Longrightarrow> 0 < rem \<Longrightarrow> off + rem \<le> limit x \<Longrightarrow> step x off rem \<le> rem"
begin

text \<open>Induction along the loop, for any loop with this step.\<close>

lemma loop_induct [consumes 3, case_names stop more]:
  assumes "ok x" and "0 \<le> off" and "off + rem \<le> limit x"
    and base: "\<And>off rem. rem \<le> 0 \<Longrightarrow> P off rem"
    and more: "\<And>off rem. 0 \<le> off \<Longrightarrow> 0 < rem \<Longrightarrow> off + rem \<le> limit x \<Longrightarrow>
      0 < step x off rem \<Longrightarrow> step x off rem \<le> rem \<Longrightarrow>
      P (off + step x off rem) (rem - step x off rem) \<Longrightarrow> P off rem"
  shows "P off rem"
  using assms(2,3)
proof (induction "nat rem" arbitrary: off rem rule: less_induct)
  case less
  show ?case
  proof (cases "rem \<le> 0")
    case True
    then show ?thesis by (rule base)
  next
    case False
    then have pos: "0 < step x off rem" and le: "step x off rem \<le> rem"
      using step_pos step_le \<open>ok x\<close> less.prems by auto
    have "P (off + step x off rem) (rem - step x off rem)"
      using pos le less.prems False by (intro less.hyps) auto
    then show ?thesis using more pos le less.prems False by auto
  qed
qed

lemma chunks_unfold:
  assumes "ok x" "0 \<le> off" "0 < rem" "off + rem \<le> limit x"
  shows "chunks (step x) off rem =
    (off, step x off rem) # chunks (step x) (off + step x off rem) (rem - step x off rem)"
  using step_pos [OF assms] assms(3) by (subst chunks.simps) auto

text \<open>The chunks are adjacent, nonempty, and add up to the range.\<close>

lemma chunks_sum:
  assumes "ok x" "0 \<le> off" "0 \<le> rem" "off + rem \<le> limit x"
  shows "sum_list (map snd (chunks (step x) off rem)) = rem"
  using assms(1,2,4,3)
proof (induction off rem rule: loop_induct)
  case (stop off rem)
  then show ?case by (simp add: chunks.simps)
next
  case (more off rem)
  then show ?case using \<open>ok x\<close> by (simp add: chunks_unfold)
qed

lemma chunks_within:
  assumes "ok x" "0 \<le> off" "off + rem \<le> limit x" "(o1, n1) \<in> set (chunks (step x) off rem)"
  shows "off \<le> o1 \<and> 0 < n1 \<and> o1 + n1 \<le> off + rem"
  using assms
proof (induction off rem rule: loop_induct)
  case (stop off rem)
  then show ?case by (simp add: chunks.simps)
next
  case (more off rem)
  then show ?case using \<open>ok x\<close> by (fastforce simp: chunks_unfold)
qed

lemma chunks_cover:
  assumes "ok x" "0 \<le> off" "off + rem \<le> limit x" "off \<le> i" "i < off + rem"
  shows "\<exists>o1 n1. (o1, n1) \<in> set (chunks (step x) off rem) \<and> o1 \<le> i \<and> i < o1 + n1"
  using assms
proof (induction off rem rule: loop_induct)
  case (stop off rem)
  then show ?case by simp
next
  case (more off rem)
  show ?case
  proof (cases "i < off + step x off rem")
    case True
    then show ?thesis using more.hyps more.prems \<open>ok x\<close> by (auto simp: chunks_unfold)
  next
    case False
    then have "\<exists>o1 n1. (o1, n1) \<in> set (chunks (step x) (off + step x off rem) (rem - step x off rem))
        \<and> o1 \<le> i \<and> i < o1 + n1"
      using more.prems by (intro more.IH) auto
    then show ?thesis using more.hyps \<open>ok x\<close> by (auto simp: chunks_unfold)
  qed
qed

end

end
