(* ===== verification/Dir_Tables.thy ===== *)
theory Dir_Tables
  imports Prelude
begin

text \<open>
  The directory tables of the file system: the globals \<open>dirmap\<close>, \<open>filenames\<close> and
  \<open>entries\<close> of \<open>FS.cpp\<close>, the loop of \<open>FS::init_bitfs\<close> that fills them from the
  paths of the torrent, and the lookups \<open>has_file\<close> and \<open>has_dir\<close>. The locale
  \<open>name_index\<close> is the contract the file operations rely on.
\<close>

section \<open>The tables and their operations\<close>

record tables =
  dirmap :: "string set"
  filenames :: "string set"
  entries :: "string \<Rightarrow> string set option"

definition empty_tables :: tables where
  "empty_tables = \<lparr>dirmap = {}, filenames = {}, entries = (\<lambda>_. None)\<rparr>"

text \<open>\<open>entries[d].insert(x)\<close>: \<open>operator[]\<close> creates an empty set where there was none.\<close>

definition entries_insert :: "string \<Rightarrow> string \<Rightarrow> tables \<Rightarrow> tables" where
  "entries_insert d x t =
     t\<lparr>entries := (entries t)(d := Some (insert x
        (case entries t d of None \<Rightarrow> {} | Some s \<Rightarrow> s)))\<rparr>"

text \<open>
  The inner loop of \<open>init_bitfs\<close> over the components of one path, from directory \<open>dp\<close>
  on. \<open>boost::split\<close> never returns an empty vector; if it did, \<open>strs.size() - 1\<close> would
  wrap and the loop read past the end.
\<close>

fun add_components :: "string \<Rightarrow> string list \<Rightarrow> tables \<Rightarrow> fault + tables" where
  "add_components dp [] t = Inl OutOfBounds"
| "add_components dp [x] t =
     Inr (entries_insert dp x (t\<lparr>filenames := insert (dp @ x @ ''/'') (filenames t)\<rparr>))"
| "add_components dp (x # y # ys) t =
     (let t1 = entries_insert dp x t;
          dp1 = dp @ x;
          dp2 = dp1 @ ''/''
      in add_components dp2 (y # ys) (t1\<lparr>dirmap := insert dp2 (dirmap t1)\<rparr>))"

definition add_file :: "(string \<Rightarrow> string list) \<Rightarrow> string \<Rightarrow> tables \<Rightarrow> fault + tables" where
  "add_file split path t =
     add_components ''/'' (split path) (t\<lparr>dirmap := insert ''/'' (dirmap t)\<rparr>)"

fun fill_tables :: "(string \<Rightarrow> string list) \<Rightarrow> string list \<Rightarrow> tables \<Rightarrow> fault + tables" where
  "fill_tables split [] t = Inr t"
| "fill_tables split (p # ps) t =
     (case add_file split p t of Inl f \<Rightarrow> Inl f | Inr t1 \<Rightarrow> fill_tables split ps t1)"

definition has_file :: "tables \<Rightarrow> string \<Rightarrow> bool" where
  "has_file t path \<longleftrightarrow> path \<in> filenames t"

definition has_dir :: "tables \<Rightarrow> string \<Rightarrow> bool" where
  "has_dir t path \<longleftrightarrow> path \<in> dirmap t"

text \<open>The set a lookup \<open>entries[d]\<close> yields, whether or not it had to be created.\<close>

definition children :: "tables \<Rightarrow> string \<Rightarrow> string set" where
  "children t d = (case entries t d of None \<Rightarrow> {} | Some s \<Rightarrow> s)"

section \<open>Splitting and joining paths\<close>

text \<open>
  \<open>boost::split\<close> with \<open>is_any_of("/")\<close> and no token compression is a parameter of the
  model. What it is documented to do: it cuts at every slash, so the tokens hold no slash and
  joining them with slashes gives the path back.
\<close>

fun join_slash :: "string list \<Rightarrow> string" where
  "join_slash [] = []"
| "join_slash [x] = x"
| "join_slash (x # y # ys) = x @ ''/'' @ join_slash (y # ys)"

definition slash_free :: "string \<Rightarrow> bool" where
  "slash_free s \<longleftrightarrow> CHR ''/'' \<notin> set s"

definition split_ok :: "(string \<Rightarrow> string list) \<Rightarrow> bool" where
  "split_ok split \<longleftrightarrow>
     (\<forall>s. split s \<noteq> [] \<and> (\<forall>c\<in>set (split s). slash_free c) \<and> join_slash (split s) = s)"

text \<open>The directory string of a list of components, as the loop builds it.\<close>

definition dirpath :: "string list \<Rightarrow> string" where
  "dirpath cs = ''/'' @ concat (map (\<lambda>c. c @ ''/'') cs)"

lemma dirpath_Nil [simp]: "dirpath [] = ''/''"
  by (simp add: dirpath_def)

lemma dirpath_snoc: "dirpath (cs @ [c]) = dirpath cs @ c @ ''/''"
  by (simp add: dirpath_def)

lemma concat_join_slash:
  "cs \<noteq> [] \<Longrightarrow> concat (map (\<lambda>c. c @ ''/'') cs) = join_slash cs @ ''/''"
  by (induction cs rule: join_slash.induct) auto

lemma dirpath_split: "split_ok split \<Longrightarrow> dirpath (split p) = ''/'' @ p @ ''/''"
  by (simp add: dirpath_def concat_join_slash split_ok_def)

lemma slash_free_append_eq:
  "slash_free a \<Longrightarrow> slash_free b \<Longrightarrow> a @ CHR ''/'' # u = b @ CHR ''/'' # v \<longleftrightarrow> a = b \<and> u = v"
proof (induction a arbitrary: b)
  case Nil
  then show ?case by (cases b) (auto simp: slash_free_def)
next
  case (Cons x a)
  then show ?case by (cases b) (auto simp: slash_free_def)
qed

lemma concat_slash_inj:
  "(\<forall>c\<in>set xs. slash_free c) \<Longrightarrow> (\<forall>c\<in>set ys. slash_free c) \<Longrightarrow>
   concat (map (\<lambda>c. c @ ''/'') xs) = concat (map (\<lambda>c. c @ ''/'') ys) \<longleftrightarrow> xs = ys"
proof (induction xs arbitrary: ys)
  case Nil
  then show ?case by (cases ys) auto
next
  case (Cons x xs)
  then show ?case by (cases ys) (auto simp: slash_free_append_eq)
qed

lemma dirpath_inj:
  "(\<forall>c\<in>set xs. slash_free c) \<Longrightarrow> (\<forall>c\<in>set ys. slash_free c) \<Longrightarrow>
   dirpath xs = dirpath ys \<longleftrightarrow> xs = ys"
  by (simp add: dirpath_def concat_slash_inj)

lemma slash_end_inj:
  assumes "slash_free c" "slash_free c'"
    and "(u @ ''/'') @ c @ ''/'' = (u' @ ''/'') @ c' @ ''/''"
  shows "u = u' \<and> c = c'"
proof -
  have "rev c @ CHR ''/'' # rev u = rev c' @ CHR ''/'' # rev u'"
    using arg_cong [OF assms(3), of rev] by simp
  then show ?thesis
    using slash_free_append_eq [of "rev c" "rev c'"] assms(1,2) by (simp add: slash_free_def)
qed

section \<open>The contract of the directory index\<close>

text \<open>
  What the file operations need of the tables: after adding the components of a path, every
  proper prefix is a directory, the whole path is a file, and each component is a child of
  the prefix before it; nothing else changes.
\<close>

locale name_index =
  fixes emp :: 'ix
    and add :: "string list \<Rightarrow> 'ix \<Rightarrow> 'ix"
    and isdir :: "'ix \<Rightarrow> string \<Rightarrow> bool"
    and isfile :: "'ix \<Rightarrow> string \<Rightarrow> bool"
    and kids :: "'ix \<Rightarrow> string \<Rightarrow> string set"
  assumes isdir_emp: "\<not> isdir emp d"
    and isfile_emp: "\<not> isfile emp d"
    and kids_emp: "kids emp d = {}"
    and isdir_add: "cs \<noteq> [] \<Longrightarrow> isdir (add cs ix) d \<longleftrightarrow>
      isdir ix d \<or> (\<exists>k<length cs. d = dirpath (take k cs))"
    and isfile_add: "cs \<noteq> [] \<Longrightarrow> isfile (add cs ix) d \<longleftrightarrow> isfile ix d \<or> d = dirpath cs"
    and kids_add: "cs \<noteq> [] \<Longrightarrow> kids (add cs ix) d =
      kids ix d \<union> {cs ! k |k. k < length cs \<and> d = dirpath (take k cs)}"
begin

definition index_of :: "string list list \<Rightarrow> 'ix" where
  "index_of css = fold add css emp"

lemma index_of_Nil: "index_of [] = emp"
  by (simp add: index_of_def)

lemma index_of_snoc: "index_of (css @ [cs]) = add cs (index_of css)"
  by (simp add: index_of_def)

lemmas index_base = index_of_Nil index_of_snoc isdir_emp isfile_emp kids_emp

lemma isdir_index_of:
  "[] \<notin> set css \<Longrightarrow> isdir (index_of css) d \<longleftrightarrow>
     (\<exists>cs\<in>set css. \<exists>k<length cs. d = dirpath (take k cs))"
  by (induction css rule: rev_induct) (auto simp: index_base isdir_add)

lemma isfile_index_of:
  "[] \<notin> set css \<Longrightarrow> isfile (index_of css) d \<longleftrightarrow> (\<exists>cs\<in>set css. d = dirpath cs)"
  by (induction css rule: rev_induct) (auto simp: index_base isfile_add)

lemma kids_index_of:
  "[] \<notin> set css \<Longrightarrow> c \<in> kids (index_of css) d \<longleftrightarrow>
     (\<exists>cs\<in>set css. \<exists>k<length cs. d = dirpath (take k cs) \<and> c = cs ! k)"
  by (induction css rule: rev_induct) (auto simp: index_base kids_add)

text \<open>Every listed name exists, as a directory or as a file.\<close>

lemma kid_exists:
  assumes "[] \<notin> set css" "c \<in> kids (index_of css) d"
  shows "isdir (index_of css) (d @ c @ ''/'') \<or> isfile (index_of css) (d @ c @ ''/'')"
proof -
  from assms obtain cs k where cs: "cs \<in> set css" "k < length cs"
      and d: "d = dirpath (take k cs)" "c = cs ! k"
    by (auto simp: kids_index_of)
  have path: "d @ c @ ''/'' = dirpath (take (Suc k) cs)"
    using cs d by (simp add: take_Suc_conv_app_nth dirpath_snoc)
  show ?thesis
  proof (cases "Suc k < length cs")
    case True
    then show ?thesis using cs path assms(1) by (auto simp: isdir_index_of)
  next
    case False
    then have "take (Suc k) cs = cs" using cs by simp
    then show ?thesis using cs path assms(1) by (auto simp: isfile_index_of)
  qed
qed

text \<open>Only directories have children.\<close>

lemma kid_parent_isdir:
  "[] \<notin> set css \<Longrightarrow> c \<in> kids (index_of css) d \<Longrightarrow> isdir (index_of css) d"
  by (auto simp: kids_index_of isdir_index_of)

text \<open>Every directory lists at least one name.\<close>

lemma isdir_has_kid:
  "[] \<notin> set css \<Longrightarrow> isdir (index_of css) d \<Longrightarrow> kids (index_of css) d \<noteq> {}"
  using kids_index_of [of css _ d] by (auto simp: isdir_index_of)

text \<open>
  Conversely nothing exists outside the listing of its parent: a slash-free name that
  completes a directory string to a known directory or file is a child of it.
\<close>

lemma prefix_is_parent:
  assumes "d @ c @ ''/'' = dirpath (take k cs)" "slash_free c" "\<forall>x\<in>set cs. slash_free x"
    and "d = u @ ''/''" "k \<le> length cs"
  shows "\<exists>j<k. d = dirpath (take j cs) \<and> c = cs ! j"
proof (cases k)
  case 0
  then show ?thesis using assms by auto
next
  case (Suc j)
  then have "dirpath (take k cs) = dirpath (take j cs) @ cs ! j @ ''/''"
    using assms(5) by (simp add: take_Suc_conv_app_nth dirpath_snoc)
  moreover obtain v where v: "dirpath (take j cs) = v @ ''/''"
    by (cases "take j cs" rule: rev_cases) (auto simp: dirpath_snoc)
  moreover have "slash_free (cs ! j)"
    using assms(3,5) Suc by simp
  ultimately have "u = v \<and> c = cs ! j"
    using assms(1,2,4) Suc by (intro slash_end_inj) simp_all
  then show ?thesis using v Suc assms(4) by (intro exI [of _ j]) simp
qed

lemma known_is_kid:
  assumes "[] \<notin> set css" "\<forall>cs\<in>set css. \<forall>x\<in>set cs. slash_free x" "slash_free c" "d = u @ ''/''"
    and "isdir (index_of css) (d @ c @ ''/'') \<or> isfile (index_of css) (d @ c @ ''/'')"
  shows "c \<in> kids (index_of css) d"
proof -
  obtain cs k where cs: "cs \<in> set css" "k \<le> length cs" "d @ c @ ''/'' = dirpath (take k cs)"
    using assms(1,5) unfolding isdir_index_of [OF assms(1)] isfile_index_of [OF assms(1)]
    by (metis less_imp_le order_refl take_all)
  then obtain j where "j < k" "d = dirpath (take j cs)" "c = cs ! j"
    using prefix_is_parent [OF cs(3) assms(3) _ assms(4) cs(2)] assms(2) by auto
  then show ?thesis using cs assms(1) by (auto simp: kids_index_of intro!: bexI [of _ cs] exI [of _ j])
qed

end

section \<open>The tables of the program meet the contract\<close>

lemma Collect_below_pos: "0 < n \<Longrightarrow> {f k |k. k < n} = insert (f 0) {f k |k. 0 < k \<and> k < n}"
  for n :: nat
  by auto (metis neq0_conv)

lemma Collect_below_Suc:
  "{f k |k. k < Suc n \<and> P k} = (if P 0 then {f 0} else {}) \<union> {f (Suc k) |k. k < n \<and> P (Suc k)}"
  for n :: nat
  by (auto simp: less_Suc_eq_0_disj)

lemma children_insert [table_simps]:
  "children (entries_insert d x t) d' = (if d' = d then {x} else {}) \<union> children t d'"
  by (auto simp: entries_insert_def children_def split: option.splits)

lemma children_updates [table_simps]:
  "children (t\<lparr>dirmap := u\<rparr>) d = children t d"
  "children (t\<lparr>filenames := u\<rparr>) d = children t d"
  by (simp_all add: children_def)

lemma Collect_pos_Suc: "{f k |k. 0 < k \<and> k < Suc n} = {f (Suc k) |k. k < n}"
  for n :: nat
  by (auto simp: gr0_conv_Suc)

lemma add_components_spec:
  assumes "cs \<noteq> []"
  shows "\<exists>t'. add_components (dirpath pre) cs t = Inr t' \<and>
    dirmap t' = dirmap t \<union> {dirpath (pre @ take k cs) |k. 0 < k \<and> k < length cs} \<and>
    filenames t' = insert (dirpath (pre @ cs)) (filenames t) \<and>
    (\<forall>d. children t' d = children t d \<union> {cs ! k |k. k < length cs \<and> d = dirpath (pre @ take k cs)})"
  using assms
proof (induction cs arbitrary: pre t)
  case Nil
  then show ?case by simp
next
  case (Cons x cs)
  show ?case
  proof (cases cs)
    case Nil
    then show ?thesis
      by (auto simp: table_simps dirpath_snoc, simp_all add: entries_insert_def)
  next
    case (Cons y ys)
    let ?t = "(entries_insert (dirpath pre) x t)\<lparr>dirmap := insert (dirpath (pre @ [x])) (dirmap t)\<rparr>"
    have step: "add_components (dirpath pre) (x # cs) t = add_components (dirpath (pre @ [x])) cs ?t"
      by (simp add: Cons Let_def dirpath_snoc entries_insert_def)
    obtain t' where t': "add_components (dirpath (pre @ [x])) cs ?t = Inr t'"
      and dm: "dirmap t' = dirmap ?t \<union> {dirpath ((pre @ [x]) @ take k cs) |k. 0 < k \<and> k < length cs}"
      and fn: "filenames t' = insert (dirpath ((pre @ [x]) @ cs)) (filenames ?t)"
      and ch: "\<forall>d. children t' d = children ?t d \<union>
        {cs ! k |k. k < length cs \<and> d = dirpath ((pre @ [x]) @ take k cs)}"
      using Cons.IH [of "pre @ [x]" ?t] Cons by blast
    have "dirmap t' = dirmap t \<union> {dirpath (pre @ take k (x # cs)) |k. 0 < k \<and> k < length (x # cs)}"
    proof -
      have "{dirpath (pre @ take k (x # cs)) |k. 0 < k \<and> k < length (x # cs)} =
          {dirpath ((pre @ [x]) @ take k cs) |k. k < length cs}"
        by (simp only: length_Cons Collect_pos_Suc) simp
      also have "\<dots> = insert (dirpath (pre @ [x])) {dirpath ((pre @ [x]) @ take k cs) |k. 0 < k \<and> k < length cs}"
        by (subst Collect_below_pos) (simp_all add: Cons)
      finally show ?thesis using dm by (simp add: entries_insert_def)
    qed
    moreover have "filenames t' = insert (dirpath (pre @ x # cs)) (filenames t)"
      using fn by (simp add: entries_insert_def)
    moreover have "children t' d = children t d \<union>
        {(x # cs) ! k |k. k < length (x # cs) \<and> d = dirpath (pre @ take k (x # cs))}" for d
      unfolding length_Cons Collect_below_Suc by (auto simp: ch table_simps)
    ultimately show ?thesis using step t' by auto
  qed
qed

text \<open>One round of the outer loop on the components of a path, where it does not fault.\<close>

definition index_add :: "string list \<Rightarrow> tables \<Rightarrow> tables" where
  "index_add cs t =
     (case add_components ''/'' cs (t\<lparr>dirmap := insert ''/'' (dirmap t)\<rparr>) of
        Inl f \<Rightarrow> t | Inr t' \<Rightarrow> t')"

lemma index_add_spec:
  assumes "cs \<noteq> []"
  shows "add_components ''/'' cs (t\<lparr>dirmap := insert ''/'' (dirmap t)\<rparr>) = Inr (index_add cs t)"
    and "dirmap (index_add cs t) = dirmap t \<union> {dirpath (take k cs) |k. k < length cs}"
    and "filenames (index_add cs t) = insert (dirpath cs) (filenames t)"
    and "children (index_add cs t) d =
      children t d \<union> {cs ! k |k. k < length cs \<and> d = dirpath (take k cs)}"
proof -
  let ?t = "t\<lparr>dirmap := insert ''/'' (dirmap t)\<rparr>"
  obtain t' where t': "add_components ''/'' cs ?t = Inr t'"
    and dm: "dirmap t' = dirmap ?t \<union> {dirpath (take k cs) |k. 0 < k \<and> k < length cs}"
    and fn: "filenames t' = insert (dirpath cs) (filenames ?t)"
    and ch: "\<forall>d. children t' d = children ?t d \<union> {cs ! k |k. k < length cs \<and> d = dirpath (take k cs)}"
    using add_components_spec [OF assms, of "[]" ?t] by auto
  have t: "index_add cs t = t'" using t' by (simp add: index_add_def)
  show "add_components ''/'' cs ?t = Inr (index_add cs t)" using t t' by simp
  have "{dirpath (take k cs) |k. k < length cs} =
      insert ''/'' {dirpath (take k cs) |k. 0 < k \<and> k < length cs}"
    using assms by (simp add: Collect_below_pos)
  then show "dirmap (index_add cs t) = dirmap t \<union> {dirpath (take k cs) |k. k < length cs}"
    using t dm by auto
  show "filenames (index_add cs t) = insert (dirpath cs) (filenames t)" using t fn by simp
  show "children (index_add cs t) d =
      children t d \<union> {cs ! k |k. k < length cs \<and> d = dirpath (take k cs)}"
    using t ch by (simp add: children_def)
qed

lemma children_empty: "children empty_tables d = {}"
  by (simp add: children_def empty_tables_def)

interpretation dirs: name_index empty_tables index_add has_dir has_file children
  by unfold_locales
     (auto simp: has_dir_def has_file_def children_empty index_add_spec, simp_all add: empty_tables_def)

lemma fill_tables_fold:
  "split_ok split \<Longrightarrow> fill_tables split ps t = Inr (fold index_add (map split ps) t)"
proof (induction ps arbitrary: t)
  case Nil
  then show ?case by simp
next
  case (Cons p ps)
  have "split p \<noteq> []" using Cons.prems by (simp add: split_ok_def)
  then show ?case using Cons by (simp add: add_file_def index_add_spec(1))
qed

lemma fill_tables_index:
  "split_ok split \<Longrightarrow> fill_tables split ps empty_tables = Inr (dirs.index_of (map split ps))"
  by (simp add: fill_tables_fold dirs.index_of_def)

lemma split_map_ok:
  "split_ok split \<Longrightarrow> [] \<notin> set (map split ps)"
  "split_ok split \<Longrightarrow> \<forall>cs\<in>set (map split ps). \<forall>x\<in>set cs. slash_free x"
  by (simp_all add: split_ok_def image_iff) metis

text \<open>The three tables of a filled index, in terms of the paths.\<close>

lemma has_file_filled:
  "split_ok split \<Longrightarrow> has_file (dirs.index_of (map split ps)) d \<longleftrightarrow> (\<exists>p\<in>set ps. d = CHR ''/'' # p @ ''/'')"
  using dirs.isfile_index_of [OF split_map_ok(1), of split ps d] by (auto simp: dirpath_split)

lemma has_dir_filled:
  "split_ok split \<Longrightarrow> has_dir (dirs.index_of (map split ps)) d \<longleftrightarrow>
     (\<exists>p\<in>set ps. \<exists>k<length (split p). d = dirpath (take k (split p)))"
  using dirs.isdir_index_of [OF split_map_ok(1), of split ps d] by simp

lemma children_filled:
  "split_ok split \<Longrightarrow> c \<in> children (dirs.index_of (map split ps)) d \<longleftrightarrow>
     (\<exists>p\<in>set ps. \<exists>k<length (split p). d = dirpath (take k (split p)) \<and> c = split p ! k)"
  using dirs.kids_index_of [OF split_map_ok(1), of split c ps d] by simp

lemma children_finite:
  assumes "split_ok split"
  shows "finite (children (dirs.index_of (map split ps)) d)"
proof (rule finite_subset)
  show "children (dirs.index_of (map split ps)) d \<subseteq> (\<Union>p\<in>set ps. set (split p))"
  proof
    fix c assume "c \<in> children (dirs.index_of (map split ps)) d"
    then obtain p k where "p \<in> set ps" "k < length (split p)" "c = split p ! k"
      using children_filled [OF assms] by blast
    then show "c \<in> (\<Union>p\<in>set ps. set (split p))" by (metis UN_I nth_mem)
  qed
qed simp

section \<open>A concrete split, and what filling the tables achieves\<close>

fun split_slash :: "string \<Rightarrow> string list" where
  "split_slash [] = [[]]"
| "split_slash (c # cs) =
     (if c = CHR ''/'' then [] # split_slash cs
      else case split_slash cs of [] \<Rightarrow> [[c]] | w # ws \<Rightarrow> (c # w) # ws)"

lemma split_slash_props:
  "split_slash s \<noteq> [] \<and> (\<forall>c\<in>set (split_slash s). slash_free c) \<and> join_slash (split_slash s) = s"
proof (induction s)
  case Nil
  then show ?case by (simp add: slash_free_def)
next
  case (Cons c s)
  obtain w ws where w: "split_slash s = w # ws" using Cons by (cases "split_slash s") auto
  have "join_slash ((c # w) # ws) = c # join_slash (w # ws)" by (cases ws) auto
  then show ?case using Cons w by (auto simp: slash_free_def)
qed

lemma split_slash_ok: "split_ok split_slash"
  unfolding split_ok_def using split_slash_props by blast

text \<open>
  C6: the loop of \<open>init_bitfs\<close> never faults and fills the three tables with the tree of the
  torrent: the directories are the proper prefixes of the file paths (the root among them),
  the files are the paths themselves, and a directory lists exactly the components that
  follow it in some path.
\<close>

theorem fill_tables_correct:
  assumes "split_ok split"
  shows "\<exists>t. fill_tables split ps empty_tables = Inr t \<and>
    (\<forall>d. has_dir t d \<longleftrightarrow> (\<exists>p\<in>set ps. \<exists>k<length (split p). d = dirpath (take k (split p)))) \<and>
    (\<forall>f. has_file t f \<longleftrightarrow> (\<exists>p\<in>set ps. f = ''/'' @ p @ ''/'')) \<and>
    (\<forall>d c. c \<in> children t d \<longleftrightarrow>
       (\<exists>p\<in>set ps. \<exists>k<length (split p). d = dirpath (take k (split p)) \<and> c = split p ! k))"
  using fill_tables_index [OF assms, of ps] has_dir_filled [OF assms, of ps]
    has_file_filled [OF assms, of ps] children_filled [OF assms, of _ ps] by simp

theorem fill_tables_correct_witness:
  "\<exists>t. fill_tables split_slash [''a/b'', ''c''] empty_tables = Inr t \<and> has_dir t ''/a/'' \<and> \<not> has_dir t ''/b/''"
proof -
  obtain t where t: "fill_tables split_slash [''a/b'', ''c''] empty_tables = Inr t"
    and d: "\<forall>d. has_dir t d \<longleftrightarrow> (\<exists>p\<in>set [''a/b'', ''c'']. \<exists>k<length (split_slash p).
      d = dirpath (take k (split_slash p)))"
    using fill_tables_correct [OF split_slash_ok, of "[''a/b'', ''c'']"] by (elim exE conjE that)
  have "has_dir t ''/a/'' \<and> \<not> has_dir t ''/b/''"
    unfolding d [rule_format] by (simp add: dirpath_def Ex_less_Suc2 slash_free_def)
  then show ?thesis using t by blast
qed

end
