(* ===== verification/Torrent.thy ===== *)
theory Torrent
  imports Prelude
begin

text \<open>
  What the program uses of libtorrent's \<open>torrent_info\<close>: the files of the torrent, its
  pieces and the mapping from a file range to pieces. All of it is libtorrent's and a
  parameter of the model; \<open>ti_ok\<close> states what its documentation promises. Then the data
  of pieces and of files as slices of the torrent's content, and the interpretation of
  \<open>chunk_loop\<close> for the loops of \<open>FS::read\<close>, which cut a file range at piece boundaries.
\<close>

section \<open>The torrent as libtorrent presents it\<close>

record peer_request =
  pr_piece :: int
  pr_start :: int
  pr_length :: int

record torrent_info =
  ti_num_files :: int
  ti_file_path :: "int \<Rightarrow> string"
  ti_file_size :: "int \<Rightarrow> int"
  ti_total_size :: int
  ti_piece_length :: int
  ti_num_pieces :: int
  ti_piece_size :: "int \<Rightarrow> int"
  ti_map_file :: "int \<Rightarrow> int \<Rightarrow> int \<Rightarrow> peer_request"

text \<open>Where a file starts in the torrent: the files lie one after the other.\<close>

definition file_offset :: "torrent_info \<Rightarrow> int \<Rightarrow> int" where
  "file_offset ti i = sum_list (map (\<lambda>j. ti_file_size ti (int j)) [0..<nat i])"

definition valid_file :: "torrent_info \<Rightarrow> int \<Rightarrow> bool" where
  "valid_file ti i \<longleftrightarrow> 0 \<le> i \<and> i < ti_num_files ti"

definition valid_piece :: "torrent_info \<Rightarrow> int \<Rightarrow> bool" where
  "valid_piece ti p \<longleftrightarrow> 0 \<le> p \<and> p < ti_num_pieces ti"

text \<open>
  The documented behaviour: sizes are not negative and add up to the total; every piece but
  the last has the piece length; \<open>map_file\<close> gives the piece a file offset falls into and the
  position inside it.
\<close>

definition ti_ok :: "torrent_info \<Rightarrow> bool" where
  "ti_ok ti \<longleftrightarrow>
     0 < ti_piece_length ti \<and>
     (\<forall>i. valid_file ti i \<longrightarrow> 0 \<le> ti_file_size ti i) \<and>
     ti_total_size ti = file_offset ti (ti_num_files ti) \<and>
     ti_num_pieces ti = (ti_total_size ti + ti_piece_length ti - 1) div ti_piece_length ti \<and>
     (\<forall>p. valid_piece ti p \<longrightarrow>
        ti_piece_size ti p = min (ti_piece_length ti) (ti_total_size ti - p * ti_piece_length ti)) \<and>
     (\<forall>i off n. valid_file ti i \<longrightarrow> 0 \<le> off \<longrightarrow> off < ti_file_size ti i \<longrightarrow>
        pr_piece (ti_map_file ti i off n) = (file_offset ti i + off) div ti_piece_length ti \<and>
        pr_start (ti_map_file ti i off n) = (file_offset ti i + off) mod ti_piece_length ti)"

section \<open>Content\<close>

definition content_ok :: "torrent_info \<Rightarrow> byte list \<Rightarrow> bool" where
  "content_ok ti content \<longleftrightarrow> int (length content) = ti_total_size ti"

definition piece_data :: "torrent_info \<Rightarrow> byte list \<Rightarrow> int \<Rightarrow> byte list" where
  "piece_data ti content p =
     take (nat (ti_piece_size ti p)) (drop (nat (p * ti_piece_length ti)) content)"

definition file_data :: "torrent_info \<Rightarrow> byte list \<Rightarrow> int \<Rightarrow> byte list" where
  "file_data ti content i =
     take (nat (ti_file_size ti i)) (drop (nat (file_offset ti i)) content)"

section \<open>The chunks of a file range\<close>

definition chunk_piece :: "torrent_info \<Rightarrow> int \<Rightarrow> int \<Rightarrow> int \<Rightarrow> int" where
  "chunk_piece ti idx off rem = pr_piece (ti_map_file ti idx off rem)"

definition chunk_start :: "torrent_info \<Rightarrow> int \<Rightarrow> int \<Rightarrow> int \<Rightarrow> int" where
  "chunk_start ti idx off rem = pr_start (ti_map_file ti idx off rem)"

definition read_chunk :: "torrent_info \<Rightarrow> int \<Rightarrow> int \<Rightarrow> int \<Rightarrow> int" where
  "read_chunk ti idx off rem =
     min (ti_piece_size ti (chunk_piece ti idx off rem) - chunk_start ti idx off rem) rem"

lemma file_offset_step: "0 \<le> i \<Longrightarrow> file_offset ti (i + 1) = file_offset ti i + ti_file_size ti i"
  by (simp add: file_offset_def nat_add_distrib)

lemma file_offset_mono:
  assumes "ti_ok ti" "0 \<le> i" "i \<le> j" "j \<le> ti_num_files ti"
  shows "file_offset ti i \<le> file_offset ti j"
  using assms(3,4)
proof (induction j rule: int_ge_induct)
  case base
  then show ?case by simp
next
  case (step j)
  have "0 \<le> ti_file_size ti j"
    using assms(1,2) step by (auto simp: ti_ok_def valid_file_def)
  then show ?case using step assms(2) by (simp add: file_offset_step)
qed

lemma file_fits:
  assumes "ti_ok ti" "valid_file ti i"
  shows "0 \<le> file_offset ti i" "file_offset ti i + ti_file_size ti i \<le> ti_total_size ti"
proof -
  have "file_offset ti 0 = 0" by (simp add: file_offset_def)
  then show "0 \<le> file_offset ti i"
    using file_offset_mono [OF assms(1), of 0 i] assms(2) by (auto simp: valid_file_def)
  have "file_offset ti (i + 1) \<le> file_offset ti (ti_num_files ti)"
    using file_offset_mono [OF assms(1), of "i + 1" "ti_num_files ti"] assms(2)
    by (auto simp: valid_file_def)
  then show "file_offset ti i + ti_file_size ti i \<le> ti_total_size ti"
    using assms by (simp add: file_offset_step valid_file_def ti_ok_def)
qed

text \<open>One round of the loop: the piece it hits, and where.\<close>

lemma chunk_geometry:
  assumes "ti_ok ti" "valid_file ti i" "0 \<le> off" "off < ti_file_size ti i"
  shows "valid_piece ti (chunk_piece ti i off n)"
    and "0 \<le> chunk_start ti i off n"
    and "chunk_start ti i off n < ti_piece_size ti (chunk_piece ti i off n)"
    and "ti_piece_size ti (chunk_piece ti i off n) \<le> ti_piece_length ti"
    and "chunk_piece ti i off n * ti_piece_length ti + chunk_start ti i off n = file_offset ti i + off"
    and "chunk_piece ti i off n * ti_piece_length ti + ti_piece_size ti (chunk_piece ti i off n)
      \<le> ti_total_size ti"
proof -
  define x where "x = file_offset ti i + off"
  let ?pl = "ti_piece_length ti" and ?p = "chunk_piece ti i off n" and ?s = "chunk_start ti i off n"
  have pl: "0 < ?pl" using assms(1) by (simp add: ti_ok_def)
  have x: "0 \<le> x" "x < ti_total_size ti"
    using file_fits [OF assms(1,2)] assms(3,4) by (simp_all add: x_def)
  have p: "?p = x div ?pl" and s: "?s = x mod ?pl"
    using assms by (auto simp: ti_ok_def chunk_piece_def chunk_start_def x_def)
  show eq: "?p * ?pl + ?s = file_offset ti i + off"
    unfolding p s x_def by simp
  show s0: "0 \<le> ?s" using pl by (simp add: s)
  have sl: "?s < ?pl" using pl by (simp add: s)
  have "(?p + 1) * ?pl \<le> ti_total_size ti + ?pl - 1"
    using eq x s0 by (simp add: algebra_simps x_def)
  then have "?p + 1 \<le> (ti_total_size ti + ?pl - 1) div ?pl"
    using pl by (simp add: zdiv_mono1 [of "(?p + 1) * ?pl" _ ?pl, simplified])
  then show vp: "valid_piece ti ?p"
    using assms(1) x(1) pl unfolding valid_piece_def ti_ok_def p by (simp add: pos_imp_zdiv_nonneg_iff)
  then have ps: "ti_piece_size ti ?p = min ?pl (ti_total_size ti - ?p * ?pl)"
    using assms(1) by (simp add: ti_ok_def)
  show "?s < ti_piece_size ti ?p" using ps sl eq x by (simp add: x_def)
  show "ti_piece_size ti ?p \<le> ?pl" using ps by simp
  show "?p * ?pl + ti_piece_size ti ?p \<le> ti_total_size ti" using ps by simp
qed

text \<open>The contract of the chunk loop, for every torrent and file that libtorrent can present.\<close>

definition file_ctx_ok :: "torrent_info \<times> int \<Rightarrow> bool" where
  "file_ctx_ok x \<longleftrightarrow> ti_ok (fst x) \<and> valid_file (fst x) (snd x)"

definition file_limit :: "torrent_info \<times> int \<Rightarrow> int" where
  "file_limit x = ti_file_size (fst x) (snd x)"

definition file_step :: "torrent_info \<times> int \<Rightarrow> int \<Rightarrow> int \<Rightarrow> int" where
  "file_step x off rem = read_chunk (fst x) (snd x) off rem"

interpretation file_chunks: chunk_loop file_ctx_ok file_limit file_step
proof
  fix x :: "torrent_info \<times> int" and off rem :: int
  assume "file_ctx_ok x" "0 \<le> off" "0 < rem" "off + rem \<le> file_limit x"
  then show "0 < file_step x off rem" "file_step x off rem \<le> rem"
    using chunk_geometry(3) [of "fst x" "snd x" off rem]
    by (simp_all add: file_ctx_ok_def file_limit_def file_step_def read_chunk_def)
qed

text \<open>A chunk of a piece is a chunk of the file.\<close>

lemma take_drop_slice:
  "n \<le> m - s \<Longrightarrow> take n (drop s (take m (drop b xs))) = take n (drop (b + s) xs)"
  for n m s b :: nat
  by (simp add: drop_take add.commute min_def)

lemma piece_slice:
  assumes "ti_ok ti" "valid_file ti i" "0 \<le> off" "0 < rem" "off + rem \<le> ti_file_size ti i"
    and "n = read_chunk ti i off rem"
  shows "take (nat n) (drop (nat (chunk_start ti i off rem)) (piece_data ti content (chunk_piece ti i off rem)))
    = take (nat n) (drop (nat off) (file_data ti content i))"
proof -
  let ?p = "chunk_piece ti i off rem" and ?s = "chunk_start ti i off rem"
  note geo = chunk_geometry [OF assms(1,2,3), of rem]
  have s: "0 \<le> ?s" "?s < ti_piece_size ti ?p"
    and pos: "?p * ti_piece_length ti + ?s = file_offset ti i + off"
    and p: "0 \<le> ?p"
    using geo assms(4,5) by (simp_all add: valid_piece_def)
  have n: "n \<le> ti_piece_size ti ?p - ?s" "n \<le> ti_file_size ti i - off"
    using assms(4-6) by (simp_all add: read_chunk_def)
  have pl: "0 \<le> ?p * ti_piece_length ti"
    using assms(1) p by (simp add: ti_ok_def)
  have "nat (?p * ti_piece_length ti) + nat ?s = nat (file_offset ti i) + nat off"
    using pos pl s(1) assms(3) file_fits(1) [OF assms(1,2)] by (simp add: nat_add_distrib [symmetric])
  then show ?thesis
    using n s assms(3) unfolding piece_data_def file_data_def
    by (simp add: take_drop_slice nat_diff_distrib [symmetric] nat_mono)
qed

lemma piece_data_length:
  assumes "ti_ok ti" "content_ok ti content" "valid_piece ti p"
  shows "int (length (piece_data ti content p)) = ti_piece_size ti p"
    and "0 \<le> ti_piece_size ti p"
proof -
  let ?pl = "ti_piece_length ti" and ?t = "ti_total_size ti"
  have pl: "0 < ?pl" and np: "ti_num_pieces ti = (?t + ?pl - 1) div ?pl"
    and ps: "ti_piece_size ti p = min ?pl (?t - p * ?pl)"
    using assms(1,3) by (simp_all add: ti_ok_def)
  have p: "0 \<le> p" "p + 1 \<le> (?t + ?pl - 1) div ?pl"
    using assms(3) np by (simp_all add: valid_piece_def)
  have "(p + 1) * ?pl \<le> (?t + ?pl - 1) div ?pl * ?pl"
    using p(2) pl by (simp add: mult_right_mono)
  also have "\<dots> \<le> ?t + ?pl - 1"
    using div_mult_mod_eq [of "?t + ?pl - 1" ?pl] pos_mod_sign [OF pl, of "?t + ?pl - 1"] by linarith
  finally have "p * ?pl < ?t" by (simp add: algebra_simps)
  then show pos: "0 \<le> ti_piece_size ti p" using ps pl by simp
  have "0 \<le> p * ?pl" using p(1) pl by simp
  then show "int (length (piece_data ti content p)) = ti_piece_size ti p"
    using ps pl assms(2) \<open>p * ?pl < ?t\<close> by (simp add: piece_data_def content_ok_def)
qed

lemma file_data_length:
  assumes "ti_ok ti" "content_ok ti content" "valid_file ti i"
  shows "int (length (file_data ti content i)) = ti_file_size ti i"
proof -
  have "0 \<le> ti_file_size ti i" using assms by (simp add: ti_ok_def)
  then show ?thesis
    using file_fits [OF assms(1,3)] assms(2) by (simp add: file_data_def content_ok_def)
qed

section \<open>The documented layout, as a concrete torrent\<close>

text \<open>
  A torrent built from its files (path and size) and its piece length the way the
  documentation describes it. It meets \<open>ti_ok\<close> for every list of files, so the hypothesis
  can hold; the witnesses of the properties use it.
\<close>

definition layout_offset :: "(string \<times> int) list \<Rightarrow> int \<Rightarrow> int" where
  "layout_offset fs i = sum_list (map snd (take (nat i) fs))"

definition layout :: "(string \<times> int) list \<Rightarrow> int \<Rightarrow> torrent_info" where
  "layout fs pl =
     (let total = sum_list (map snd fs);
          size = (\<lambda>i. if nat i < length fs then snd (fs ! nat i) else 0)
      in \<lparr>ti_num_files = int (length fs),
          ti_file_path = (\<lambda>i. if nat i < length fs then fst (fs ! nat i) else []),
          ti_file_size = size,
          ti_total_size = total,
          ti_piece_length = pl,
          ti_num_pieces = (total + pl - 1) div pl,
          ti_piece_size = (\<lambda>p. min pl (total - p * pl)),
          ti_map_file = (\<lambda>i off n.
             \<lparr>pr_piece = (layout_offset fs i + off) div pl,
              pr_start = (layout_offset fs i + off) mod pl,
              pr_length = n\<rparr>)\<rparr>)"

lemma layout_file_offset:
  assumes "0 \<le> i" "i \<le> int (length fs)"
  shows "file_offset (layout fs pl) i = layout_offset fs i"
  using assms
proof (induction i rule: int_ge_induct)
  case base
  then show ?case by (simp add: file_offset_def layout_offset_def)
next
  case (step i)
  have "nat i < length fs" using step.hyps step.prems by linarith
  then have "ti_file_size (layout fs pl) i = snd (fs ! nat i)"
    by (simp add: layout_def Let_def)
  then show ?case using step \<open>nat i < length fs\<close>
    by (simp add: file_offset_step layout_offset_def nat_add_distrib take_Suc_conv_app_nth)
qed

lemma layout_ok:
  assumes "0 < pl" "\<forall>f\<in>set fs. 0 \<le> snd f"
  shows "ti_ok (layout fs pl)"
proof -
  have "file_offset (layout fs pl) (int (length fs)) = sum_list (map snd fs)"
    by (subst layout_file_offset) (simp_all add: layout_offset_def)
  moreover have "file_offset (layout fs pl) i = layout_offset fs i" if "valid_file (layout fs pl) i" for i
    using that by (intro layout_file_offset) (simp_all add: valid_file_def layout_def Let_def)
  ultimately show ?thesis
    using assms unfolding ti_ok_def
    by (simp add: valid_file_def) (auto simp: layout_def Let_def)
qed

end
