(* ===== verification/Metadata.thy ===== *)
theory Metadata
  imports Torrent
begin

text \<open>
  The classes \<open>torrent_metadata\<close> and \<open>bitfs_metadata\<close>: their fields, constructors and
  accessors. The locale \<open>field\<close> is the contract of a getter and a setter; it is interpreted
  for each of the eight pairs.
\<close>

section \<open>The classes\<close>

text \<open>Libtorrent's types as far as the program looks at them.\<close>

datatype setting =
    SetStr string
  | SetInt int
  | SetBool bool
  | SetEnum "string list" \<comment> \<open>the bitwise or of named libtorrent constants\<close>

type_synonym settings_pack = "string \<Rightarrow> setting option"

datatype torrent_handle = InvalidHandle | TorrentHandle torrent_info

text \<open>An \<open>error_code\<close> converts to true when it is not zero.\<close>

type_synonym error_code = int

record add_torrent_params =
  par_ti :: "torrent_info option"
  par_save_path :: string
  par_flags :: "string list"

text \<open>A pointer is \<^term>\<open>None\<close> when it does not point to an object.\<close>

record torrent_metadata =
  torrent_file_path :: "string option"
  disk_cache_path :: string
  thandle :: torrent_handle
  sett :: settings_pack
  params :: add_torrent_params
  ec :: error_code
  fsmtx :: bool \<comment> \<open>whether the mutex is locked\<close>

record bitfs_metadata =
  sess :: "settings_pack option" \<comment> \<open>the session object: the settings it was made with\<close>
  tmeta :: "torrent_metadata option"

definition empty_params :: add_torrent_params where
  "empty_params = \<lparr>par_ti = None, par_save_path = [], par_flags = []\<rparr>"

text \<open>
  The constructor. \<open>unique_path\<close> is boost's: it replaces every percent sign of its argument
  by a random hexadecimal digit.
\<close>

definition torrent_metadata_new :: "(string \<Rightarrow> string) \<Rightarrow> string \<Rightarrow> torrent_metadata" where
  "torrent_metadata_new unique_path torrent_file =
     \<lparr>torrent_file_path = Some torrent_file,
      disk_cache_path = unique_path ''/tmp/%%%%-%%%%-%%%%-%%%%'',
      thandle = InvalidHandle, sett = (\<lambda>_. None), params = empty_params, ec = 0, fsmtx = False\<rparr>"

text \<open>The constructor prints a line and sets neither pointer.\<close>

definition bitfs_metadata_new :: bitfs_metadata where
  "bitfs_metadata_new = \<lparr>sess = None, tmeta = None\<rparr>"

section \<open>Accessors\<close>

definition getTorrentFilePath :: "torrent_metadata \<Rightarrow> string option" where
  "getTorrentFilePath tm = torrent_file_path tm"

definition setTorrentFilePath :: "string option \<Rightarrow> torrent_metadata \<Rightarrow> torrent_metadata" where
  "setTorrentFilePath x tm = tm\<lparr>torrent_file_path := x\<rparr>"

definition getDiskCachePath :: "torrent_metadata \<Rightarrow> string" where
  "getDiskCachePath tm = disk_cache_path tm"

definition setDiskCachePath :: "string \<Rightarrow> torrent_metadata \<Rightarrow> torrent_metadata" where
  "setDiskCachePath x tm = tm\<lparr>disk_cache_path := x\<rparr>"

definition getThandle :: "torrent_metadata \<Rightarrow> torrent_handle" where
  "getThandle tm = thandle tm"

definition setThandle :: "torrent_handle \<Rightarrow> torrent_metadata \<Rightarrow> torrent_metadata" where
  "setThandle x tm = tm\<lparr>thandle := x\<rparr>"

definition getSettingsPack :: "torrent_metadata \<Rightarrow> settings_pack" where
  "getSettingsPack tm = sett tm"

definition setSettingsPath :: "settings_pack \<Rightarrow> torrent_metadata \<Rightarrow> torrent_metadata" where
  "setSettingsPath x tm = tm\<lparr>sett := x\<rparr>"

definition getErrorCode :: "torrent_metadata \<Rightarrow> error_code" where
  "getErrorCode tm = ec tm"

definition setErrorCode :: "error_code \<Rightarrow> torrent_metadata \<Rightarrow> torrent_metadata" where
  "setErrorCode x tm = tm\<lparr>ec := x\<rparr>"

definition getAddTorrentParams :: "torrent_metadata \<Rightarrow> add_torrent_params" where
  "getAddTorrentParams tm = params tm"

definition setAddTorrentParams :: "add_torrent_params \<Rightarrow> torrent_metadata \<Rightarrow> torrent_metadata" where
  "setAddTorrentParams x tm = tm\<lparr>params := x\<rparr>"

definition setSession :: "settings_pack option \<Rightarrow> bitfs_metadata \<Rightarrow> bitfs_metadata" where
  "setSession x bm = bm\<lparr>sess := x\<rparr>"

definition getSession :: "bitfs_metadata \<Rightarrow> settings_pack option" where
  "getSession bm = sess bm"

definition setTMeta :: "torrent_metadata option \<Rightarrow> bitfs_metadata \<Rightarrow> bitfs_metadata" where
  "setTMeta x bm = bm\<lparr>tmeta := x\<rparr>"

definition getTMeta :: "bitfs_metadata \<Rightarrow> torrent_metadata option" where
  "getTMeta bm = tmeta bm"

lemmas torrent_metadata_accessors =
  getTorrentFilePath_def setTorrentFilePath_def getDiskCachePath_def setDiskCachePath_def
  getThandle_def setThandle_def getSettingsPack_def setSettingsPath_def
  getErrorCode_def setErrorCode_def getAddTorrentParams_def setAddTorrentParams_def

lemmas bitfs_metadata_accessors = setSession_def getSession_def setTMeta_def getTMeta_def

section \<open>The contract of a field\<close>

locale field =
  fixes get :: "'o \<Rightarrow> 'v" and set :: "'v \<Rightarrow> 'o \<Rightarrow> 'o"
  assumes get_set: "get (set v x) = v"
    and set_get: "set (get x) x = x"
    and set_set: "set v (set w x) = set v x"
begin

lemma set_eq_iff: "set v x = set w x \<longleftrightarrow> v = w"
  using get_set by metis

lemma set_undo: "set (get x) (set v x) = x"
  by (simp add: set_set set_get)

end

interpretation f_path: field getTorrentFilePath setTorrentFilePath
  by unfold_locales (simp_all add: torrent_metadata_accessors)

interpretation f_cache: field getDiskCachePath setDiskCachePath
  by unfold_locales (simp_all add: torrent_metadata_accessors)

interpretation f_handle: field getThandle setThandle
  by unfold_locales (simp_all add: torrent_metadata_accessors)

interpretation f_sett: field getSettingsPack setSettingsPath
  by unfold_locales (simp_all add: torrent_metadata_accessors)

interpretation f_ec: field getErrorCode setErrorCode
  by unfold_locales (simp_all add: torrent_metadata_accessors)

interpretation f_params: field getAddTorrentParams setAddTorrentParams
  by unfold_locales (simp_all add: torrent_metadata_accessors)

interpretation f_sess: field getSession setSession
  by unfold_locales (simp_all add: bitfs_metadata_accessors)

interpretation f_tmeta: field getTMeta setTMeta
  by unfold_locales (simp_all add: bitfs_metadata_accessors)

text \<open>
  The accessors of \<open>torrent_metadata\<close> are independent fields. Any order of the six
  setters followed by the six getters reads back the six values, and putting the old values
  back restores the object, its mutex included.
\<close>

theorem torrent_metadata_fields:
  "let put = (\<lambda>a b c d e f tm. setTorrentFilePath a (setDiskCachePath b (setThandle c
      (setSettingsPath d (setErrorCode e (setAddTorrentParams f tm))))));
     new = put a b c d e f tm
   in getTorrentFilePath new = a \<and> getDiskCachePath new = b \<and> getThandle new = c \<and>
    getSettingsPack new = d \<and> getErrorCode new = e \<and> getAddTorrentParams new = f \<and>
    fsmtx new = fsmtx tm \<and>
    put (getTorrentFilePath tm) (getDiskCachePath tm) (getThandle tm) (getSettingsPack tm)
      (getErrorCode tm) (getAddTorrentParams tm) new = tm"
  by (simp add: torrent_metadata_accessors Let_def)

end
