(* ===== verification/Pieces.thy ===== *)
theory Pieces
  imports Prelude
begin

text \<open>
  The part of the file system that talks to the running libtorrent session: the buffers of
  pieces read so far (\<open>piece_buffer_map\<close>), \<open>get_piece_buffers\<close>, which moves the buffers of
  arrived alerts there, \<open>wait_for_piece_download\<close>, and the two polling loops. The session
  is a parameter; \<open>lt_faithful\<close> and \<open>lt_live\<close> state what its documentation promises.
\<close>

section \<open>The session as the program calls it\<close>

text \<open>
  An alert that answers \<open>read_piece\<close> carries the piece number and a buffer whose length is
  the alert's \<open>size\<close> (zero when the read failed). All other alerts are dropped by the program.
\<close>

datatype alert = ReadPieceAlert int "byte list" | OtherAlert string

text \<open>Each call takes the state of the session and returns it as it is after the call.\<close>

record 'l lt_api =
  have_piece :: "'l \<Rightarrow> int \<Rightarrow> bool \<times> 'l"
  piece_priority :: "'l \<Rightarrow> int \<Rightarrow> int \<Rightarrow> 'l"
  read_piece :: "'l \<Rightarrow> int \<Rightarrow> 'l"
  pop_alerts :: "'l \<Rightarrow> alert list \<times> 'l"
  set_download_limit :: "'l \<Rightarrow> int \<Rightarrow> 'l"

type_synonym cache = "int \<Rightarrow> byte list option"

section \<open>Collecting piece buffers\<close>

fun store_alert :: "alert \<Rightarrow> cache \<Rightarrow> cache" where
  "store_alert (ReadPieceAlert p b) m = m(p := Some b)"
| "store_alert (OtherAlert s) m = m"

definition get_piece_buffers :: "'l lt_api \<Rightarrow> 'l \<Rightarrow> cache \<Rightarrow> 'l \<times> cache" where
  "get_piece_buffers api l m =
     (let (alerts, l') = pop_alerts api l in (l', fold store_alert alerts m))"

text \<open>\<open>while (!hve_piece) { get_piece_buffers(); hve_piece = have_piece(piece); }\<close>\<close>

partial_function (option) wait_loop ::
  "'l lt_api \<Rightarrow> int \<Rightarrow> bool \<Rightarrow> 'l \<Rightarrow> cache \<Rightarrow> ('l \<times> cache) option" where
  "wait_loop api piece hve l m =
     (if hve then Some (l, m)
      else case get_piece_buffers api l m of (l1, m1) \<Rightarrow>
        (case have_piece api l1 piece of (h, l2) \<Rightarrow> wait_loop api piece h l2 m1))"

definition wait_for_piece_download :: "'l lt_api \<Rightarrow> int \<Rightarrow> 'l \<Rightarrow> cache \<Rightarrow> ('l \<times> cache) option" where
  "wait_for_piece_download api piece l m =
     (let (h, l1) = have_piece api l piece
      in if \<not> h then (let (hve, l2) = have_piece api l1 piece in wait_loop api piece hve l2 m)
         else Some (l1, m))"

text \<open>\<open>while (!has_buff) { get_piece_buffers(); has_buff = find(piece) != end(); }\<close>\<close>

partial_function (option) buffer_loop ::
  "'l lt_api \<Rightarrow> int \<Rightarrow> bool \<Rightarrow> 'l \<Rightarrow> cache \<Rightarrow> ('l \<times> cache) option" where
  "buffer_loop api piece has_buff l m =
     (if has_buff then Some (l, m)
      else case get_piece_buffers api l m of (l1, m1) \<Rightarrow>
        buffer_loop api piece (m1 piece \<noteq> None) l1 m1)"

definition fetch_piece_buffer :: "'l lt_api \<Rightarrow> int \<Rightarrow> 'l \<Rightarrow> cache \<Rightarrow> ('l \<times> cache) option" where
  "fetch_piece_buffer api piece l m =
     (let has_buff = (m piece \<noteq> None);
          l1 = (if \<not> has_buff then read_piece api l piece else l)
      in buffer_loop api piece has_buff l1 m)"

section \<open>The contract of the buffer map\<close>

text \<open>Every buffer held is the data of its piece.\<close>

definition cache_ok :: "(int \<Rightarrow> byte list) \<Rightarrow> cache \<Rightarrow> bool" where
  "cache_ok D m \<longleftrightarrow> (\<forall>p b. m p = Some b \<longrightarrow> b = D p)"

locale buffer_map =
  fixes put :: "alert \<Rightarrow> 'm \<Rightarrow> 'm"
    and get :: "'m \<Rightarrow> int \<Rightarrow> byte list option"
  assumes get_put_read: "get (put (ReadPieceAlert p b) m) = (get m)(p := Some b)"
    and get_put_other: "get (put (OtherAlert s) m) = get m"
begin

lemma cache_ok_put:
  "cache_ok D (get m) \<Longrightarrow> (\<forall>p b. a = ReadPieceAlert p b \<longrightarrow> b = D p) \<Longrightarrow> cache_ok D (get (put a m))"
  by (cases a) (auto simp: cache_ok_def get_put_read get_put_other)

lemma cache_ok_fold:
  "cache_ok D (get m) \<Longrightarrow> (\<forall>p b. ReadPieceAlert p b \<in> set as \<longrightarrow> b = D p) \<Longrightarrow>
   cache_ok D (get (fold put as m))"
proof (induction as arbitrary: m)
  case Nil
  then show ?case by simp
next
  case (Cons a as)
  then have "cache_ok D (get (put a m))" by (intro cache_ok_put) auto
  then show ?case using Cons by simp
qed

lemma get_fold_keeps: "get m p \<noteq> None \<Longrightarrow> get (fold put as m) p \<noteq> None"
proof (induction as arbitrary: m)
  case Nil
  then show ?case by simp
next
  case (Cons a as)
  then show ?case by (cases a) (auto simp: get_put_read get_put_other)
qed

lemma get_fold_arrived: "ReadPieceAlert p b \<in> set as \<Longrightarrow> get (fold put as m) p \<noteq> None"
proof (induction as arbitrary: m)
  case Nil
  then show ?case by simp
next
  case (Cons a as)
  then show ?case using get_fold_keeps [of "put a m" p as] by (auto simp: get_put_read)
qed

end

interpretation bufs: buffer_map store_alert "\<lambda>m. m"
  by unfold_locales auto

section \<open>What libtorrent promises\<close>

text \<open>
  Ghost readings of a session state: which states occur, the priority of each piece, after
  how many polls a wanted piece is complete, and after how many polls a requested buffer
  arrives.
\<close>

record 'l lt_view =
  v_inv :: "'l \<Rightarrow> bool"
  v_prio :: "'l \<Rightarrow> int \<Rightarrow> int"
  v_eta :: "'l \<Rightarrow> int \<Rightarrow> nat"
  v_due :: "'l \<Rightarrow> int \<Rightarrow> nat option"

text \<open>Every buffer libtorrent delivers is the hash-checked data of its piece.\<close>

definition lt_faithful :: "'l lt_api \<Rightarrow> 'l lt_view \<Rightarrow> (int \<Rightarrow> byte list) \<Rightarrow> bool" where
  "lt_faithful api v D \<longleftrightarrow>
     (\<forall>l. v_inv v l \<longrightarrow>
        (\<forall>p. v_inv v (snd (have_piece api l p))) \<and>
        (\<forall>p n. v_inv v (piece_priority api l p n)) \<and>
        (\<forall>p. v_inv v (read_piece api l p)) \<and>
        (\<forall>n. v_inv v (set_download_limit api l n)) \<and>
        v_inv v (snd (pop_alerts api l)) \<and>
        (\<forall>p b. ReadPieceAlert p b \<in> set (fst (pop_alerts api l)) \<longrightarrow> b = D p))"

text \<open>
  \<open>piece_priority\<close> sets the priority of its piece only; a complete piece stays complete; each
  poll brings a piece of positive priority nearer; \<open>read_piece\<close> of a complete piece makes its
  buffer arrive after finitely many polls. No other call loses any of this.
\<close>

definition no_loss :: "'l lt_view \<Rightarrow> 'l \<Rightarrow> 'l \<Rightarrow> bool" where
  "no_loss v l l' \<longleftrightarrow> (\<forall>q. v_eta v l' q \<le> v_eta v l q)"

definition lt_live :: "'l lt_api \<Rightarrow> 'l lt_view \<Rightarrow> bool" where
  "lt_live api v \<longleftrightarrow>
     (\<forall>l. v_inv v l \<longrightarrow>
        (\<forall>p. fst (have_piece api l p) = (v_eta v l p = 0) \<and>
             v_prio v (snd (have_piece api l p)) = v_prio v l \<and>
             no_loss v l (snd (have_piece api l p))) \<and>
        (\<forall>p n. v_prio v (piece_priority api l p n) = (v_prio v l)(p := n) \<and>
               no_loss v l (piece_priority api l p n)) \<and>
        (\<forall>n. v_prio v (set_download_limit api l n) = v_prio v l \<and>
             no_loss v l (set_download_limit api l n)) \<and>
        (\<forall>p. v_prio v (read_piece api l p) = v_prio v l \<and>
             no_loss v l (read_piece api l p) \<and>
             (v_eta v l p = 0 \<longrightarrow> v_due v (read_piece api l p) p \<noteq> None)) \<and>
        v_prio v (snd (pop_alerts api l)) = v_prio v l \<and>
        no_loss v l (snd (pop_alerts api l)) \<and>
        (\<forall>q. 0 < v_prio v l q \<and> 0 < v_eta v l q \<longrightarrow> v_eta v (snd (pop_alerts api l)) q < v_eta v l q) \<and>
        (\<forall>q n. v_due v l q = Some n \<longrightarrow>
           (\<exists>b. ReadPieceAlert q b \<in> set (fst (pop_alerts api l))) \<or>
           (\<exists>m<n. v_due v (snd (pop_alerts api l)) q = Some m)))"

section \<open>Polling\<close>

text \<open>What every call to the session except \<open>piece_priority\<close> keeps.\<close>

definition lt_after :: "'l lt_view \<Rightarrow> 'l \<Rightarrow> 'l \<Rightarrow> bool" where
  "lt_after v l l' \<longleftrightarrow> v_inv v l' \<and> v_prio v l' = v_prio v l \<and> no_loss v l l'"

lemma lt_after_trans: "lt_after v l l1 \<Longrightarrow> lt_after v l1 l2 \<Longrightarrow> lt_after v l l2"
  unfolding lt_after_def no_loss_def by (metis order_trans)

lemma lt_after_refl: "v_inv v l \<Longrightarrow> lt_after v l l"
  by (simp add: lt_after_def no_loss_def)

lemma lt_after_complete: "lt_after v l l' \<Longrightarrow> v_eta v l p = 0 \<Longrightarrow> v_eta v l' p = 0"
  unfolding lt_after_def no_loss_def by (metis le_zero_eq)

definition lt_ok :: "'l lt_api \<Rightarrow> 'l lt_view \<Rightarrow> (int \<Rightarrow> byte list) \<Rightarrow> bool" where
  "lt_ok api v D \<longleftrightarrow> lt_faithful api v D \<and> lt_live api v"

lemma have_piece_after:
  assumes "lt_ok api v D" "v_inv v l" "have_piece api l p = (h, l')"
  shows "lt_after v l l'" "h \<longleftrightarrow> v_eta v l p = 0"
proof -
  have "v_inv v (snd (have_piece api l p))" using assms(1,2) unfolding lt_ok_def lt_faithful_def by blast
  moreover have "fst (have_piece api l p) = (v_eta v l p = 0)"
      "v_prio v (snd (have_piece api l p)) = v_prio v l" "no_loss v l (snd (have_piece api l p))"
    using assms(1,2) unfolding lt_ok_def lt_live_def by blast+
  ultimately show "lt_after v l l'" "h \<longleftrightarrow> v_eta v l p = 0"
    using assms(3) by (simp_all add: lt_after_def)
qed

lemma read_piece_after:
  assumes "lt_ok api v D" "v_inv v l"
  shows "lt_after v l (read_piece api l p)"
    and "v_eta v l p = 0 \<Longrightarrow> v_due v (read_piece api l p) p \<noteq> None"
proof -
  have "v_inv v (read_piece api l p)" using assms unfolding lt_ok_def lt_faithful_def by blast
  moreover have "v_prio v (read_piece api l p) = v_prio v l" "no_loss v l (read_piece api l p)"
      "v_eta v l p = 0 \<longrightarrow> v_due v (read_piece api l p) p \<noteq> None"
    using assms unfolding lt_ok_def lt_live_def by blast+
  ultimately show "lt_after v l (read_piece api l p)"
      "v_eta v l p = 0 \<Longrightarrow> v_due v (read_piece api l p) p \<noteq> None"
    by (simp_all add: lt_after_def)
qed

lemma set_download_limit_after:
  assumes "lt_ok api v D" "v_inv v l"
  shows "lt_after v l (set_download_limit api l n)"
  using assms unfolding lt_after_def lt_ok_def lt_live_def lt_faithful_def by blast

lemma piece_priority_after:
  assumes "lt_ok api v D" "v_inv v l"
  shows "v_inv v (piece_priority api l p n)"
    and "v_prio v (piece_priority api l p n) = (v_prio v l)(p := n)"
    and "v_eta v (piece_priority api l p n) q \<le> v_eta v l q"
proof -
  show "v_inv v (piece_priority api l p n)" using assms unfolding lt_ok_def lt_faithful_def by blast
  have "\<forall>p n. v_prio v (piece_priority api l p n) = (v_prio v l)(p := n) \<and>
      no_loss v l (piece_priority api l p n)"
    using assms unfolding lt_ok_def lt_live_def by simp
  then show "v_prio v (piece_priority api l p n) = (v_prio v l)(p := n)"
      "v_eta v (piece_priority api l p n) q \<le> v_eta v l q"
    by (simp_all add: no_loss_def)
qed

lemma get_piece_buffers_after:
  assumes "lt_ok api v D" "v_inv v l" "cache_ok D m" "get_piece_buffers api l m = (l', m')"
  shows "lt_after v l l'" "cache_ok D m'" "m p \<noteq> None \<Longrightarrow> m' p \<noteq> None"
    and "0 < v_prio v l p \<Longrightarrow> 0 < v_eta v l p \<Longrightarrow> v_eta v l' p < v_eta v l p"
    and "v_due v l p = Some n \<Longrightarrow> m' p \<noteq> None \<or> (\<exists>k<n. v_due v l' p = Some k)"
proof -
  obtain as where as: "pop_alerts api l = (as, l')" and m': "m' = fold store_alert as m"
    using assms(4) by (auto simp: get_piece_buffers_def split: prod.splits)
  have "v_inv v (snd (pop_alerts api l)) \<and>
      (\<forall>p b. ReadPieceAlert p b \<in> set (fst (pop_alerts api l)) \<longrightarrow> b = D p)"
    using assms(1,2) unfolding lt_ok_def lt_faithful_def by blast
  then have inv: "v_inv v l'" and D: "\<forall>p b. ReadPieceAlert p b \<in> set as \<longrightarrow> b = D p"
    by (simp_all add: as)
  have "v_prio v (snd (pop_alerts api l)) = v_prio v l \<and> no_loss v l (snd (pop_alerts api l)) \<and>
      (\<forall>q. 0 < v_prio v l q \<and> 0 < v_eta v l q \<longrightarrow> v_eta v (snd (pop_alerts api l)) q < v_eta v l q) \<and>
      (\<forall>q n. v_due v l q = Some n \<longrightarrow>
        (\<exists>b. ReadPieceAlert q b \<in> set (fst (pop_alerts api l))) \<or>
        (\<exists>m<n. v_due v (snd (pop_alerts api l)) q = Some m))"
    using assms(1,2) unfolding lt_ok_def lt_live_def by blast
  then have live: "v_prio v l' = v_prio v l" "no_loss v l l'"
      "0 < v_prio v l p \<Longrightarrow> 0 < v_eta v l p \<Longrightarrow> v_eta v l' p < v_eta v l p"
      "v_due v l p = Some n \<Longrightarrow>
        (\<exists>b. ReadPieceAlert p b \<in> set as) \<or> (\<exists>m<n. v_due v l' p = Some m)"
    by (simp_all add: as)
  show "lt_after v l l'" using inv live by (simp add: lt_after_def)
  show "cache_ok D m'" unfolding m' using assms(3) D by (rule bufs.cache_ok_fold)
  show "m p \<noteq> None \<Longrightarrow> m' p \<noteq> None" unfolding m' by (rule bufs.get_fold_keeps)
  show "0 < v_prio v l p \<Longrightarrow> 0 < v_eta v l p \<Longrightarrow> v_eta v l' p < v_eta v l p"
    by (rule live(3))
  show "v_due v l p = Some n \<Longrightarrow> m' p \<noteq> None \<or> (\<exists>k<n. v_due v l' p = Some k)"
    unfolding m' using live(4) bufs.get_fold_arrived by blast
qed

text \<open>Waiting ends for a piece that is complete or wanted, and leaves it complete.\<close>

lemma wait_loop_total:
  assumes "lt_ok api v D" "v_inv v l" "cache_ok D m"
    and "if hve then v_eta v l p = 0 else 0 < v_prio v l p"
  shows "\<exists>l' m'. wait_loop api p hve l m = Some (l', m') \<and> lt_after v l l' \<and> cache_ok D m' \<and>
    v_eta v l' p = 0"
  using assms(2-4)
proof (induction "v_eta v l p" arbitrary: hve l m rule: less_induct)
  case less
  show ?case
  proof (cases hve)
    case True
    then show ?thesis using less.prems by (simp add: wait_loop.simps lt_after_refl)
  next
    case False
    obtain l1 m1 where g: "get_piece_buffers api l m = (l1, m1)" by fastforce
    obtain h l2 where h: "have_piece api l1 p = (h, l2)" by fastforce
    note g1 = get_piece_buffers_after [OF assms(1) less.prems(1,2) g]
    have a1: "lt_after v l l1" and c1: "cache_ok D m1" by (rule g1)+
    note h1 = have_piece_after [OF assms(1) _ h]
    have a2: "lt_after v l1 l2" and hh: "h \<longleftrightarrow> v_eta v l1 p = 0"
      using h1 a1 by (simp_all add: lt_after_def)
    have unf: "wait_loop api p hve l m = wait_loop api p h l2 m1"
      using False g h by (subst wait_loop.simps) simp
    have aft: "lt_after v l l2" using a1 a2 by (rule lt_after_trans)
    have pr: "if h then v_eta v l2 p = 0 else 0 < v_prio v l2 p"
      using hh less.prems(3) False aft lt_after_complete [OF a2] by (auto simp: lt_after_def)
    show ?thesis
    proof (cases h)
      case True
      then show ?thesis using unf aft c1 pr by (simp add: wait_loop.simps)
    next
      case h: False
      then have "v_eta v l1 p < v_eta v l p"
        using hh g1(4) [of p] a1 less.prems(3) False
        by (metis (full_types) gr0I lt_after_complete)
      moreover have "v_eta v l2 p \<le> v_eta v l1 p" using a2 by (simp add: lt_after_def no_loss_def)
      ultimately have "v_eta v l2 p < v_eta v l p" by simp
      then obtain l' m' where "wait_loop api p h l2 m1 = Some (l', m')" "lt_after v l2 l'"
          "cache_ok D m'" "v_eta v l' p = 0"
        using less.hyps [of l2 m1 h] aft c1 pr by (auto simp: lt_after_def)
      then show ?thesis using unf aft lt_after_trans by fastforce
    qed
  qed
qed

lemma wait_total:
  assumes "lt_ok api v D" "v_inv v l" "cache_ok D m" "0 < v_prio v l p \<or> v_eta v l p = 0"
  shows "\<exists>l' m'. wait_for_piece_download api p l m = Some (l', m') \<and> lt_after v l l' \<and>
    cache_ok D m' \<and> v_eta v l' p = 0"
proof -
  obtain h l1 where h: "have_piece api l p = (h, l1)" by fastforce
  note h1 = have_piece_after [OF assms(1,2) h]
  show ?thesis
  proof (cases h)
    case True
    then have "v_eta v l1 p = 0" using h1 lt_after_complete by auto
    then show ?thesis using True h h1 assms(3) by (simp add: wait_for_piece_download_def)
  next
    case False
    obtain hve l2 where h2: "have_piece api l1 p = (hve, l2)" by fastforce
    note h3 = have_piece_after [OF assms(1) _ h2]
    have a1: "lt_after v l1 l2" and e1: "hve \<longleftrightarrow> v_eta v l1 p = 0"
      using h3 h1 by (simp_all add: lt_after_def)
    have "0 < v_prio v l p" using False h1 assms(4) by simp
    then have "if hve then v_eta v l2 p = 0 else 0 < v_prio v l2 p"
      using e1 a1 h1(1) lt_after_complete [OF a1] by (simp add: lt_after_def)
    moreover have a2: "lt_after v l l2" using h1(1) a1 by (rule lt_after_trans)
    ultimately obtain l' m' where "wait_loop api p hve l2 m = Some (l', m')" "lt_after v l2 l'"
        "cache_ok D m'" "v_eta v l' p = 0"
      using wait_loop_total [OF assms(1), of l2 m hve p] assms(3) by (auto simp: lt_after_def)
    then show ?thesis
      using False h h2 a2 by (auto simp: wait_for_piece_download_def intro: lt_after_trans)
  qed
qed

lemma buffer_loop_total:
  assumes "lt_ok api v D" "v_inv v l" "cache_ok D m"
    and "if has_buff then m p \<noteq> None else v_due v l p = Some n"
  shows "\<exists>l' m'. buffer_loop api p has_buff l m = Some (l', m') \<and> lt_after v l l' \<and>
    cache_ok D m' \<and> m' p = Some (D p)"
  using assms(2-4)
proof (induction n arbitrary: has_buff l m rule: less_induct)
  case (less n)
  show ?case
  proof (cases has_buff)
    case True
    then show ?thesis using less.prems by (auto simp: buffer_loop.simps lt_after_refl cache_ok_def)
  next
    case False
    obtain l1 m1 where g: "get_piece_buffers api l m = (l1, m1)" by fastforce
    note g1 = get_piece_buffers_after [OF assms(1) less.prems(1,2) g]
    have a1: "lt_after v l l1" and c1: "cache_ok D m1" by (rule g1)+
    have unf: "buffer_loop api p has_buff l m = buffer_loop api p (m1 p \<noteq> None) l1 m1"
      using False g by (subst buffer_loop.simps) simp
    show ?thesis
    proof (cases "m1 p")
      case (Some b)
      then show ?thesis using unf a1 c1 by (simp add: buffer_loop.simps cache_ok_def)
    next
      case None
      then obtain k where "k < n" "v_due v l1 p = Some k"
        using g1(5) [of p n] less.prems(3) False by auto
      then obtain l' m' where "buffer_loop api p False l1 m1 = Some (l', m')" "lt_after v l1 l'"
          "cache_ok D m'" "m' p = Some (D p)"
        using less.IH [of k l1 m1 False] a1 c1 by (auto simp: lt_after_def)
      then show ?thesis using unf None a1 lt_after_trans by fastforce
    qed
  qed
qed

lemma fetch_total:
  assumes "lt_ok api v D" "v_inv v l" "cache_ok D m" "v_eta v l p = 0"
  shows "\<exists>l' m'. fetch_piece_buffer api p l m = Some (l', m') \<and> lt_after v l l' \<and>
    cache_ok D m' \<and> m' p = Some (D p)"
proof (cases "m p")
  case None
  note r = read_piece_after [OF assms(1,2), of p]
  obtain n where "v_due v (read_piece api l p) p = Some n" using r(2) assms(4) by auto
  then obtain l' m' where "buffer_loop api p False (read_piece api l p) m = Some (l', m')"
      "lt_after v (read_piece api l p) l'" "cache_ok D m'" "m' p = Some (D p)"
    using buffer_loop_total [OF assms(1) _ assms(3), of "read_piece api l p" False p n] r(1)
    by (auto simp: lt_after_def)
  then show ?thesis
    using None r(1) by (auto simp: fetch_piece_buffer_def intro: lt_after_trans)
next
  case (Some b)
  then show ?thesis
    using buffer_loop_total [OF assms(1-3), of True p] by (auto simp: fetch_piece_buffer_def)
qed

end
