(* ===== verification/FS_Ops.thy ===== *)
theory FS_Ops
  imports Dir_Tables Metadata Pieces
begin

text \<open>
  The file operations of class \<open>FS\<close> that do not read data: \<open>getattr\<close>, \<open>open\<close>,
  \<open>readdir\<close> and the lookups \<open>get_file_index\<close> and \<open>get_file_size\<close>, with the state they
  work on.
\<close>

section \<open>State\<close>

text \<open>
  The globals of \<open>FS.cpp\<close>, the field \<open>fsmeta\<close> of the one \<open>FS\<close> object, whether that
  object exists (\<open>_instance != NULL\<close>), and the state of the libtorrent session.
\<close>

record 'l fs_state =
  instance_made :: bool
  fsmeta :: "bitfs_metadata option"
  fs_tables :: tables
  piece_buffer_map :: cache
  session :: 'l

definition ENOENT :: int where
  "ENOENT = 2"

text \<open>\<open>fsmeta->getTMeta()\<close> and \<open>fsmeta->getTMeta()->getAddTorrentParams().ti\<close>.\<close>

definition deref_tmeta :: "'l fs_state \<Rightarrow> fault + torrent_metadata" where
  "deref_tmeta st =
     (case fsmeta st of None \<Rightarrow> Inl NullPointer
      | Some bm \<Rightarrow> (case getTMeta bm of None \<Rightarrow> Inl NullPointer | Some tm \<Rightarrow> Inr tm))"

definition deref_ti :: "'l fs_state \<Rightarrow> fault + torrent_info" where
  "deref_ti st =
     (case deref_tmeta st of Inl f \<Rightarrow> Inl f
      | Inr tm \<Rightarrow> (case par_ti (getAddTorrentParams tm) of None \<Rightarrow> Inl NullPointer | Some ti \<Rightarrow> Inr ti))"

section \<open>Lookups\<close>

text \<open>A \<open>std::string\<close> read as a C string ends at its first zero byte.\<close>

definition c_str :: "string \<Rightarrow> string" where
  "c_str s = takeWhile (\<lambda>c. c \<noteq> CHR 0x00) s"

text \<open>The \<open>for\<close> loop of \<open>get_file_index\<close> from index \<open>i\<close> with \<open>n\<close> rounds left.\<close>

fun index_loop :: "torrent_info \<Rightarrow> string \<Rightarrow> int \<Rightarrow> nat \<Rightarrow> int" where
  "index_loop ti name i 0 = - 1"
| "index_loop ti name i (Suc n) =
     (if name = c_str (ti_file_path ti i) then i else index_loop ti name (i + 1) n)"

text \<open>\<open>filepath + 1\<close> of an empty C string points past its terminator.\<close>

definition get_file_index :: "string \<Rightarrow> 'l fs_state \<Rightarrow> fault + int" where
  "get_file_index filepath st =
     (case deref_ti st of Inl f \<Rightarrow> Inl f
      | Inr ti \<Rightarrow>
        (if ti_num_files ti \<le> 0 then Inr (- 1)
         else case filepath of [] \<Rightarrow> Inl OutOfBounds
           | _ # name \<Rightarrow> Inr (index_loop ti name 0 (nat (ti_num_files ti)))))"

text \<open>The result type is \<open>int\<close>, while libtorrent's file size has 64 bits.\<close>

definition get_file_size :: "int \<Rightarrow> 'l fs_state \<Rightarrow> fault + int" where
  "get_file_size i st =
     (case deref_ti st of Inl f \<Rightarrow> Inl f
      | Inr ti \<Rightarrow> if valid_file ti i then Inr (int_cast (ti_file_size ti i)) else Inl BadFileIndex)"

section \<open>Operations\<close>

record stat_buf =
  st_mode :: "32 word"
  st_nlink :: int
  st_size :: int

definition S_IFDIR :: "32 word" where "S_IFDIR = 0x4000"
definition S_IFREG :: "32 word" where "S_IFREG = 0x8000"

definition zero_stat :: stat_buf where
  "zero_stat = \<lparr>st_mode = 0, st_nlink = 0, st_size = 0\<rparr>"

text \<open>The permission bits are octal 755 and 444.\<close>

text \<open>The path with a trailing slash, as the tables hold it; the root is left alone.\<close>

definition table_path :: "string \<Rightarrow> string" where
  "table_path path = (if path \<noteq> ''/'' then path @ ''/'' else path)"

definition getattr :: "string \<Rightarrow> 'l fs_state \<Rightarrow> fault + (int \<times> stat_buf)" where
  "getattr path st =
     (let strpath = table_path path in
      if has_dir (fs_tables st) strpath then
        Inr (0, zero_stat\<lparr>st_mode := or S_IFDIR 0x1ED, st_nlink := 2\<rparr>)
      else if has_file (fs_tables st) strpath then
        (case get_file_index path st of Inl f \<Rightarrow> Inl f
         | Inr i \<Rightarrow> (case get_file_size i st of Inl f \<Rightarrow> Inl f
           | Inr n \<Rightarrow> Inr (0, zero_stat\<lparr>st_mode := or S_IFREG 0x124, st_nlink := 1, st_size := n\<rparr>)))
      else Inr (- ENOENT, zero_stat))"

definition fs_open :: "string \<Rightarrow> 'l fs_state \<Rightarrow> int" where
  "fs_open path st = (if \<not> has_file (fs_tables st) (path @ ''/'') then - ENOENT else 0)"

text \<open>
  \<open>readdir\<close> calls FUSE's \<open>filler\<close> for every name, in the order of \<open>std::set\<close>; its result
  is not looked at. \<open>entries[strpath]\<close> leaves an empty set behind where there was none.
\<close>

definition readdir ::
  "('b \<Rightarrow> string \<Rightarrow> 'b) \<Rightarrow> string \<Rightarrow> 'b \<Rightarrow> 'l fs_state \<Rightarrow> int \<times> 'b \<times> 'l fs_state" where
  "readdir filler path buf st =
     (let strpath = table_path path; t = fs_tables st in
      if \<not> has_dir t strpath then (- ENOENT, buf, st)
      else let names = children t strpath;
               t' = t\<lparr>entries := (entries t)(strpath := Some names)\<rparr>
           in (0, foldl filler buf (map c_str (sorted_list_of_set names)), st\<lparr>fs_tables := t'\<rparr>))"

section \<open>Mounted states\<close>

definition file_paths :: "torrent_info \<Rightarrow> string list" where
  "file_paths ti = map (\<lambda>i. ti_file_path ti (int i)) [0..<nat (ti_num_files ti)]"

text \<open>What a successful \<open>init_bitfs\<close> leaves behind: the torrent and its tables.\<close>

definition mounted :: "(string \<Rightarrow> string list) \<Rightarrow> torrent_info \<Rightarrow> 'l fs_state \<Rightarrow> bool" where
  "mounted split ti st \<longleftrightarrow>
     (case deref_tmeta st of Inl f \<Rightarrow> False
      | Inr tm \<Rightarrow> par_ti (params tm) = Some ti \<and> thandle tm = TorrentHandle ti) \<and>
     fill_tables split (file_paths ti) empty_tables = Inr (fs_tables st)"

text \<open>Paths inside a torrent hold no zero byte.\<close>

definition paths_ok :: "torrent_info \<Rightarrow> bool" where
  "paths_ok ti \<longleftrightarrow> (\<forall>p\<in>set (file_paths ti). CHR 0x00 \<notin> set p)"

lemma c_str_id: "CHR 0x00 \<notin> set s \<Longrightarrow> c_str s = s"
  unfolding c_str_def by (rule takeWhile_eq_all_conv [THEN iffD2]) auto

lemma set_file_paths: "p \<in> set (file_paths ti) \<longleftrightarrow> (\<exists>i. valid_file ti i \<and> ti_file_path ti i = p)"
proof
  assume "p \<in> set (file_paths ti)"
  then obtain j where "j < nat (ti_num_files ti)" "p = ti_file_path ti (int j)"
    by (auto simp: file_paths_def)
  then show "\<exists>i. valid_file ti i \<and> ti_file_path ti i = p"
    by (intro exI [of _ "int j"]) (auto simp: valid_file_def)
next
  assume "\<exists>i. valid_file ti i \<and> ti_file_path ti i = p"
  then obtain i where "0 \<le> i" "i < ti_num_files ti" "p = ti_file_path ti i"
    by (auto simp: valid_file_def)
  then show "p \<in> set (file_paths ti)"
    unfolding file_paths_def by (auto intro!: image_eqI [of _ _ "nat i"])
qed

lemma mounted_ti: "mounted split ti st \<Longrightarrow> deref_ti st = Inr ti"
  by (auto simp: mounted_def deref_ti_def getAddTorrentParams_def split: sum.splits)

lemma mounted_tables:
  assumes "mounted split ti st" "split_ok split"
  shows "fs_tables st = dirs.index_of (map split (file_paths ti))"
  using assms by (simp add: mounted_def fill_tables_index)

text \<open>The file table holds exactly the paths of the torrent, between slashes.\<close>

lemma mounted_has_file:
  assumes "mounted split ti st" "split_ok split"
  shows "has_file (fs_tables st) (CHR ''/'' # r @ ''/'') \<longleftrightarrow> r \<in> set (file_paths ti)"
  using assms by (auto simp: mounted_tables has_file_filled)

lemma mounted_has_file_slash:
  assumes "mounted split ti st" "split_ok split" "has_file (fs_tables st) (q @ ''/'')"
  shows "\<exists>r. q = CHR ''/'' # r"
  using assms by (cases q) (auto simp: mounted_tables has_file_filled)

section \<open>The index lookup\<close>

lemma index_loop_hit:
  "i \<le> k \<Longrightarrow> k < i + int n \<Longrightarrow> name = c_str (ti_file_path ti k) \<Longrightarrow>
   i \<le> index_loop ti name i n \<and> index_loop ti name i n \<le> k \<and>
   name = c_str (ti_file_path ti (index_loop ti name i n))"
proof (induction n arbitrary: i)
  case 0
  then show ?case by simp
next
  case (Suc n)
  show ?case
  proof (cases "name = c_str (ti_file_path ti i)")
    case True
    then show ?thesis using Suc.prems by simp
  next
    case False
    then have "i \<noteq> k" using Suc.prems by auto
    then show ?thesis using Suc.IH [of "i + 1"] Suc.prems False by simp
  qed
qed

lemma index_loop_miss:
  "(\<And>k. i \<le> k \<Longrightarrow> k < i + int n \<Longrightarrow> name \<noteq> c_str (ti_file_path ti k)) \<Longrightarrow> index_loop ti name i n = - 1"
proof (induction n arbitrary: i)
  case 0
  then show ?case by simp
next
  case (Suc n)
  have "name \<noteq> c_str (ti_file_path ti i)" using Suc.prems [of i] by simp
  moreover have "index_loop ti name (i + 1) n = - 1"
    using Suc.prems by (intro Suc.IH) simp
  ultimately show ?case by simp
qed

lemma paths_ok_c_str: "paths_ok ti \<Longrightarrow> valid_file ti j \<Longrightarrow> c_str (ti_file_path ti j) = ti_file_path ti j"
  using set_file_paths by (intro c_str_id) (auto simp: paths_ok_def)

lemma get_file_index_found:
  assumes "mounted split ti st" "paths_ok ti" "r \<in> set (file_paths ti)"
  shows "\<exists>i. get_file_index (CHR ''/'' # r) st = Inr i \<and> valid_file ti i \<and> ti_file_path ti i = r"
proof -
  obtain k where k: "valid_file ti k" "ti_file_path ti k = r" using assms(3) by (auto simp: set_file_paths)
  let ?j = "index_loop ti r 0 (nat (ti_num_files ti))"
  have "0 \<le> ?j \<and> ?j \<le> k \<and> r = c_str (ti_file_path ti ?j)"
    using k paths_ok_c_str [OF assms(2)] by (intro index_loop_hit) (auto simp: valid_file_def)
  moreover from this have "valid_file ti ?j" using k(1) by (auto simp: valid_file_def)
  ultimately show ?thesis
    using mounted_ti [OF assms(1)] k(1) paths_ok_c_str [OF assms(2)]
    by (auto simp: get_file_index_def valid_file_def)
qed

lemma get_file_index_missing:
  assumes "mounted split ti st" "paths_ok ti" "r \<notin> set (file_paths ti)"
  shows "get_file_index (CHR ''/'' # r) st = Inr (- 1)"
proof -
  have "r \<noteq> c_str (ti_file_path ti k)" if "0 \<le> k" "k < 0 + int (nat (ti_num_files ti))" for k
  proof -
    have k: "valid_file ti k" using that by (simp add: valid_file_def split: if_splits)
    then show ?thesis using paths_ok_c_str [OF assms(2) k] assms(3) set_file_paths [of r ti] by auto
  qed
  then have "index_loop ti r 0 (nat (ti_num_files ti)) = - 1" by (rule index_loop_miss)
  then show ?thesis using mounted_ti [OF assms(1)] by (auto simp: get_file_index_def)
qed

text \<open>A mounted state over any session, for the witnesses.\<close>

definition mk_mounted :: "(string \<Rightarrow> string list) \<Rightarrow> torrent_info \<Rightarrow> 'l \<Rightarrow> 'l fs_state" where
  "mk_mounted split ti l =
     \<lparr>instance_made = True,
      fsmeta = Some \<lparr>sess = Some (\<lambda>_. None), tmeta = Some
        ((torrent_metadata_new (\<lambda>s. s) ''t.torrent'')
          \<lparr>thandle := TorrentHandle ti, params := empty_params\<lparr>par_ti := Some ti\<rparr>\<rparr>)\<rparr>,
      fs_tables = (case fill_tables split (file_paths ti) empty_tables of Inl f \<Rightarrow> empty_tables | Inr t \<Rightarrow> t),
      piece_buffer_map = (\<lambda>_. None),
      session = l\<rparr>"

lemma mk_mounted: "split_ok split \<Longrightarrow> mounted split ti (mk_mounted split ti l)"
  by (simp add: mounted_def mk_mounted_def deref_tmeta_def getTMeta_def fill_tables_index)

definition demo_ti :: torrent_info where
  "demo_ti = layout [(''a/b'', 5), (''a/c'', 3), (''d'', 4)] 4"

lemma demo_paths: "file_paths demo_ti = [''a/b'', ''a/c'', ''d'']"
  by (simp add: file_paths_def demo_ti_def layout_def Let_def upt_rec)

lemma demo_ok: "ti_ok demo_ti" "paths_ok demo_ti"
  unfolding demo_ti_def by (rule layout_ok, simp_all) (simp add: paths_ok_def demo_paths [unfolded demo_ti_def])

section \<open>Properties of the lookups\<close>

text \<open>Attributes of a file: its index is found, so nothing faults.\<close>

lemma getattr_file:
  assumes "mounted split ti st" "split_ok split" "paths_ok ti" "r \<in> set (file_paths ti)"
    and "\<not> has_dir (fs_tables st) (CHR ''/'' # r @ ''/'')" "r \<noteq> []"
  shows "\<exists>i. valid_file ti i \<and> ti_file_path ti i = r \<and> getattr (CHR ''/'' # r) st =
    Inr (0, zero_stat\<lparr>st_mode := or S_IFREG 0x124, st_nlink := 1, st_size := int_cast (ti_file_size ti i)\<rparr>)"
proof -
  obtain i where "get_file_index (CHR ''/'' # r) st = Inr i" "valid_file ti i" "ti_file_path ti i = r"
    using get_file_index_found [OF assms(1,3,4)] by blast
  then show ?thesis
    using assms mounted_ti [OF assms(1)] mounted_has_file [OF assms(1,2), of r]
    by (auto simp: getattr_def table_path_def get_file_size_def)
qed

lemma getattr_ok_iff:
  assumes "mounted split ti st" "split_ok split" "paths_ok ti"
  shows "(\<exists>b. getattr q st = Inr (0, b)) \<longleftrightarrow>
    has_dir (fs_tables st) (table_path q) \<or> has_file (fs_tables st) (table_path q)"
proof (cases "has_dir (fs_tables st) (table_path q)")
  case True
  then show ?thesis by (simp add: getattr_def)
next
  case nodir: False
  show ?thesis
  proof (cases "has_file (fs_tables st) (table_path q)")
    case False
    then show ?thesis using nodir by (simp add: getattr_def ENOENT_def)
  next
    case True
    have "\<exists>r. r \<in> set (file_paths ti) \<and> q = CHR ''/'' # r \<and> r \<noteq> []"
    proof -
      obtain p where p: "p \<in> set (file_paths ti)" "table_path q = CHR ''/'' # p @ ''/''"
        using True assms(1,2) by (auto simp: mounted_tables has_file_filled)
      then have "q \<noteq> ''/''" by (auto simp: table_path_def)
      with p show ?thesis by (cases q) (auto simp: table_path_def)
    qed
    then obtain r where "r \<in> set (file_paths ti)" "q = CHR ''/'' # r" "r \<noteq> []" by blast
    then show ?thesis
      using getattr_file [OF assms(1,2,3), of r] nodir True by (auto simp: table_path_def)
  qed
qed

lemma readdir_names:
  assumes "has_dir (fs_tables st) (table_path path)"
  shows "readdir (\<lambda>b s. b @ [s]) path [] st =
    (0, map c_str (sorted_list_of_set (children (fs_tables st) (table_path path))),
     st\<lparr>fs_tables := (fs_tables st)\<lparr>entries := (entries (fs_tables st))
       (table_path path := Some (children (fs_tables st) (table_path path)))\<rparr>\<rparr>)"
proof -
  have "foldl (\<lambda>b s. b @ [s]) [] xs = xs" for xs :: "string list"
    by (induction xs rule: rev_induct) auto
  then show ?thesis using assms by (simp add: readdir_def Let_def)
qed

text \<open>No component of a path holds a zero byte, so the names FUSE sees are the components.\<close>

lemma set_join_slash: "c \<in> set cs \<Longrightarrow> set c \<subseteq> set (join_slash cs)"
  by (induction cs rule: join_slash.induct) auto

lemma child_c_str:
  assumes "mounted split ti st" "split_ok split" "paths_ok ti" "c \<in> children (fs_tables st) d"
  shows "c_str c = c \<and> slash_free c"
proof -
  obtain p where p: "p \<in> set (file_paths ti)" "c \<in> set (split p)"
    using assms by (auto simp: mounted_tables children_filled)
  have "set c \<subseteq> set p" using set_join_slash [OF p(2)] assms(2) by (simp add: split_ok_def)
  then have "CHR 0x00 \<notin> set c" using p(1) assms(3) by (auto simp: paths_ok_def)
  then show ?thesis using p(2) assms(2) by (auto simp: c_str_id split_ok_def)
qed

lemma readdir_set:
  assumes "mounted split ti st" "split_ok split" "paths_ok ti" "has_dir (fs_tables st) (table_path path)"
  shows "fst (snd (readdir (\<lambda>b s. b @ [s]) path [] st)) =
    sorted_list_of_set (children (fs_tables st) (table_path path))"
proof -
  have "finite (children (fs_tables st) (table_path path))"
    using assms by (simp add: mounted_tables children_finite)
  then have "map c_str (sorted_list_of_set (children (fs_tables st) (table_path path))) =
      sorted_list_of_set (children (fs_tables st) (table_path path))"
    using child_c_str [OF assms(1-3)] by (intro map_idI) simp
  then show ?thesis using readdir_names [OF assms(4)] by simp
qed

lemma table_path_end: "\<exists>u. table_path p = u @ ''/''"
  by (simp add: table_path_def)

lemma table_path_child:
  assumes "n \<noteq> []" "slash_free n"
  shows "table_path (table_path p @ n) = table_path p @ n @ ''/''"
  using assms by (cases n) (auto simp: table_path_def slash_free_def append_eq_Cons_conv)

text \<open>A directory of a mounted torrent has an entry, so \<open>readdir\<close> creates none.\<close>

lemma readdir_mounted:
  assumes "mounted split ti st" "split_ok split" "paths_ok ti"
    and "readdir (\<lambda>b s. b @ [s]) path [] st = (0, names, st')"
  shows "has_dir (fs_tables st) (table_path path)"
    and "names = sorted_list_of_set (children (fs_tables st) (table_path path))"
    and "st' = st"
proof -
  let ?t = "fs_tables st" and ?d = "table_path path"
  show dir: "has_dir ?t ?d"
    using assms(4) by (auto simp: readdir_def ENOENT_def Let_def split: if_splits)
  show "names = sorted_list_of_set (children ?t ?d)"
    using readdir_set [OF assms(1-3) dir] assms(4) by simp
  have "children ?t ?d \<noteq> {}"
    using dirs.isdir_has_kid [OF split_map_ok(1) [OF assms(2)], of "file_paths ti"] dir
      mounted_tables [OF assms(1,2)] by simp
  then have "entries ?t ?d = Some (children ?t ?d)" by (auto simp: children_def split: option.splits)
  then show "st' = st" using assms(4) readdir_names [OF dir] by (auto simp: fun_upd_idem)
qed

text \<open>
  C9: \<open>readdir\<close> and \<open>getattr\<close> agree. In a mounted torrent a name other than the empty one is
  listed in a directory exactly when \<open>getattr\<close> finds it there; the listing is strictly sorted, so
  no name occurs twice; and \<open>readdir\<close> changes nothing, although \<open>entries[strpath]\<close> could.
\<close>

theorem readdir_matches_getattr:
  assumes "mounted split ti st" "split_ok split" "paths_ok ti"
    and "readdir (\<lambda>b s. b @ [s]) path [] st = (0, names, st')"
  shows "(\<forall>n. slash_free n \<and> n \<noteq> [] \<longrightarrow>
      (n \<in> set names \<longleftrightarrow> (\<exists>b. getattr (table_path path @ n) st = Inr (0, b)))) \<and>
    sorted_wrt (<) names \<and> st' = st"
proof -
  let ?t = "fs_tables st" and ?d = "table_path path"
  note rd = readdir_mounted [OF assms]
  have tab: "?t = dirs.index_of (map split (file_paths ti))" using assms(1,2) by (rule mounted_tables)
  have fin: "finite (children ?t ?d)" unfolding tab using assms(2) by (rule children_finite)
  note ok = split_map_ok [OF assms(2), of "file_paths ti"]
  have "n \<in> set names \<longleftrightarrow> (\<exists>b. getattr (?d @ n) st = Inr (0, b))" if "slash_free n" "n \<noteq> []" for n
  proof -
    obtain u where u: "?d = u @ ''/''" using table_path_end by blast
    have "n \<in> set names \<longleftrightarrow> has_dir ?t (?d @ n @ ''/'') \<or> has_file ?t (?d @ n @ ''/'')"
      unfolding rd(2) using fin dirs.kid_exists [OF ok(1), of n ?d]
        dirs.known_is_kid [OF ok that(1) u] tab by auto
    then show ?thesis using getattr_ok_iff [OF assms(1-3)] that by (simp add: table_path_child)
  qed
  then show ?thesis using rd(2,3) by simp
qed

theorem readdir_matches_getattr_witness:
  "''b'' \<in> set (fst (snd (readdir (\<lambda>b s. b @ [s]) ''/a'' [] (mk_mounted split_slash demo_ti ())))) \<longleftrightarrow>
   (\<exists>b. getattr ''/a/b'' (mk_mounted split_slash demo_ti ()) = Inr (0, b))"
proof -
  let ?st = "mk_mounted split_slash demo_ti ()"
  have m: "mounted split_slash demo_ti ?st" by (rule mk_mounted [OF split_slash_ok])
  have dir: "has_dir (fs_tables ?st) (table_path ''/a'')"
    unfolding mounted_tables [OF m split_slash_ok] has_dir_filled [OF split_slash_ok]
    by (simp add: demo_paths dirpath_def table_path_def Ex_less_Suc2)
  obtain names st' where r: "readdir (\<lambda>b s. b @ [s]) ''/a'' [] ?st = (0, names, st')"
    using readdir_names [OF dir] by blast
  show ?thesis
    using readdir_matches_getattr [OF m split_slash_ok demo_ok(2) r] r
    by (simp add: slash_free_def table_path_def)
qed

text \<open>
  C10: \<open>open\<close> succeeds exactly for the files of the torrent, and then \<open>get_file_index\<close>, which
  \<open>read\<close> calls next, finds an index of that file; otherwise \<open>open\<close> is \<open>-ENOENT\<close> and the
  index \<open>-1\<close>.
\<close>

theorem open_iff_indexed:
  assumes "mounted split ti st" "split_ok split" "paths_ok ti"
  shows "if \<exists>i. valid_file ti i \<and> ti_file_path ti i = r
    then fs_open (''/'' @ r) st = 0 \<and>
      (\<exists>i. get_file_index (''/'' @ r) st = Inr i \<and> valid_file ti i \<and> ti_file_path ti i = r)
    else fs_open (''/'' @ r) st = - ENOENT \<and> get_file_index (''/'' @ r) st = Inr (- 1)"
  using get_file_index_found [OF assms(1,3), of r] get_file_index_missing [OF assms(1,3), of r]
    mounted_has_file [OF assms(1,2), of r] set_file_paths [of r ti]
  by (simp add: fs_open_def)

theorem open_iff_indexed_witness:
  "fs_open ''/d'' (mk_mounted split_slash demo_ti ()) = 0 \<and>
   get_file_index ''/e'' (mk_mounted split_slash demo_ti ()) = Inr (- 1)"
  using open_iff_indexed [OF mk_mounted [OF split_slash_ok] split_slash_ok demo_ok(2), of "''d''" "()"]
    open_iff_indexed [OF mk_mounted [OF split_slash_ok] split_slash_ok demo_ok(2), of "''e''" "()"]
  unfolding set_file_paths [symmetric] by (simp add: demo_paths)

text \<open>
  C14: \<open>getattr\<close> of a file that is not also a directory reports a read-only regular file whose
  size is the file's size when that fits an \<open>int\<close>; the size of a file of 2 GiB or more, up to
  4 GiB, comes out negative.
\<close>

theorem getattr_size:
  assumes "mounted split ti st" "split_ok split" "paths_ok ti"
    and "r \<in> set (file_paths ti)" "r \<noteq> []" "\<not> has_dir (fs_tables st) (''/'' @ r @ ''/'')"
  shows "\<exists>i b. valid_file ti i \<and> ti_file_path ti i = r \<and> getattr (''/'' @ r) st = Inr (0, b) \<and>
    st_mode b = 0x8124 \<and> st_nlink b = 1 \<and>
    (0 \<le> ti_file_size ti i \<and> ti_file_size ti i \<le> INT_MAX \<longrightarrow> st_size b = ti_file_size ti i) \<and>
    (INT_MAX < ti_file_size ti i \<and> ti_file_size ti i < 2 ^ 32 \<longrightarrow>
       st_size b = ti_file_size ti i - 2 ^ 32 \<and> st_size b < 0)"
proof -
  obtain i where i: "valid_file ti i" "ti_file_path ti i = r"
    and ga: "getattr (''/'' @ r) st = Inr (0, zero_stat\<lparr>st_mode := or S_IFREG 0x124, st_nlink := 1,
      st_size := int_cast (ti_file_size ti i)\<rparr>)"
    using getattr_file [OF assms(1-4)] assms(5,6) by auto
  have "ti_file_size ti i - 2 ^ 32 < 0" if "ti_file_size ti i < 2 ^ 32" using that by simp
  then show ?thesis using i ga by (intro exI) (auto simp: zero_stat_def S_IFREG_def cast_simps int_cast_wrap)
qed

theorem getattr_size_witness:
  "\<exists>b. getattr ''/d'' (mk_mounted split_slash demo_ti ()) = Inr (0, b) \<and> st_nlink b = 1"
proof -
  let ?st = "mk_mounted split_slash demo_ti ()"
  have m: "mounted split_slash demo_ti ?st" by (rule mk_mounted [OF split_slash_ok])
  have nodir: "\<not> has_dir (fs_tables ?st) (''/'' @ ''d'' @ ''/'')"
    unfolding mounted_tables [OF m split_slash_ok] has_dir_filled [OF split_slash_ok]
    by (simp add: demo_paths dirpath_def Ex_less_Suc2)
  have "''d'' \<in> set (file_paths demo_ti)" by (simp add: demo_paths)
  from getattr_size [OF m split_slash_ok demo_ok(2) this _ nodir] show ?thesis by auto
qed

end
