(* ===== verification/LT_Sim.thy ===== *)
theory LT_Sim
  imports Pieces Torrent
begin

text \<open>
  A small session that meets what the model asks of libtorrent: every piece needs a given
  number of polls at positive priority, and a requested buffer arrives with the next poll. It
  shows that the hypotheses on the session can hold, and the witnesses run the program on it.
\<close>

record sim =
  s_prio :: "int \<Rightarrow> int"
  s_eta :: "int \<Rightarrow> nat"
  s_queue :: "int list"

definition sim_api :: "(int \<Rightarrow> byte list) \<Rightarrow> sim lt_api" where
  "sim_api D =
     \<lparr>have_piece = (\<lambda>s p. (s_eta s p = 0, s)),
      piece_priority = (\<lambda>s p n. s\<lparr>s_prio := (s_prio s)(p := n)\<rparr>),
      read_piece = (\<lambda>s p. if s_eta s p = 0 then s\<lparr>s_queue := s_queue s @ [p]\<rparr> else s),
      pop_alerts = (\<lambda>s. (OtherAlert ''poll'' # map (\<lambda>p. ReadPieceAlert p (D p)) (s_queue s),
        s\<lparr>s_queue := [],
          s_eta := (\<lambda>p. if 0 < s_prio s p then s_eta s p - 1 else s_eta s p)\<rparr>)),
      set_download_limit = (\<lambda>s n. s)\<rparr>"

definition sim_view :: "sim lt_view" where
  "sim_view =
     \<lparr>v_inv = (\<lambda>s. True), v_prio = s_prio, v_eta = s_eta,
      v_due = (\<lambda>s p. if p \<in> set (s_queue s) then Some 0 else None)\<rparr>"

text \<open>A fresh session in which every piece but the first needs two polls.\<close>

definition sim_init :: sim where
  "sim_init = \<lparr>s_prio = (\<lambda>p. if p < 10 then 4 else 0), s_eta = (\<lambda>p. if p = 0 then 0 else 2), s_queue = []\<rparr>"

lemma sim_ok: "lt_ok (sim_api D) sim_view D"
  unfolding lt_ok_def
proof
  show "lt_faithful (sim_api D) sim_view D"
    by (auto simp: lt_faithful_def sim_api_def sim_view_def)
  show "lt_live (sim_api D) sim_view"
    by (auto simp: lt_live_def no_loss_def sim_api_def sim_view_def)
qed

lemma sim_inv [simp]: "v_inv sim_view s"
  by (simp add: sim_view_def)

end
