(* ===== verification/Chunk_Loops.thy ===== *)
theory Chunk_Loops
  imports Torrent
begin

text \<open>
  The two loops every read of a file runs over the chunks of its range, as contracts: the
  planner, which marks the piece of each chunk as wanted, and the copier, which obtains the
  piece of each chunk and copies the chunk's bytes into the caller's buffer. The locales state
  what one round has to do and derive what the loop does. They are interpreted for the loops
  of \<open>FS.cpp\<close> (theory \<open>FS_Read\<close>) and of \<open>bitFS.cpp\<close> (theory \<open>BitFS\<close>).
\<close>

section \<open>Facts about chunks\<close>

text \<open>The piece that holds an offset of a file.\<close>

definition file_piece :: "torrent_info \<Rightarrow> int \<Rightarrow> int \<Rightarrow> int" where
  "file_piece ti idx off = (file_offset ti idx + off) div ti_piece_length ti"

lemma chunk_piece_eq:
  "ti_ok ti \<Longrightarrow> valid_file ti idx \<Longrightarrow> 0 \<le> off \<Longrightarrow> off < ti_file_size ti idx \<Longrightarrow>
   chunk_piece ti idx off rem = file_piece ti idx off"
  by (simp add: ti_ok_def chunk_piece_def file_piece_def)

lemma file_ctx: "ti_ok ti \<Longrightarrow> valid_file ti idx \<Longrightarrow> file_ctx_ok (ti, idx)"
  by (simp add: file_ctx_ok_def)

lemma file_step_eq: "file_step (ti, idx) = read_chunk ti idx"
  by (simp add: file_step_def fun_eq_iff)

lemma chunks_head:
  assumes "ti_ok ti" "valid_file ti idx" "0 \<le> off" "0 < rem" "off + rem \<le> ti_file_size ti idx"
  shows "chunks (read_chunk ti idx) off rem = (off, read_chunk ti idx off rem) #
    chunks (read_chunk ti idx) (off + read_chunk ti idx off rem) (rem - read_chunk ti idx off rem)"
  using file_chunks.chunks_unfold [OF file_ctx [OF assms(1,2)], of off rem] assms(3-5)
  by (simp add: file_step_eq file_limit_def)

text \<open>The pieces of a range.\<close>

definition range_pieces :: "torrent_info \<Rightarrow> int \<Rightarrow> int \<Rightarrow> int \<Rightarrow> int set" where
  "range_pieces ti idx off rem =
     (\<lambda>(o1, n1). file_piece ti idx o1) ` set (chunks (read_chunk ti idx) off rem)"

lemma range_pieces_stop: "rem \<le> 0 \<Longrightarrow> range_pieces ti idx off rem = {}"
  by (simp add: range_pieces_def chunks.simps)

lemma range_pieces_more:
  assumes "ti_ok ti" "valid_file ti idx" "0 \<le> off" "0 < rem" "off + rem \<le> ti_file_size ti idx"
  shows "range_pieces ti idx off rem = insert (file_piece ti idx off)
    (range_pieces ti idx (off + read_chunk ti idx off rem) (rem - read_chunk ti idx off rem))"
  unfolding range_pieces_def by (subst chunks_head [OF assms]) simp

lemma chunks_member:
  assumes "ti_ok ti" "valid_file ti idx" "0 \<le> off" "off + rem \<le> ti_file_size ti idx"
    and "(o1, n1) \<in> set (chunks (read_chunk ti idx) off rem)"
  shows "\<exists>r. n1 = read_chunk ti idx o1 r \<and> 0 < r \<and> o1 + r = off + rem"
proof -
  have "off + rem \<le> file_limit (ti, idx)" using assms(4) by (simp add: file_limit_def)
  with file_ctx [OF assms(1,2)] assms(3) show ?thesis using assms(5)
  proof (induction off rem rule: file_chunks.loop_induct)
    case (stop off rem)
    then show ?case by (simp add: chunks.simps)
  next
    case (more off rem)
    then have "off + rem \<le> ti_file_size ti idx" by (simp add: file_limit_def)
    note head = chunks_head [OF assms(1,2) more.hyps(1,2) this]
    show ?case
    proof (cases "(o1, n1) = (off, read_chunk ti idx off rem)")
      case True
      then show ?thesis using more.hyps(2) by auto
    next
      case False
      then show ?thesis using more.IH more.prems by (auto simp: head file_step_eq)
    qed
  qed
qed

text \<open>All offsets of a chunk lie in the same piece.\<close>

lemma chunk_one_piece:
  assumes "ti_ok ti" "valid_file ti idx" "0 \<le> o1" "0 < r" "o1 + r \<le> ti_file_size ti idx"
    and "o1 \<le> o2" "o2 < o1 + read_chunk ti idx o1 r"
  shows "file_piece ti idx o2 = file_piece ti idx o1"
proof -
  have lim: "o1 < ti_file_size ti idx" using assms(4,5) by simp
  note geo = chunk_geometry [OF assms(1-3) lim, of r]
  let ?p = "chunk_piece ti idx o1 r" and ?s = "chunk_start ti idx o1 r" and ?pl = "ti_piece_length ti"
  have "file_offset ti idx + o2 = ?pl * ?p + (?s + (o2 - o1))" using geo(5) by (simp add: mult.commute)
  moreover have "0 \<le> ?s + (o2 - o1)" "?s + (o2 - o1) < ?pl"
    using geo(2,4) assms(6,7) by (simp_all add: read_chunk_def)
  ultimately have "file_piece ti idx o2 = ?p" unfolding file_piece_def by (rule int_div_pos_eq)
  then show ?thesis using chunk_piece_eq [OF assms(1-3) lim] by simp
qed

lemma range_pieces_cover:
  assumes "ti_ok ti" "valid_file ti idx" "0 \<le> off" "off + rem \<le> ti_file_size ti idx"
    and b: "off \<le> b" "b < off + rem"
  shows "file_piece ti idx b \<in> range_pieces ti idx off rem"
proof -
  have lim: "off + rem \<le> file_limit (ti, idx)" using assms(4) by (simp add: file_limit_def)
  note ctx = file_ctx [OF assms(1,2)]
  obtain o1 n1 where c: "(o1, n1) \<in> set (chunks (read_chunk ti idx) off rem)" "o1 \<le> b" "b < o1 + n1"
    using file_chunks.chunks_cover [OF ctx assms(3) lim b] by (auto simp: file_step_eq)
  have "off \<le> o1"
    using file_chunks.chunks_within [OF ctx assms(3) lim, of o1 n1] c(1) by (simp add: file_step_eq)
  obtain r where "n1 = read_chunk ti idx o1 r" "0 < r" "o1 + r = off + rem"
    using chunks_member [OF assms(1-4) c(1)] by blast
  then have "file_piece ti idx b = file_piece ti idx o1"
    using chunk_one_piece [OF assms(1,2), of o1 r b] c \<open>off \<le> o1\<close> assms(3,4) by simp
  with c(1) show ?thesis unfolding range_pieces_def by (auto intro!: image_eqI [of _ _ "(o1, n1)"])
qed

section \<open>Planning\<close>

locale planner =
  fixes ctx_ok :: "'c \<Rightarrow> bool"
    and keeps :: "'c \<Rightarrow> 's \<Rightarrow> 's \<Rightarrow> bool"
    and marked :: "'c \<Rightarrow> 's \<Rightarrow> int \<Rightarrow> bool"
    and round :: "'c \<Rightarrow> torrent_info \<Rightarrow> int \<Rightarrow> int \<Rightarrow> int \<Rightarrow> 's \<Rightarrow> 's"
    and loop :: "'c \<Rightarrow> torrent_info \<Rightarrow> int \<Rightarrow> int \<Rightarrow> int \<Rightarrow> 's \<Rightarrow> 's option"
  assumes round_marks: "ctx_ok c \<Longrightarrow> keeps c s s \<Longrightarrow>
      keeps c s (round c ti idx off rem s) \<and> marked c (round c ti idx off rem s) (chunk_piece ti idx off rem)"
    and keeps_trans: "keeps c s s1 \<Longrightarrow> keeps c s1 s2 \<Longrightarrow> keeps c s s2"
    and keeps_stays: "keeps c s s1 \<Longrightarrow> keeps c s1 s1"
    and keeps_marked: "keeps c s s1 \<Longrightarrow> marked c s p \<Longrightarrow> marked c s1 p"
    and loop_unfold: "loop c ti idx off rem s =
      (if rem > 0 then loop c ti idx (off + read_chunk ti idx off rem) (rem - read_chunk ti idx off rem)
         (round c ti idx off rem s) else Some s)"
begin

text \<open>The loop ends, loses nothing, and marks every piece of the range.\<close>

lemma loop_marks:
  assumes "ctx_ok c" "ti_ok ti" "valid_file ti idx" "0 \<le> off"
    and "off + rem \<le> ti_file_size ti idx" "keeps c s s"
  shows "\<exists>s'. loop c ti idx off rem s = Some s' \<and> keeps c s s' \<and>
    (\<forall>p\<in>range_pieces ti idx off rem. marked c s' p)"
proof -
  have "off + rem \<le> file_limit (ti, idx)" using assms(5) by (simp add: file_limit_def)
  with file_ctx [OF assms(2,3)] assms(4) show ?thesis using assms(6)
  proof (induction off rem arbitrary: s rule: file_chunks.loop_induct)
    case (stop off rem)
    then show ?case by (subst loop_unfold) (simp add: range_pieces_stop)
  next
    case (more off rem)
    let ?n = "read_chunk ti idx off rem" and ?s1 = "round c ti idx off rem s"
    have fits: "off + rem \<le> ti_file_size ti idx" "off < ti_file_size ti idx"
      using more.hyps by (simp_all add: file_limit_def)
    have k1: "keeps c s ?s1" and m1: "marked c ?s1 (file_piece ti idx off)"
      using round_marks [OF assms(1) more.prems, of ti idx off rem]
        chunk_piece_eq [OF assms(2,3) more.hyps(1) fits(2)] by simp_all
    obtain s2 where 2: "loop c ti idx (off + ?n) (rem - ?n) ?s1 = Some s2" "keeps c ?s1 s2"
        "\<forall>p\<in>range_pieces ti idx (off + ?n) (rem - ?n). marked c s2 p"
      using more.IH [OF keeps_stays [OF k1]] by (auto simp: file_step_eq)
    have "loop c ti idx off rem s = Some s2" using 2(1) more.hyps(2) by (subst loop_unfold) simp
    moreover have "\<forall>p\<in>range_pieces ti idx off rem. marked c s2 p"
      using 2(3) keeps_marked [OF 2(2) m1]
      by (simp add: range_pieces_more [OF assms(2,3) more.hyps(1,2) fits(1)])
    ultimately show ?case using keeps_trans [OF k1 2(2)] by blast
  qed
qed

end

section \<open>Copying\<close>

text \<open>The two copies of one round, from the piece to the scratch buffer and from there to the target.\<close>

lemma chunk_copies:
  assumes "ti_ok ti" "content_ok ti content" "valid_file ti idx" "0 \<le> off" "0 < rem"
    and "off + rem \<le> ti_file_size ti idx" "length temp = nat (ti_piece_length ti)"
    and "0 \<le> rp" "rp + rem \<le> int (length buf)" "n = read_chunk ti idx off rem"
  shows "\<exists>temp'. memcpy temp 0 (map Some (piece_data ti content (chunk_piece ti idx off rem))) 0
        (ti_piece_size ti (chunk_piece ti idx off rem)) = Inr temp' \<and>
      length temp' = length temp \<and>
      memcpy buf rp temp' (chunk_start ti idx off rem) n = Inr (take (nat rp) buf @
        map Some (take (nat n) (drop (nat off) (file_data ti content idx))) @ drop (nat (rp + n)) buf)"
proof -
  let ?D = "piece_data ti content" and ?p = "chunk_piece ti idx off rem" and ?s = "chunk_start ti idx off rem"
  let ?psz = "ti_piece_size ti ?p"
  have lim: "off < ti_file_size ti idx" using assms(5,6) by simp
  note geo = chunk_geometry [OF assms(1,3,4) lim, of rem]
  note len = piece_data_length [OF assms(1,2) geo(1)]
  have n: "0 \<le> n" "n \<le> rem" "?s + n \<le> ?psz"
    using geo(3) assms(5,10) by (simp_all add: read_chunk_def)
  let ?temp = "map Some (?D ?p) @ drop (nat ?psz) temp"
  have t: "memcpy temp 0 (map Some (?D ?p)) 0 ?psz = Inr ?temp"
    using len geo(4) assms(7) by (subst memcpy_Inr) auto
  have ltemp: "length ?temp = length temp" using memcpy_length [OF t] .
  have "nat ?s + nat n \<le> length (?D ?p)" using len(1) n geo(2) by linarith
  then have "take (nat n) (drop (nat ?s) ?temp) = map Some (take (nat n) (drop (nat ?s) (?D ?p)))"
    by (simp add: take_map drop_map)
  then have slice: "take (nat n) (drop (nat ?s) ?temp) =
      map Some (take (nat n) (drop (nat off) (file_data ti content idx)))"
    using piece_slice [OF assms(1,3,4,5,6,10), of content] by simp
  have "memcpy buf rp ?temp ?s n = Inr (take (nat rp) buf @
      map Some (take (nat n) (drop (nat off) (file_data ti content idx))) @ drop (nat (rp + n)) buf)"
    using n geo(2,4) assms(7-9) ltemp slice by (subst memcpy_Inr) auto
  then show ?thesis using t ltemp by blast
qed

text \<open>
  One round of copying: \<open>get\<close> waits for the piece and gives its buffer (\<open>None\<close>: it waits for
  ever; no buffer: a null pointer), \<open>temp\<close> is the scratch buffer, \<open>rp\<close> the number of bytes
  copied so far.
\<close>

definition copy_step ::
  "(int \<Rightarrow> 's \<Rightarrow> (byte list option \<times> 's) option) \<Rightarrow> torrent_info \<Rightarrow> int \<Rightarrow> int \<Rightarrow> int \<Rightarrow> int \<Rightarrow>
   mem \<Rightarrow> mem \<Rightarrow> 's \<Rightarrow> (mem \<times> mem \<times> 's) outcome" where
  "copy_step get ti idx off rem rp temp buf s =
     (let p = chunk_piece ti idx off rem in
      case get p s of None \<Rightarrow> None
      | Some (None, s') \<Rightarrow> Some (Inl NullPointer)
      | Some (Some pb, s') \<Rightarrow>
        (case memcpy temp 0 (map Some pb) 0 (ti_piece_size ti p) of Inl f \<Rightarrow> Some (Inl f)
         | Inr temp' \<Rightarrow>
           (case memcpy buf rp temp' (chunk_start ti idx off rem) (read_chunk ti idx off rem)
            of Inl f \<Rightarrow> Some (Inl f)
            | Inr buf' \<Rightarrow> Some (Inr (temp', buf', s')))))"

locale copier =
  fixes ctx_ok :: "'c \<Rightarrow> bool"
    and keeps :: "'c \<Rightarrow> 's \<Rightarrow> 's \<Rightarrow> bool"
    and marked :: "'c \<Rightarrow> 's \<Rightarrow> int \<Rightarrow> bool"
    and data :: "'c \<Rightarrow> int \<Rightarrow> byte list"
    and get :: "'c \<Rightarrow> int \<Rightarrow> 's \<Rightarrow> (byte list option \<times> 's) option"
    and loop :: "'c \<Rightarrow> torrent_info \<Rightarrow> int \<Rightarrow> int \<Rightarrow> int \<Rightarrow> int \<Rightarrow> mem \<Rightarrow> mem \<Rightarrow> 's \<Rightarrow> (int \<times> mem \<times> 's) outcome"
  assumes get_delivers: "ctx_ok c \<Longrightarrow> keeps c s s \<Longrightarrow> marked c s p \<Longrightarrow>
      \<exists>s'. get c p s = Some (Some (data c p), s') \<and> keeps c s s'"
    and keeps_trans: "keeps c s s1 \<Longrightarrow> keeps c s1 s2 \<Longrightarrow> keeps c s s2"
    and keeps_stays: "keeps c s s1 \<Longrightarrow> keeps c s1 s1"
    and keeps_marked: "keeps c s s1 \<Longrightarrow> marked c s p \<Longrightarrow> marked c s1 p"
    and loop_unfold: "loop c ti idx off rem rp temp buf s =
      (if rem > 0 then
         case copy_step (get c) ti idx off rem rp temp buf s of None \<Rightarrow> None
         | Some (Inl f) \<Rightarrow> Some (Inl f)
         | Some (Inr (temp', buf', s')) \<Rightarrow>
             loop c ti idx (off + read_chunk ti idx off rem) (rem - read_chunk ti idx off rem)
               (rp + read_chunk ti idx off rem) temp' buf' s'
       else Some (Inr (rp, buf, s)))"
begin

text \<open>One round copies the next bytes of the file into the target.\<close>

lemma step_copies:
  assumes "ctx_ok c" "data c = piece_data ti content" "ti_ok ti" "content_ok ti content" "valid_file ti idx"
    and "0 \<le> off" "0 < rem" "off + rem \<le> ti_file_size ti idx"
    and "keeps c s s" "marked c s (file_piece ti idx off)"
    and "length temp = nat (ti_piece_length ti)" "0 \<le> rp" "rp + rem \<le> int (length buf)"
    and "n = read_chunk ti idx off rem"
  shows "\<exists>temp' s'. copy_step (get c) ti idx off rem rp temp buf s =
      Some (Inr (temp', take (nat rp) buf @ map Some (take (nat n) (drop (nat off) (file_data ti content idx))) @
        drop (nat (rp + n)) buf, s')) \<and>
    length temp' = length temp \<and> keeps c s s'"
proof -
  have lim: "off < ti_file_size ti idx" using assms(7,8) by simp
  obtain s' where g: "get c (chunk_piece ti idx off rem) s =
      Some (Some (piece_data ti content (chunk_piece ti idx off rem)), s')" "keeps c s s'"
    using get_delivers [OF assms(1,9), of "chunk_piece ti idx off rem"] assms(2,10)
      chunk_piece_eq [OF assms(3,5,6) lim] by auto
  with chunk_copies [OF assms(3,4,5,6,7,8,11-14)] show ?thesis
    using assms(14) by (fastforce simp: copy_step_def Let_def)
qed

text \<open>The loop ends and fills the target from \<open>rp\<close> on with the rest of the range.\<close>

lemma loop_copies:
  assumes "ctx_ok c" "data c = piece_data ti content" "ti_ok ti" "content_ok ti content" "valid_file ti idx"
    and "0 \<le> off" "off + rem \<le> ti_file_size ti idx"
    and "keeps c s s" "\<forall>p\<in>range_pieces ti idx off rem. marked c s p"
    and "length temp = nat (ti_piece_length ti)" "0 \<le> rp" "rp + rem \<le> int (length buf)"
  shows "\<exists>s'. loop c ti idx off rem rp temp buf s = Some (Inr (rp + max 0 rem,
      take (nat rp) buf @ map Some (take (nat rem) (drop (nat off) (file_data ti content idx))) @
        drop (nat (rp + max 0 rem)) buf, s')) \<and> keeps c s s'"
proof -
  have "off + rem \<le> file_limit (ti, idx)" using assms(7) by (simp add: file_limit_def)
  with file_ctx [OF assms(3,5)] assms(6) show ?thesis using assms(8-12)
  proof (induction off rem arbitrary: rp temp buf s rule: file_chunks.loop_induct)
    case (stop off rem)
    then show ?case by (subst loop_unfold) simp
  next
    case (more off rem)
    let ?n = "read_chunk ti idx off rem" and ?F = "file_data ti content idx"
    have fits: "off + rem \<le> ti_file_size ti idx" using more.hyps(3) by (simp add: file_limit_def)
    note pieces = range_pieces_more [OF assms(3,5) more.hyps(1,2) fits]
    have n: "0 < ?n" "?n \<le> rem" using more.hyps(4,5) by (simp_all add: file_step_eq)
    have wt: "marked c s (file_piece ti idx off)" using more.prems(2) pieces by simp
    define buf1 where "buf1 = take (nat rp) buf @ map Some (take (nat ?n) (drop (nat off) ?F)) @
      drop (nat (rp + ?n)) buf"
    obtain temp1 s1 where
        r: "copy_step (get c) ti idx off rem rp temp buf s = Some (Inr (temp1, buf1, s1))"
        and t1: "length temp1 = length temp" and k1: "keeps c s s1"
      using step_copies [OF assms(1-5) more.hyps(1,2) fits more.prems(1) wt more.prems(3-5) refl]
      unfolding buf1_def by blast
    have lF: "nat off + nat ?n \<le> length ?F"
      using file_data_length [OF assms(3,4,5)] fits n more.hyps(1) by linarith
    let ?A = "take (nat rp) buf @ map Some (take (nat ?n) (drop (nat off) ?F))"
    have rp: "nat (rp + ?n) = nat rp + nat ?n" "nat rp + nat ?n \<le> length buf"
      using more.prems(4,5) n by linarith+
    have "nat ?n \<le> length ?F - nat off" using lF by linarith
    then have lA: "length ?A = nat (rp + ?n)" using rp by (simp add: min_absorb2)
    have lb: "length buf1 = length buf" using rp lA by (simp add: buf1_def)
    have tk: "take (nat (rp + ?n)) buf1 = ?A"
      unfolding buf1_def append_assoc [symmetric] using lA by (metis append_eq_conv_conj)
    have dr: "drop (nat (rp + rem)) buf1 = drop (nat (rp + rem)) buf"
    proof -
      have "nat (rp + rem) = nat (rp + ?n) + nat (rem - ?n)" using more.prems(4) n by linarith
      then show ?thesis unfolding buf1_def append_assoc [symmetric] by (simp only: drop_past [OF lA])
    qed
    have all: "\<forall>p\<in>range_pieces ti idx (off + ?n) (rem - ?n). marked c s1 p"
      using more.prems(2) keeps_marked [OF k1] pieces by simp
    obtain s2 where l2: "loop c ti idx (off + ?n) (rem - ?n) (rp + ?n) temp1 buf1 s1 =
        Some (Inr (rp + ?n + max 0 (rem - ?n), take (nat (rp + ?n)) buf1 @
          map Some (take (nat (rem - ?n)) (drop (nat (off + ?n)) ?F)) @
          drop (nat (rp + ?n + max 0 (rem - ?n))) buf1, s2))"
        and k2: "keeps c s1 s2"
      using more.IH [of s1 temp1 "rp + ?n" buf1] keeps_stays [OF k1] all t1 more.prems(3,4,5) n lb
      by (auto simp: file_step_eq)
    have e: "rp + ?n + max 0 (rem - ?n) = rp + rem" "max 0 rem = rem"
      using n more.hyps(2) by simp_all
    have "nat (off + ?n) = nat off + nat ?n" "nat ?n + nat (rem - ?n) = nat rem"
      using n more.hyps(1) by (simp_all add: nat_add_distrib [symmetric])
    then have "take (nat ?n) (drop (nat off) ?F) @ take (nat (rem - ?n)) (drop (nat (off + ?n)) ?F) =
        take (nat rem) (drop (nat off) ?F)"
      using take_drop_join [of "nat ?n" "nat off" ?F "nat (rem - ?n)"] by simp
    then have "map Some (take (nat ?n) (drop (nat off) ?F)) @
        map Some (take (nat (rem - ?n)) (drop (nat (off + ?n)) ?F)) =
        map Some (take (nat rem) (drop (nat off) ?F))"
      by (metis map_append)
    then have "take (nat (rp + ?n)) buf1 @ map Some (take (nat (rem - ?n)) (drop (nat (off + ?n)) ?F)) @
        drop (nat (rp + rem)) buf1 =
      take (nat rp) buf @ map Some (take (nat rem) (drop (nat off) ?F)) @ drop (nat (rp + rem)) buf"
      unfolding tk dr by (metis append_assoc)
    moreover have "loop c ti idx off rem rp temp buf s =
        loop c ti idx (off + ?n) (rem - ?n) (rp + ?n) temp1 buf1 s1"
      using more.hyps(2) r by (subst loop_unfold) simp
    ultimately show ?case using l2 keeps_trans [OF k1 k2] unfolding e by simp
  qed
qed

end

end
