(* ===== verification/FS_Read.thy ===== *)
theory FS_Read
  imports FS_Ops LT_Sim Chunk_Loops
begin

text \<open>
  \<open>FS::read\<close>: the planning loop, which gives the missing pieces of the requested range their
  priorities, the loop that asks early for pieces that have arrived, and the copying loop,
  which waits for each piece and copies its bytes into the caller's buffer under the mutex.
  The main result is that \<open>read\<close> returns and delivers exactly the requested bytes.
\<close>

section \<open>The loops\<close>

text \<open>The priorities \<open>read\<close> sets for a missing piece and its neighbours.\<close>

definition raise_priorities :: "'l lt_api \<Rightarrow> torrent_info \<Rightarrow> int \<Rightarrow> 'l \<Rightarrow> 'l" where
  "raise_priorities api ti p l =
     (let l2 = piece_priority api l p 7;
          l3 = (if p > 1 then piece_priority api l2 (p - 1) 1 else l2)
      in if p < ti_num_pieces ti - 1 then piece_priority api l3 (p + 1) 7 else l3)"

text \<open>
  One round of the planning loop. The values of \<open>required_pieces\<close> are all false and never
  read, so the map is its set of keys; \<open>required_count\<close> is never read either.
\<close>

definition plan_round ::
  "'l lt_api \<Rightarrow> torrent_info \<Rightarrow> int \<Rightarrow> int \<Rightarrow> int \<Rightarrow> int set \<Rightarrow> 'l \<Rightarrow> int set \<times> 'l" where
  "plan_round api ti idx curr_off rem req l =
     (let p = chunk_piece ti idx curr_off rem; (h, l1) = have_piece api l p
      in if \<not> h then (insert p req, raise_priorities api ti p l1) else (req, l1))"

partial_function (option) plan_loop ::
  "'l lt_api \<Rightarrow> torrent_info \<Rightarrow> int \<Rightarrow> int \<Rightarrow> int \<Rightarrow> int set \<Rightarrow> 'l \<Rightarrow> (int set \<times> 'l) option" where
  "plan_loop api ti idx curr_off rem req l =
     (if rem > 0 then
        case plan_round api ti idx curr_off rem req l of (req', l') \<Rightarrow>
          plan_loop api ti idx (curr_off + read_chunk ti idx curr_off rem)
            (rem - read_chunk ti idx curr_off rem) req' l'
      else Some (req, l))"

text \<open>The loop over \<open>required_pieces\<close>, in the order of the map's keys.\<close>

fun early_reads :: "'l lt_api \<Rightarrow> int list \<Rightarrow> 'l \<Rightarrow> 'l" where
  "early_reads api [] l = l"
| "early_reads api (p # ps) l =
     (let (h, l1) = have_piece api l p
      in early_reads api ps (if h then read_piece api l1 p else l1))"

text \<open>One round of the copying loop: the new scratch buffer, target, session and buffer map.\<close>

definition copy_round ::
  "'l lt_api \<Rightarrow> torrent_info \<Rightarrow> int \<Rightarrow> int \<Rightarrow> int \<Rightarrow> int \<Rightarrow> mem \<Rightarrow> mem \<Rightarrow> 'l \<Rightarrow> cache \<Rightarrow>
   (mem \<times> mem \<times> 'l \<times> cache) outcome" where
  "copy_round api ti idx curr_off rem read_ptr temp_buf buf l m =
     (let p = chunk_piece ti idx curr_off rem; psz = ti_piece_size ti p in
      case wait_for_piece_download api p l m of None \<Rightarrow> None
      | Some (l1, m1) \<Rightarrow>
       (case fetch_piece_buffer api p l1 m1 of None \<Rightarrow> None
        | Some (l2, m2) \<Rightarrow>
         (case m2 p of None \<Rightarrow> Some (Inl NullPointer)
          | Some pb \<Rightarrow>
           (case memcpy temp_buf 0 (map Some pb) 0 psz of Inl f \<Rightarrow> Some (Inl f)
            | Inr temp' \<Rightarrow>
             (case memcpy buf read_ptr temp' (chunk_start ti idx curr_off rem) (read_chunk ti idx curr_off rem)
              of Inl f \<Rightarrow> Some (Inl f)
              | Inr buf' \<Rightarrow> Some (Inr (temp', buf', l2, m2)))))))"

partial_function (option) copy_loop ::
  "'l lt_api \<Rightarrow> torrent_info \<Rightarrow> int \<Rightarrow> int \<Rightarrow> int \<Rightarrow> int \<Rightarrow> mem \<Rightarrow> mem \<Rightarrow> 'l \<Rightarrow> cache \<Rightarrow>
   (int \<times> mem \<times> 'l \<times> cache) outcome" where
  "copy_loop api ti idx curr_off rem read_ptr temp_buf buf l m =
     (if rem > 0 then
        case copy_round api ti idx curr_off rem read_ptr temp_buf buf l m of None \<Rightarrow> None
        | Some res \<Rightarrow>
          (case res of Inl f \<Rightarrow> Some (Inl f)
           | Inr x \<Rightarrow> (case x of (temp', buf', l', m') \<Rightarrow>
               copy_loop api ti idx (curr_off + read_chunk ti idx curr_off rem)
                 (rem - read_chunk ti idx curr_off rem) (read_ptr + read_chunk ti idx curr_off rem)
                 temp' buf' l' m'))
      else Some (Inr (read_ptr, buf, l, m)))"

section \<open>The operation\<close>

definition set_mutex :: "bool \<Rightarrow> 'l fs_state \<Rightarrow> 'l fs_state" where
  "set_mutex b st = st\<lparr>fsmeta := map_option
     (\<lambda>bm. bm\<lparr>tmeta := map_option (\<lambda>tm. tm\<lparr>fsmtx := b\<rparr>) (tmeta bm)\<rparr>) (fsmeta st)\<rparr>"

definition mutex_held :: "'l fs_state \<Rightarrow> bool" where
  "mutex_held st = (case deref_tmeta st of Inl f \<Rightarrow> False | Inr tm \<Rightarrow> fsmtx tm)"

text \<open>
  Waiting for a mutex that is held is a call that does not return: in this theory nobody
  else runs. Theory \<open>Readers\<close> has several calls at once.
\<close>

definition fs_read ::
  "'l lt_api \<Rightarrow> string \<Rightarrow> mem \<Rightarrow> 64 word \<Rightarrow> 64 word \<Rightarrow> 'l fs_state \<Rightarrow>
   (int \<times> mem \<times> 'l fs_state) outcome" where
  "fs_read api filepath buf u_size u_offset st =
     (case deref_tmeta st of Inl f \<Rightarrow> Some (Inl f)
      | Inr tm \<Rightarrow>
     (case thandle tm of InvalidHandle \<Rightarrow> Some (Inl BadHandle)
      | TorrentHandle ti \<Rightarrow>
     (case get_file_index filepath st of Inl f \<Rightarrow> Some (Inl f)
      | Inr file_index \<Rightarrow>
     (case get_file_size file_index st of Inl f \<Rightarrow> Some (Inl f)
      | Inr file_total_size \<Rightarrow>
     (let size = int_cast (uint u_size);
          offset = int_cast (sint u_offset);
          temp_buf = replicate (nat (ti_piece_length ti)) None;
          remaining = min size (file_total_size - offset)
      in
      if sint u_offset \<ge> file_total_size then Some (Inr (0, buf, st))
      else
     (case plan_loop api ti file_index offset remaining {} (session st) of None \<Rightarrow> None
      | Some (required, l1) \<Rightarrow>
      if fsmtx tm then None
      else
       (let st1 = set_mutex True st;
            l2 = early_reads api (sorted_list_of_set required) l1
        in case copy_loop api ti file_index offset remaining 0 temp_buf buf l2 (piece_buffer_map st1) of
             None \<Rightarrow> None
           | Some (Inl f) \<Rightarrow> Some (Inl f)
           | Some (Inr (read_ptr, buf', l3, m3)) \<Rightarrow>
               Some (Inr (read_ptr, buf',
                 set_mutex False (st1\<lparr>session := l3, piece_buffer_map := m3\<rparr>))))))))))"

section \<open>The planning loop\<close>

definition wanted :: "'l lt_view \<Rightarrow> 'l \<Rightarrow> int \<Rightarrow> bool" where
  "wanted v l p \<longleftrightarrow> 0 < v_prio v l p \<or> v_eta v l p = 0"

text \<open>A session in which nothing wanted was lost.\<close>

definition keeps_wanted :: "'l lt_view \<Rightarrow> 'l \<Rightarrow> 'l \<Rightarrow> bool" where
  "keeps_wanted v l l' \<longleftrightarrow> v_inv v l' \<and> no_loss v l l' \<and> (\<forall>q. wanted v l q \<longrightarrow> wanted v l' q)"

lemma keeps_wanted_trans: "keeps_wanted v l l1 \<Longrightarrow> keeps_wanted v l1 l2 \<Longrightarrow> keeps_wanted v l l2"
  unfolding keeps_wanted_def no_loss_def by (meson order_trans)

lemma keeps_wanted_refl: "v_inv v l \<Longrightarrow> keeps_wanted v l l"
  by (simp add: keeps_wanted_def no_loss_def)

lemma after_keeps_wanted: "lt_after v l l' \<Longrightarrow> keeps_wanted v l l'"
  unfolding keeps_wanted_def lt_after_def wanted_def no_loss_def by (metis le_zero_eq)

lemma priority_keeps_wanted:
  assumes "lt_ok api v D" "v_inv v l" "0 < n"
  shows "keeps_wanted v l (piece_priority api l p n)" "wanted v (piece_priority api l p n) p"
proof -
  note pp = piece_priority_after [OF assms(1,2)]
  have "wanted v (piece_priority api l p n) q" if "wanted v l q" for q
    using that assms(3) pp(2) [of p n] pp(3) [of p n q] by (cases "q = p") (auto simp: wanted_def)
  then show "keeps_wanted v l (piece_priority api l p n)"
    using pp(1) pp(3) by (simp add: keeps_wanted_def no_loss_def)
  show "wanted v (piece_priority api l p n) p" using pp(2) assms(3) by (simp add: wanted_def)
qed

lemma raise_priorities_wanted:
  assumes "lt_ok api v D" "v_inv v l"
  shows "keeps_wanted v l (raise_priorities api ti p l)" "wanted v (raise_priorities api ti p l) p"
proof -
  define l2 where "l2 = piece_priority api l p 7"
  define l3 where "l3 = (if p > 1 then piece_priority api l2 (p - 1) 1 else l2)"
  define l4 where "l4 = (if p < ti_num_pieces ti - 1 then piece_priority api l3 (p + 1) 7 else l3)"
  have k: "keeps_wanted v x (piece_priority api x q n)" if "v_inv v x" "0 < n" for x q n
    using priority_keeps_wanted(1) [OF assms(1) that] .
  have k2: "keeps_wanted v l l2" "wanted v l2 p"
    unfolding l2_def by (rule priority_keeps_wanted [OF assms], simp)+
  have i2: "v_inv v l2" using k2(1) by (simp add: keeps_wanted_def)
  have k3: "keeps_wanted v l2 l3"
    unfolding l3_def by (simp add: k i2 keeps_wanted_refl)
  have i3: "v_inv v l3" using k3 by (simp add: keeps_wanted_def)
  have "keeps_wanted v l3 l4"
    unfolding l4_def by (simp add: k i3 keeps_wanted_refl)
  then have k4: "keeps_wanted v l2 l4" by (rule keeps_wanted_trans [OF k3])
  have "raise_priorities api ti p l = l4"
    by (simp add: raise_priorities_def Let_def l2_def l3_def l4_def)
  moreover have "keeps_wanted v l l4" using k2(1) k4 by (rule keeps_wanted_trans)
  moreover have "wanted v l4 p" using k2(2) k4 by (simp add: keeps_wanted_def)
  ultimately show "keeps_wanted v l (raise_priorities api ti p l)" "wanted v (raise_priorities api ti p l) p"
    by simp_all
qed

lemma plan_round_wanted:
  assumes "lt_ok api v D" "v_inv v l" "plan_round api ti idx off rem req l = (req', l')"
  shows "keeps_wanted v l l'" "wanted v l' (chunk_piece ti idx off rem)"
proof -
  let ?p = "chunk_piece ti idx off rem"
  obtain h l1 where h: "have_piece api l ?p = (h, l1)" by fastforce
  note h1 = have_piece_after [OF assms(1,2) h]
  have k1: "keeps_wanted v l l1" using h1(1) by (rule after_keeps_wanted)
  then have i1: "v_inv v l1" by (simp add: keeps_wanted_def)
  have l': "l' = (if h then l1 else raise_priorities api ti ?p l1)"
    using assms(3) h by (simp add: plan_round_def Let_def split: if_splits)
  have "keeps_wanted v l l' \<and> wanted v l' ?p"
  proof (cases h)
    case True
    then have "wanted v l ?p" using h1(2) by (simp add: wanted_def)
    then show ?thesis using True l' k1 by (simp add: keeps_wanted_def)
  next
    case False
    note r = raise_priorities_wanted [OF assms(1) i1, of ti ?p]
    show ?thesis using False l' r keeps_wanted_trans [OF k1 r(1)] by simp
  qed
  then show "keeps_wanted v l l'" "wanted v l' ?p" by simp_all
qed

text \<open>The planning loop is a planner: its state is the map of required pieces and the session.\<close>

interpretation fs_plan: planner
  "\<lambda>(api, v, D). lt_ok api v D"
  "\<lambda>(api, v, D) (req, l) (req', l'). keeps_wanted v l l'"
  "\<lambda>(api, v, D) (req, l) p. wanted v l p"
  "\<lambda>(api, v, D) ti idx off rem (req, l). plan_round api ti idx off rem req l"
  "\<lambda>(api, v, D) ti idx off rem (req, l). plan_loop api ti idx off rem req l"
proof (unfold_locales, goal_cases)
  case (1 c s ti idx off rem)
  obtain api v D req l where c: "c = (api, v, D)" "s = (req, l)" by (metis prod_cases3 surj_pair)
  obtain r1 l1 where r: "plan_round api ti idx off rem req l = (r1, l1)" by fastforce
  have "lt_ok api v D" "v_inv v l" using 1 by (simp_all add: c keeps_wanted_def)
  from plan_round_wanted [OF this r] show ?case by (simp add: c r)
next
  case (2 c s s1 s2)
  then show ?case by (auto split: prod.splits intro: keeps_wanted_trans)
next
  case (3 c s s1)
  then show ?case by (auto split: prod.splits simp: keeps_wanted_refl keeps_wanted_def no_loss_def)
next
  case (4 c s s1 p)
  then show ?case by (auto split: prod.splits simp: keeps_wanted_def)
next
  case (5 c ti idx off rem s)
  then show ?case by (auto split: prod.splits simp: plan_loop.simps [of _ ti idx off rem])
qed

text \<open>The planning loop ends, and leaves every piece of the range wanted.\<close>

lemma plan_loop_total:
  assumes "lt_ok api v D" "ti_ok ti" "valid_file ti idx" "0 \<le> off"
    and "off + rem \<le> ti_file_size ti idx" "v_inv v l"
  shows "\<exists>req' l'. plan_loop api ti idx off rem req l = Some (req', l') \<and> keeps_wanted v l l' \<and>
    (\<forall>p\<in>range_pieces ti idx off rem. wanted v l' p)"
  using fs_plan.loop_marks [of "(api, v, D)" ti idx off rem "(req, l)"] assms keeps_wanted_refl [OF assms(6)] by auto

lemma early_reads_after:
  "lt_ok api v D \<Longrightarrow> v_inv v l \<Longrightarrow> lt_after v l (early_reads api ps l)"
proof (induction ps arbitrary: l)
  case Nil
  then show ?case by (simp add: lt_after_refl)
next
  case (Cons p ps)
  obtain h l1 where h: "have_piece api l p = (h, l1)" by fastforce
  have a1: "lt_after v l l1" using have_piece_after(1) [OF Cons.prems h] .
  let ?l2 = "if h then read_piece api l1 p else l1"
  have a2: "lt_after v l1 ?l2"
  proof -
    have "v_inv v l1" using a1 by (simp add: lt_after_def)
    then show ?thesis using read_piece_after(1) [OF Cons.prems(1)] lt_after_refl [of v l1] by simp
  qed
  have "lt_after v ?l2 (early_reads api ps ?l2)"
    using a2 by (intro Cons.IH Cons.prems(1)) (simp add: lt_after_def)
  then have "lt_after v l (early_reads api ps ?l2)"
    using lt_after_trans [OF a1 lt_after_trans [OF a2]] by blast
  then show ?case using h by (simp add: Let_def)
qed

section \<open>The copying loop\<close>

text \<open>Waiting for a piece and reading its buffer, on the pair of session and buffer map.\<close>

definition obtain_piece :: "'l lt_api \<Rightarrow> int \<Rightarrow> 'l \<times> cache \<Rightarrow> (byte list option \<times> 'l \<times> cache) option" where
  "obtain_piece api p s =
     (case s of (l, m) \<Rightarrow>
      case wait_for_piece_download api p l m of None \<Rightarrow> None
      | Some (l1, m1) \<Rightarrow> (case fetch_piece_buffer api p l1 m1 of None \<Rightarrow> None
        | Some (l2, m2) \<Rightarrow> Some (m2 p, l2, m2)))"

lemma copy_round_step:
  "copy_round api ti idx off rem rp temp buf l m = copy_step (obtain_piece api) ti idx off rem rp temp buf (l, m)"
  by (auto simp: copy_round_def copy_step_def obtain_piece_def Let_def split: option.splits sum.splits)

definition copy_keeps :: "'l lt_view \<Rightarrow> (int \<Rightarrow> byte list) \<Rightarrow> 'l \<Rightarrow> 'l \<Rightarrow> cache \<Rightarrow> bool" where
  "copy_keeps v D l l' m' \<longleftrightarrow> lt_after v l l' \<and> cache_ok D m'"

lemma obtain_piece_total:
  assumes "lt_ok api v D" "v_inv v l" "cache_ok D m" "wanted v l p"
  shows "\<exists>l' m'. obtain_piece api p (l, m) = Some (Some (D p), l', m') \<and> copy_keeps v D l l' m'"
proof -
  obtain l1 m1 where w: "wait_for_piece_download api p l m = Some (l1, m1)" "lt_after v l l1"
      "cache_ok D m1" "v_eta v l1 p = 0"
    using wait_total [OF assms(1-3), of p] assms(4) unfolding wanted_def by blast
  then obtain l2 m2 where f: "fetch_piece_buffer api p l1 m1 = Some (l2, m2)" "lt_after v l1 l2"
      "cache_ok D m2" "m2 p = Some (D p)"
    using fetch_total [OF assms(1) _ w(3,4)] unfolding lt_after_def by blast
  show ?thesis
    using w(1) f lt_after_trans [OF w(2) f(2)] by (simp add: obtain_piece_def copy_keeps_def)
qed

interpretation fs_copy: copier
  "\<lambda>(api, v, D). lt_ok api v D"
  "\<lambda>(api, v, D) (l, m) (l', m'). copy_keeps v D l l' m'"
  "\<lambda>(api, v, D) (l, m) p. wanted v l p"
  "\<lambda>(api, v, D). D"
  "\<lambda>(api, v, D). obtain_piece api"
  "\<lambda>(api, v, D) ti idx off rem rp temp buf (l, m). copy_loop api ti idx off rem rp temp buf l m"
proof (unfold_locales, goal_cases)
  case (1 c s p)
  obtain api v D l m where c: "c = (api, v, D)" "s = (l, m)" by (metis prod_cases3 surj_pair)
  have "lt_ok api v D" "v_inv v l" "cache_ok D m" "wanted v l p"
    using 1 by (simp_all add: c copy_keeps_def lt_after_def)
  from obtain_piece_total [OF this] show ?case by (auto simp: c)
next
  case (2 c s s1 s2)
  then show ?case by (auto split: prod.splits simp: copy_keeps_def intro: lt_after_trans)
next
  case (3 c s s1)
  then show ?case by (auto split: prod.splits simp: copy_keeps_def lt_after_def no_loss_def)
next
  case (4 c s s1 p)
  then show ?case
    using after_keeps_wanted by (fastforce split: prod.splits simp: copy_keeps_def keeps_wanted_def)
next
  case (5 c ti idx off rem rp temp buf s)
  obtain api v D l m where c: "c = (api, v, D)" "s = (l, m)" by (metis prod_cases3 surj_pair)
  show ?case
    unfolding c
    by (simp add: copy_loop.simps [of api ti idx off rem] copy_round_step)
      (auto split: option.splits sum.splits)
qed

text \<open>The loop ends and fills the target from \<open>read_ptr\<close> on with the rest of the range.\<close>

lemma copy_loop_total:
  assumes "lt_ok api v (piece_data ti content)" "ti_ok ti" "content_ok ti content" "valid_file ti idx"
    and "0 \<le> off" "off + rem \<le> ti_file_size ti idx"
    and "v_inv v l" "cache_ok (piece_data ti content) m"
    and "\<forall>p\<in>range_pieces ti idx off rem. wanted v l p"
    and "length temp_buf = nat (ti_piece_length ti)" "0 \<le> rp" "rp + rem \<le> int (length buf)"
  shows "\<exists>l' m'. copy_loop api ti idx off rem rp temp_buf buf l m = Some (Inr (rp + max 0 rem,
      take (nat rp) buf @ map Some (take (nat rem) (drop (nat off) (file_data ti content idx))) @
        drop (nat (rp + max 0 rem)) buf, l', m')) \<and>
    lt_after v l l' \<and> cache_ok (piece_data ti content) m'"
  using fs_copy.loop_copies [of "(api, v, piece_data ti content)" ti content idx off rem "(l, m)" temp_buf rp buf]
    assms by (auto simp: copy_keeps_def lt_after_refl)

section \<open>Reading a file\<close>

lemma deref_tmeta_set_mutex:
  "deref_tmeta (set_mutex b st) = (case deref_tmeta st of Inl f \<Rightarrow> Inl f | Inr tm \<Rightarrow> Inr (tm\<lparr>fsmtx := b\<rparr>))"
  by (auto simp: deref_tmeta_def set_mutex_def getTMeta_def split: option.splits)

lemma deref_tmeta_frame [simp]:
  "deref_tmeta (st\<lparr>session := l\<rparr>) = deref_tmeta st"
  "deref_tmeta (st\<lparr>piece_buffer_map := m\<rparr>) = deref_tmeta st"
  by (simp_all add: deref_tmeta_def)

lemma set_mutex_fields [simp]:
  "piece_buffer_map (set_mutex b st) = piece_buffer_map st" "session (set_mutex b st) = session st"
  "fs_tables (set_mutex b st) = fs_tables st" "instance_made (set_mutex b st) = instance_made st"
  by (simp_all add: set_mutex_def)

lemma mounted_after_read:
  assumes "mounted split ti st"
  shows "mounted split ti (set_mutex False ((set_mutex True st)\<lparr>session := l, piece_buffer_map := m\<rparr>))"
    and "\<not> mutex_held (set_mutex False ((set_mutex True st)\<lparr>session := l, piece_buffer_map := m\<rparr>))"
  using assms by (auto simp: mounted_def mutex_held_def deref_tmeta_set_mutex split: sum.splits)

text \<open>The bytes a read of \<open>n\<close> bytes at offset \<open>off\<close> has to deliver.\<close>

definition requested :: "torrent_info \<Rightarrow> byte list \<Rightarrow> int \<Rightarrow> int \<Rightarrow> int \<Rightarrow> byte list" where
  "requested ti content i off n = take (nat n) (drop (nat off) (file_data ti content i))"

lemma requested_range:
  assumes "ti_ok ti" "content_ok ti content" "valid_file ti i" "0 \<le> off" "off < ti_file_size ti i" "0 \<le> n"
    and "rem = min n (ti_file_size ti i - off)"
  shows "take (nat rem) (drop (nat off) (file_data ti content i)) = requested ti content i off n"
    and "int (length (requested ti content i off n)) = rem"
    and "nat rem = length (requested ti content i off n)"
proof -
  let ?d = "drop (nat off) (file_data ti content i)"
  have ld: "int (length ?d) = ti_file_size ti i - off"
    using file_data_length [OF assms(1-3)] assms(4,5) by simp
  show "take (nat rem) ?d = requested ti content i off n"
  proof (cases "n \<le> ti_file_size ti i - off")
    case True
    then show ?thesis using assms(7) by (simp add: requested_def min_def)
  next
    case False
    then have "length ?d \<le> nat rem" "length ?d \<le> nat n" using ld assms(7) by linarith+
    then show ?thesis unfolding requested_def by (metis take_all)
  qed
  show "int (length (requested ti content i off n)) = rem"
    unfolding requested_def length_take using ld assms(6,7) by linarith
  then show "nat rem = length (requested ti content i off n)" by linarith
qed

lemma fs_read_delivers:
  assumes "mounted split ti st" "split_ok split" "paths_ok ti" "ti_ok ti" "content_ok ti content"
    and "lt_ok api v (piece_data ti content)" "v_inv v (session st)"
    and "cache_ok (piece_data ti content) (piece_buffer_map st)" "\<not> mutex_held st"
    and "get_file_index path st = Inr i" "valid_file ti i" "ti_file_size ti i \<le> INT_MAX"
    and "uint n \<le> INT_MAX" "0 \<le> sint off" "int (length buf) = uint n"
  shows "\<exists>st'. fs_read api path buf n off st = Some (Inr
      (int (length (requested ti content i (sint off) (uint n))),
       map Some (requested ti content i (sint off) (uint n)) @
         drop (length (requested ti content i (sint off) (uint n))) buf, st')) \<and>
    mounted split ti st' \<and> \<not> mutex_held st' \<and> v_inv v (session st') \<and>
    cache_ok (piece_data ti content) (piece_buffer_map st') \<and> instance_made st' = instance_made st"
proof -
  let ?F = "file_data ti content i" and ?fs = "ti_file_size ti i" and ?o = "sint off"
  let ?req = "requested ti content i ?o (uint n)"
  obtain tm where tm: "deref_tmeta st = Inr tm" "thandle tm = TorrentHandle ti"
    using assms(1) by (auto simp: mounted_def split: sum.splits)
  have unl: "\<not> fsmtx tm" using assms(9) tm by (simp add: mutex_held_def)
  have fs0: "0 \<le> ?fs" using assms(4,11) by (simp add: ti_ok_def)
  have size: "get_file_size i st = Inr ?fs"
    using mounted_ti [OF assms(1)] assms(11,12) fs0 by (simp add: get_file_size_def cast_simps)
  have lF: "int (length ?F) = ?fs" using file_data_length [OF assms(4,5,11)] .
  have "0 \<le> uint n" by simp
  then have cn: "int_cast (uint n) = uint n" using assms(13) by (intro int_cast_id) linarith+
  note start = tm assms(10) size
  show ?thesis
  proof (cases "?fs \<le> ?o")
    case True
    then have "?req = []" using lF assms(14) by (simp add: requested_def)
    then show ?thesis using start True assms(1,7,8,9) by (simp add: fs_read_def Let_def)
  next
    case False
    have co: "int_cast ?o = ?o" using False assms(12,14) by (simp add: cast_simps)
    let ?rem = "min (uint n) (?fs - ?o)"
    have rem: "?o + ?rem \<le> ?fs" "0 \<le> ?rem" using False by simp_all
    obtain req l1 where p: "plan_loop api ti i ?o ?rem {} (session st) = Some (req, l1)"
        "keeps_wanted v (session st) l1"
        "\<forall>p\<in>range_pieces ti i ?o ?rem. wanted v l1 p"
      using plan_loop_total [OF assms(6,4,11,14) rem(1) assms(7)] by blast
    let ?l2 = "early_reads api (sorted_list_of_set req) l1"
    have "v_inv v l1" using p(2) by (simp add: keeps_wanted_def)
    then have a2: "lt_after v l1 ?l2" by (rule early_reads_after [OF assms(6)])
    have "\<forall>p\<in>range_pieces ti i ?o ?rem. wanted v ?l2 p"
      using p(3) after_keeps_wanted [OF a2] by (auto simp: keeps_wanted_def)
    moreover have "v_inv v ?l2" using a2 by (simp add: lt_after_def)
    ultimately obtain l3 m3 where c: "copy_loop api ti i ?o ?rem 0
          (replicate (nat (ti_piece_length ti)) None) buf ?l2 (piece_buffer_map st) =
        Some (Inr (0 + max 0 ?rem, take (nat 0) buf @
          map Some (take (nat ?rem) (drop (nat ?o) ?F)) @ drop (nat (0 + max 0 ?rem)) buf, l3, m3))"
        and a3: "lt_after v ?l2 l3" and c3: "cache_ok (piece_data ti content) m3"
      using copy_loop_total [OF assms(6,4,5,11,14) rem(1) _ assms(8),
          of ?l2 "replicate (nat (ti_piece_length ti)) None" 0 buf] assms(15) by auto
    have "?o < ?fs" using False by simp
    note req = requested_range [OF assms(4,5,11,14) this uint_ge_0 [of n] refl]
    let ?st' = "set_mutex False ((set_mutex True st)\<lparr>session := l3, piece_buffer_map := m3\<rparr>)"
    have "fs_read api path buf n off st = Some (Inr (?rem, map Some ?req @ drop (nat ?rem) buf, ?st'))"
      using start p(1) c unl False rem(2) by (simp add: fs_read_def Let_def cn co req(1))
    then show ?thesis
      using mounted_after_read [OF assms(1), where l = l3 and m = m3] a3 c3 req(2,3) by (auto simp: lt_after_def)
  qed
qed

text \<open>
  C2: \<open>read\<close> is correct. For a file of the torrent below 2 GiB, with a session that behaves as
  documented and the mutex free, \<open>read\<close> returns, without a fault, the number of bytes between
  the offset and the end of the file, at most the requested size; it writes exactly these bytes
  of the file to the front of the buffer and leaves the rest alone; the mutex is free again and
  the state is still good for the next operation.
\<close>

theorem read_correct:
  assumes "mounted split ti st" "split_ok split" "paths_ok ti" "ti_ok ti" "content_ok ti content"
    and "lt_ok api v (piece_data ti content)" "v_inv v (session st)"
    and "cache_ok (piece_data ti content) (piece_buffer_map st)" "\<not> mutex_held st"
    and "r \<in> set (file_paths ti)" "\<forall>i. valid_file ti i \<longrightarrow> ti_file_size ti i \<le> INT_MAX"
    and "uint n \<le> INT_MAX" "0 \<le> sint off" "int (length buf) = uint n"
  shows "\<exists>i st'. valid_file ti i \<and> ti_file_path ti i = r \<and>
    fs_read api (''/'' @ r) buf n off st = Some (Inr
      (int (length (requested ti content i (sint off) (uint n))),
       map Some (requested ti content i (sint off) (uint n)) @
         drop (length (requested ti content i (sint off) (uint n))) buf, st')) \<and>
    mounted split ti st' \<and> \<not> mutex_held st' \<and> v_inv v (session st') \<and>
    cache_ok (piece_data ti content) (piece_buffer_map st')"
proof -
  obtain i where i: "get_file_index (''/'' @ r) st = Inr i" "valid_file ti i" "ti_file_path ti i = r"
    using get_file_index_found [OF assms(1,3,10)] by auto
  from assms(11) i(2) have "ti_file_size ti i \<le> INT_MAX" by blast
  from fs_read_delivers [OF assms(1-9) i(1,2) this assms(12-14)] i show ?thesis by blast
qed

text \<open>A torrent of twelve bytes in three pieces, mounted over the small session.\<close>

definition demo_content :: "byte list" where
  "demo_content = [10, 11, 12, 13, 14, 15, 16, 17, 18, 19, 20, 21]"

definition demo_api :: "sim lt_api" where
  "demo_api = sim_api (piece_data demo_ti demo_content)"

definition demo_mount :: "sim fs_state" where
  "demo_mount = mk_mounted split_slash demo_ti sim_init"

lemma demo_content_ok: "content_ok demo_ti demo_content"
  by (simp add: content_ok_def demo_content_def demo_ti_def layout_def Let_def)

lemma demo_mounted: "mounted split_slash demo_ti demo_mount" "\<not> mutex_held demo_mount"
  unfolding demo_mount_def
  by (rule mk_mounted [OF split_slash_ok])
     (simp add: mutex_held_def deref_tmeta_def getTMeta_def mk_mounted_def torrent_metadata_new_def)

lemma demo_cache: "cache_ok D (piece_buffer_map demo_mount)" "session demo_mount = sim_init"
  by (simp_all add: demo_mount_def mk_mounted_def cache_ok_def)

lemma demo_index: "get_file_index ''/a/c'' demo_mount = Inr 1" "valid_file demo_ti 1"
  "ti_file_size demo_ti 1 = 3" "ti_file_size demo_ti 1 \<le> INT_MAX"
proof -
  have "ti_num_files demo_ti = 3" "ti_file_path demo_ti 0 = ''a/b''" "ti_file_path demo_ti 1 = ''a/c''"
    by (simp_all add: demo_ti_def layout_def Let_def)
  then show "get_file_index ''/a/c'' demo_mount = Inr 1" "valid_file demo_ti 1"
    using mounted_ti [OF demo_mounted(1)]
    by (simp_all add: get_file_index_def c_str_def valid_file_def numeral_3_eq_3)
  show "ti_file_size demo_ti 1 = 3" by (simp add: demo_ti_def layout_def Let_def)
  then show "ti_file_size demo_ti 1 \<le> INT_MAX" by (simp add: INT_MAX_def)
qed

lemma demo_sizes: "\<forall>i. valid_file demo_ti i \<longrightarrow> ti_file_size demo_ti i \<le> INT_MAX"
  by (auto simp: demo_ti_def layout_def Let_def INT_MAX_def nth_Cons' split: if_splits)

theorem read_correct_witness:
  "\<exists>st'. fs_read demo_api ''/a/c'' [None, None, None, None] 4 1 demo_mount =
     Some (Inr (2, [Some 16, Some 17, None, None], st')) \<and> \<not> mutex_held st'"
proof -
  have r: "requested demo_ti demo_content 1 1 4 = [16, 17]" by code_simp
  have h: "uint (4 :: 64 word) \<le> INT_MAX" "0 \<le> sint (1 :: 64 word)"
      "int (length [None, None, None, None :: byte option]) = uint (4 :: 64 word)"
    by (simp_all add: INT_MAX_def)
  have ac: "''a/c'' \<in> set (file_paths demo_ti)" by (simp add: demo_paths)
  obtain i st' where i: "valid_file demo_ti i" "ti_file_path demo_ti i = ''a/c''"
    and f: "fs_read demo_api (''/'' @ ''a/c'') [None, None, None, None] 4 1 demo_mount = Some (Inr
      (int (length (requested demo_ti demo_content i (sint (1 :: 64 word)) (uint (4 :: 64 word)))),
       map Some (requested demo_ti demo_content i (sint (1 :: 64 word)) (uint (4 :: 64 word))) @
         drop (length (requested demo_ti demo_content i (sint (1 :: 64 word)) (uint (4 :: 64 word))))
           [None, None, None, None], st'))" and u: "\<not> mutex_held st'"
    using read_correct [OF demo_mounted(1) split_slash_ok demo_ok(2,1) demo_content_ok
      sim_ok [of "piece_data demo_ti demo_content", folded demo_api_def] sim_inv demo_cache(1)
      demo_mounted(2) ac demo_sizes h] by (elim exE conjE that)
  have "i = 1"
    using i by (auto simp: valid_file_def demo_ti_def layout_def Let_def nth_Cons' split: if_splits)
  then show ?thesis using f u by (auto simp: r)
qed

section \<open>What planning achieves, and what it does not\<close>

text \<open>
  C8: the planning loop ends, and then every piece that holds a byte of the requested range is
  complete or has a positive priority, so that libtorrent will fetch it. This includes the
  pieces whose priority the loop lowers on its way.
\<close>

theorem plan_wants_range:
  assumes "lt_ok api v D" "ti_ok ti" "valid_file ti idx" "0 \<le> off"
    and "off + rem \<le> ti_file_size ti idx" "v_inv v l"
  shows "\<exists>req' l'. plan_loop api ti idx off rem req l = Some (req', l') \<and>
    (\<forall>b. off \<le> b \<and> b < off + rem \<longrightarrow>
       0 < v_prio v l' (file_piece ti idx b) \<or> v_eta v l' (file_piece ti idx b) = 0)"
proof -
  obtain req' l' where p: "plan_loop api ti idx off rem req l = Some (req', l')"
    and w: "\<forall>p\<in>range_pieces ti idx off rem. wanted v l' p"
    using plan_loop_total [OF assms] by blast
  have "\<forall>b. off \<le> b \<and> b < off + rem \<longrightarrow>
      0 < v_prio v l' (file_piece ti idx b) \<or> v_eta v l' (file_piece ti idx b) = 0"
    using bspec [OF w range_pieces_cover [OF assms(2-5)]] by (simp add: wanted_def)
  with p show ?thesis by (intro exI conjI)
qed

theorem plan_wants_range_witness:
  "\<exists>req l. plan_loop demo_api demo_ti 0 0 5 {} sim_init = Some (req, l) \<and>
     (0 < s_prio l 1 \<or> s_eta l 1 = 0)"
proof -
  have c: "valid_file demo_ti 0" "(0::int) + 5 \<le> ti_file_size demo_ti 0" "file_piece demo_ti 0 4 = 1"
    by code_simp+
  obtain req l where p: "plan_loop demo_api demo_ti 0 0 5 {} sim_init = Some (req, l)"
    and w: "\<forall>b. 0 \<le> b \<and> b < 0 + 5 \<longrightarrow>
      0 < v_prio sim_view l (file_piece demo_ti 0 b) \<or> v_eta sim_view l (file_piece demo_ti 0 b) = 0"
    using plan_wants_range [OF sim_ok [of "piece_data demo_ti demo_content", folded demo_api_def]
        demo_ok(1) c(1) order_refl c(2) sim_inv, of "{}" sim_init] by (elim exE conjE that)
  show ?thesis using p w [rule_format, of 4] unfolding c(3) by (simp add: sim_view_def)
qed

text \<open>
  C16: the planning loop lowers a required piece. When two adjacent pieces are both missing, the
  round for the second sets the first, which was just given the highest priority, to the
  lowest. Only the very first piece of the torrent is spared: the test is \<open>piece > 1\<close> where
  \<open>piece > 0\<close> would do, so after the rounds for the pieces 0 and 1 both have priority 7.
\<close>

theorem required_piece_demoted:
  assumes "lt_ok api v D" "v_inv v l"
    and "chunk_piece ti idx off rem = p" "chunk_piece ti idx off' rem' = p + 1"
    and "\<not> fst (have_piece api l p)" "plan_round api ti idx off rem req l = (r1, l1)"
    and "\<not> fst (have_piece api l1 (p + 1))" "plan_round api ti idx off' rem' r1 l1 = (r2, l2)"
  shows "p \<in> r2 \<and> p + 1 \<in> r2 \<and> v_prio v l1 p = 7 \<and>
    v_prio v l2 p = (if p < 1 then 7 else 1) \<and> v_prio v l2 (p + 1) = 7"
proof -
  have prio: "v_inv v (raise_priorities api ti q x) \<and> v_prio v (raise_priorities api ti q x) =
      (let f = (v_prio v x)(q := 7); g = (if q > 1 then f(q - 1 := 1) else f)
       in if q < ti_num_pieces ti - 1 then g(q + 1 := 7) else g)" if "v_inv v x" for q x
    using piece_priority_after(1,2) [OF assms(1)] that by (simp add: raise_priorities_def Let_def)
  have round: "\<exists>x. lt_after v y x \<and> r' = insert (chunk_piece ti idx o1 n1) rq \<and>
      y' = raise_priorities api ti (chunk_piece ti idx o1 n1) x"
    if "v_inv v y" "\<not> fst (have_piece api y (chunk_piece ti idx o1 n1))"
      "plan_round api ti idx o1 n1 rq y = (r', y')" for o1 n1 rq y r' y'
  proof -
    obtain h x where h: "have_piece api y (chunk_piece ti idx o1 n1) = (h, x)" by fastforce
    then show ?thesis using that have_piece_after(1) [OF assms(1) that(1) h]
      by (auto simp: plan_round_def Let_def)
  qed
  obtain x1 where 1: "lt_after v l x1" "r1 = insert p req" "l1 = raise_priorities api ti p x1"
    using round [OF assms(2) _ assms(6)] assms(3,5) by auto
  then have i1: "v_inv v l1" using prio by (simp add: lt_after_def)
  then obtain x2 where 2: "lt_after v l1 x2" "r2 = insert (p + 1) r1" "l2 = raise_priorities api ti (p + 1) x2"
    using round [OF i1 _ assms(8)] assms(4,7) by auto
  show ?thesis
    using 1 2 prio [of x1 p] prio [of x2 "p + 1"] by (auto simp: lt_after_def Let_def)
qed

definition demo2_ti :: torrent_info where
  "demo2_ti = layout [(''x'', 12)] 4"

theorem required_piece_demoted_witness:
  "s_prio (snd (plan_round demo_api demo2_ti 0 8 4 {1} (snd (plan_round demo_api demo2_ti 0 4 8 {} sim_init)))) 1 = 1"
proof -
  have c: "chunk_piece demo2_ti 0 4 8 = 1" "chunk_piece demo2_ti 0 8 4 = 1 + 1"
    by code_simp+
  let ?x = "plan_round demo_api demo2_ti 0 4 8 {} sim_init"
  have r1: "?x = ({1}, snd ?x)" "s_eta (snd ?x) = s_eta sim_init"
    using c(1) by (auto simp: plan_round_def raise_priorities_def Let_def demo_api_def sim_api_def sim_init_def)
  have h: "\<not> fst (have_piece demo_api sim_init 1)" "\<not> fst (have_piece demo_api (snd ?x) (1 + 1))"
    using r1(2) by (auto simp: demo_api_def sim_api_def sim_init_def)
  let ?y = "plan_round demo_api demo2_ti 0 8 4 {1} (snd ?x)"
  have r2: "?y = (fst ?y, snd ?y)" by simp
  from required_piece_demoted [OF sim_ok [of "piece_data demo_ti demo_content", folded demo_api_def]
      sim_inv c h(1) r1(1) h(2) r2]
  show ?thesis by (simp add: sim_view_def)
qed

section \<open>Where read fails\<close>

text \<open>
  C15: a read that libtorrent reports as failed is not noticed. When the alert for a piece comes
  with an error, its buffer is empty; \<open>get_piece_buffers\<close> stores it all the same, and the copy
  of a whole piece then reads outside it.
\<close>

theorem failed_read_overruns:
  assumes "have_piece api l (chunk_piece ti idx off rem) = (True, l1)" "m (chunk_piece ti idx off rem) = None"
    and "pop_alerts api (read_piece api l1 (chunk_piece ti idx off rem)) =
      ([ReadPieceAlert (chunk_piece ti idx off rem) []], l2)"
    and "0 < ti_piece_size ti (chunk_piece ti idx off rem)"
  shows "copy_round api ti idx off rem rp temp_buf buf l m = Some (Inl OutOfBounds)"
proof -
  let ?p = "chunk_piece ti idx off rem"
  have "wait_for_piece_download api ?p l m = Some (l1, m)"
    using assms(1) by (simp add: wait_for_piece_download_def)
  moreover have "fetch_piece_buffer api ?p l1 m = Some (l2, m(?p := Some []))"
    using assms(2,3) by (simp add: fetch_piece_buffer_def buffer_loop.simps get_piece_buffers_def)
  ultimately show ?thesis
    using assms(4) by (simp add: copy_round_def Let_def memcpy_def)
qed

text \<open>A session in which every requested read fails.\<close>

definition failing_api :: "sim lt_api" where
  "failing_api = (sim_api (\<lambda>p. []))
     \<lparr>pop_alerts := (\<lambda>s. (map (\<lambda>p. ReadPieceAlert p []) (s_queue s), s\<lparr>s_queue := []\<rparr>))\<rparr>"

theorem failed_read_overruns_witness:
  "copy_round failing_api demo_ti 0 0 4 0 (replicate 4 None) (replicate 4 None) sim_init (\<lambda>_. None) =
     Some (Inl OutOfBounds)"
proof -
  have p: "chunk_piece demo_ti 0 0 4 = 0" "0 < ti_piece_size demo_ti 0" by code_simp+
  show ?thesis
  proof (rule failed_read_overruns [where ?l1.0 = sim_init and ?l2.0 = sim_init], unfold p(1))
    show "have_piece failing_api sim_init 0 = (True, sim_init)"
      by (simp add: failing_api_def sim_api_def sim_init_def)
    show "pop_alerts failing_api (read_piece failing_api sim_init 0) = ([ReadPieceAlert 0 []], sim_init)"
      by (simp add: failing_api_def sim_api_def sim_init_def)
  qed (simp_all add: p(2))
qed

text \<open>
  C17: \<open>read\<close> compares with the low 32 bits of a file's size. When these are negative, as for a file of
  2 GiB or more and below 4 GiB, it returns 0 bytes at every offset, as at the end of the file;
  when they are not, a larger file seems to end after them: a file of 5 GiB reads as empty from
  1 GiB on.
\<close>

theorem read_large_file_empty:
  assumes "mounted split ti st" "get_file_index path st = Inr i" "valid_file ti i" "0 \<le> sint off"
    and "INT_MAX < ti_file_size ti i mod 2 ^ 32 \<or> ti_file_size ti i mod 2 ^ 32 \<le> sint off"
  shows "fs_read api path buf n off st = Some (Inr (0, buf, st))"
proof -
  obtain tm where tm: "deref_tmeta st = Inr tm" "thandle tm = TorrentHandle ti"
    using assms(1) by (auto simp: mounted_def split: sum.splits)
  have size: "get_file_size i st = Inr (int_cast (ti_file_size ti i))"
    using mounted_ti [OF assms(1)] assms(3) by (simp add: get_file_size_def)
  have "int_cast (ti_file_size ti i) \<le> sint off"
    using assms(4,5) int_cast_low [of "ti_file_size ti i"] by (auto simp: INT_MAX_def split: if_splits)
  then show ?thesis using tm assms(2) size by (simp add: fs_read_def Let_def)
qed

definition big_ti :: torrent_info where
  "big_ti = layout [(''big'', 3000000000)] 1048576"

lemma big_index: "get_file_index ''/big'' (mk_mounted split_slash big_ti s) = Inr 0"
proof -
  have "ti_num_files big_ti = 1" "ti_file_path big_ti 0 = ''big''"
    by (simp_all add: big_ti_def layout_def Let_def)
  then show ?thesis
    using mounted_ti [OF mk_mounted [OF split_slash_ok, of big_ti s]]
    by (simp add: get_file_index_def c_str_def)
qed

theorem read_large_file_empty_witness:
  "fs_read demo_api ''/big'' [None, None] 2 0 (mk_mounted split_slash big_ti sim_init) =
     Some (Inr (0, [None, None], mk_mounted split_slash big_ti sim_init))"
  by (rule read_large_file_empty [OF mk_mounted [OF split_slash_ok] big_index])
     (simp_all add: big_ti_def layout_def Let_def valid_file_def INT_MAX_def)

text \<open>
  C18: \<open>read\<close> does not check the index it looks up: for a path that is no file of the torrent
  it asks libtorrent for the size of file \<open>-1\<close>.
\<close>

theorem read_unknown_path_faults:
  assumes "mounted split ti st" "paths_ok ti" "\<not> (\<exists>i. valid_file ti i \<and> ti_file_path ti i = r)"
  shows "fs_read api (''/'' @ r) buf n off st = Some (Inl BadFileIndex)"
proof -
  obtain tm where tm: "deref_tmeta st = Inr tm" "thandle tm = TorrentHandle ti"
    using assms(1) by (auto simp: mounted_def split: sum.splits)
  have "get_file_index (''/'' @ r) st = Inr (- 1)"
    using get_file_index_missing [OF assms(1,2), of r] assms(3) set_file_paths [of r ti] by auto
  moreover have "get_file_size (- 1) st = Inl BadFileIndex"
    using mounted_ti [OF assms(1)] by (simp add: get_file_size_def valid_file_def)
  ultimately show ?thesis using tm by (simp add: fs_read_def)
qed

theorem read_unknown_path_faults_witness:
  "fs_read demo_api ''/nope'' [] 0 0 demo_mount = Some (Inl BadFileIndex)"
proof -
  have "\<not> (\<exists>i. valid_file demo_ti i \<and> ti_file_path demo_ti i = ''nope'')"
    unfolding set_file_paths [symmetric] by (simp add: demo_paths)
  from read_unknown_path_faults [OF demo_mounted(1) demo_ok(2) this] show ?thesis by simp
qed

end
