(* ===== verification/FS_Init.thy ===== *)
theory FS_Init
  imports FS_Read
begin

text \<open>
  \<open>FS::init_bitfs\<close>, which FUSE calls once when the file system is mounted: it configures the
  session, loads the torrent, fills the directory tables and sets the first priorities.
\<close>

section \<open>What the initialisation calls\<close>

text \<open>
  Boost and libtorrent as \<open>init_bitfs\<close> uses them: \<open>unique_path\<close>, \<open>split\<close>, the constructor of
  \<open>torrent_info\<close> from a file (with its error code), the session constructor and
  \<open>add_torrent\<close> (a handle and an error code).
\<close>

record 'l init_env =
  env_unique_path :: "string \<Rightarrow> string"
  env_split :: "string \<Rightarrow> string list"
  env_load_torrent :: "string \<Rightarrow> torrent_info \<times> error_code"
  env_new_session :: "settings_pack \<Rightarrow> 'l"
  env_add_torrent :: "add_torrent_params \<Rightarrow> 'l \<Rightarrow> torrent_handle \<times> error_code \<times> 'l"

section \<open>The steps\<close>

definition set_str :: "string \<Rightarrow> string \<Rightarrow> settings_pack \<Rightarrow> settings_pack" where
  "set_str k x s = s(k := Some (SetStr x))"

definition set_int :: "string \<Rightarrow> int \<Rightarrow> settings_pack \<Rightarrow> settings_pack" where
  "set_int k x s = s(k := Some (SetInt x))"

definition set_enum :: "string \<Rightarrow> string list \<Rightarrow> settings_pack \<Rightarrow> settings_pack" where
  "set_enum k x s = s(k := Some (SetEnum x))"

definition set_bool :: "string \<Rightarrow> bool \<Rightarrow> settings_pack \<Rightarrow> settings_pack" where
  "set_bool k x s = s(k := Some (SetBool x))"

definition fs_settings :: "settings_pack \<Rightarrow> settings_pack" where
  "fs_settings s0 =
     (let s1 = set_str ''listen_interfaces'' ''0.0.0.0:6881'' s0;
          s2 = set_bool ''strict_end_game_mode'' False s1;
          s3 = set_enum ''alert_mask'' [''progress_notification'', ''peer_log_notification''] s2;
          s4 = set_bool ''enable_dht'' False s3;
          s5 = set_bool ''smooth_connects'' False s4;
          s6 = set_int ''connection_speed'' 10000 s5;
          s7 = set_enum ''choking_algorithm'' [''fixed_slots_choker''] s6;
          s8 = set_int ''unchoke_slots_limit'' 1000 s7;
          s9 = set_int ''optimistic_unchoke_interval'' 1 s8;
          s10 = set_int ''num_optimistic_unchoke_slots'' 20 s9;
          s11 = set_int ''auto_manage_interval'' 1 s10;
          s12 = set_int ''min_reconnect_time'' 2 s11
      in s12)"

text \<open>\<open>for (int i = 10; i < num_pieces; i++) piece_priority(i, 0)\<close>, from \<open>i\<close> with \<open>n\<close> rounds left.\<close>

fun zero_priorities :: "'l lt_api \<Rightarrow> int \<Rightarrow> nat \<Rightarrow> 'l \<Rightarrow> 'l" where
  "zero_priorities api i 0 l = l"
| "zero_priorities api i (Suc n) l = zero_priorities api (i + 1) n (piece_priority api l i 0)"

definition put_meta :: "settings_pack option \<Rightarrow> torrent_metadata \<Rightarrow> 'l fs_state \<Rightarrow> 'l fs_state" where
  "put_meta s tm st = st\<lparr>fsmeta := Some (setTMeta (Some tm) (setSession s bitfs_metadata_new))\<rparr>"

text \<open>
  The function returns \<open>NULL\<close> on every path, so only the state says how far it got. The objects
  are written through pointers to them; a fault can only come from the table loop.
\<close>

definition init_bitfs :: "'l init_env \<Rightarrow> 'l lt_api \<Rightarrow> string \<Rightarrow> 'l fs_state \<Rightarrow> fault + 'l fs_state" where
  "init_bitfs env api torrent_path st =
     (let tm0 = torrent_metadata_new (env_unique_path env) torrent_path;
          tm1 = tm0\<lparr>sett := fs_settings (sett tm0)\<rparr>;
          sess0 = Some (sett tm1);
          l0 = env_new_session env (sett tm1);
          (ti, ec1) = env_load_torrent env torrent_path;
          tm2 = tm1\<lparr>params := (params tm1)\<lparr>par_save_path := disk_cache_path tm1, par_ti := Some ti\<rparr>, ec := ec1\<rparr>
      in
      if ec tm2 \<noteq> 0 then Inr (put_meta sess0 tm2 (st\<lparr>session := l0\<rparr>))
      else
       (let (h, ec2, l1) = env_add_torrent env (params tm2) l0;
            tm3 = tm2\<lparr>thandle := h, ec := ec2\<rparr>
        in
        if ec tm3 \<noteq> 0 then Inr (put_meta sess0 tm3 (st\<lparr>session := l1\<rparr>))
        else
         (case fill_tables (env_split env) (file_paths ti) (fs_tables st) of Inl f \<Rightarrow> Inl f
          | Inr t \<Rightarrow>
              Inr (put_meta sess0 tm3
                (st\<lparr>fs_tables := t, session := zero_priorities api 10 (nat (ti_num_pieces ti - 10)) l1\<rparr>)))))"

text \<open>The globals as the program starts: empty containers and no object.\<close>

definition fresh :: "'l fs_state \<Rightarrow> bool" where
  "fresh st \<longleftrightarrow> fsmeta st = None \<and> fs_tables st = empty_tables \<and> piece_buffer_map st = (\<lambda>_. None)"

lemma zero_priorities_prio:
  assumes "lt_ok api v D"
  shows "v_inv v l \<Longrightarrow> v_inv v (zero_priorities api i n l) \<and>
    v_prio v (zero_priorities api i n l) = (\<lambda>p. if i \<le> p \<and> p < i + int n then 0 else v_prio v l p)"
proof (induction n arbitrary: i l)
  case 0
  then show ?case by (simp add: fun_eq_iff)
next
  case (Suc n)
  note pp = piece_priority_after [OF assms Suc.prems]
  show ?case using Suc.IH [OF pp(1) [of i 0], of "i + 1"] pp(2) [of i 0] by (auto simp: fun_eq_iff)
qed

text \<open>What \<open>init_bitfs\<close> hands to \<open>add_torrent\<close>.\<close>

definition init_params :: "'l init_env \<Rightarrow> torrent_info \<Rightarrow> add_torrent_params" where
  "init_params env ti = empty_params
     \<lparr>par_save_path := env_unique_path env ''/tmp/%%%%-%%%%-%%%%-%%%%'', par_ti := Some ti\<rparr>"

definition init_session :: "'l init_env \<Rightarrow> 'l" where
  "init_session env = env_new_session env (fs_settings (\<lambda>_. None))"

lemmas init_unfold = init_bitfs_def Let_def init_params_def init_session_def put_meta_def
  setTMeta_def setSession_def torrent_metadata_new_def

lemma init_bitfs_mounted:
  assumes "fresh st" "split_ok (env_split env)" "lt_ok api v D"
    and "env_load_torrent env path = (ti, 0)"
    and "env_add_torrent env (init_params env ti) (init_session env) = (TorrentHandle ti, 0, l1)"
    and "v_inv v l1"
  shows "\<exists>st'. init_bitfs env api path st = Inr st' \<and> mounted (env_split env) ti st' \<and>
    \<not> mutex_held st' \<and> piece_buffer_map st' = (\<lambda>_. None) \<and> v_inv v (session st') \<and>
    v_prio v (session st') = (\<lambda>p. if 10 \<le> p \<and> p < ti_num_pieces ti then 0 else v_prio v l1 p)"
proof -
  let ?l = "zero_priorities api 10 (nat (ti_num_pieces ti - 10)) l1"
  obtain t where t: "fill_tables (env_split env) (file_paths ti) empty_tables = Inr t"
    using fill_tables_index [OF assms(2)] by blast
  have l: "v_inv v ?l" "v_prio v ?l = (\<lambda>p. if 10 \<le> p \<and> p < ti_num_pieces ti then 0 else v_prio v l1 p)"
    using zero_priorities_prio [OF assms(3,6), of 10 "nat (ti_num_pieces ti - 10)"] by (auto simp: fun_eq_iff)
  show ?thesis
    using assms(1,4,5) t l
    by (simp add: init_unfold fresh_def mounted_def mutex_held_def deref_tmeta_def getTMeta_def)
qed

text \<open>
  C7: after a successful \<open>init_bitfs\<close> the torrent is mounted: metadata and handle refer to it,
  the tables are those of its paths, the mutex is free and no piece is buffered. Every piece
  from the eleventh on has priority 0, and the first ten keep the priority they had.
\<close>

theorem init_mounts:
  assumes "fresh st" "split_ok (env_split env)" "lt_ok api v D"
    and "env_load_torrent env path = (ti, 0)"
    and "env_add_torrent env (init_params env ti) (init_session env) = (TorrentHandle ti, 0, l1)"
    and "v_inv v l1"
  shows "\<exists>st'. init_bitfs env api path st = Inr st' \<and> mounted (env_split env) ti st' \<and>
    \<not> mutex_held st' \<and> piece_buffer_map st' = (\<lambda>_. None) \<and> v_inv v (session st') \<and>
    v_prio v (session st') = (\<lambda>p. if 10 \<le> p \<and> p < ti_num_pieces ti then 0 else v_prio v l1 p)"
  using assms by (rule init_bitfs_mounted)

text \<open>
  C19: when loading or adding the torrent fails, \<open>init_bitfs\<close> still returns normally, and then
  nothing exists: \<open>getattr\<close>, \<open>open\<close> and \<open>readdir\<close> answer \<open>-ENOENT\<close> for every path, the root
  directory included. \<open>read\<close> does not answer: when the torrent was not loaded, or adding it gave
  no valid handle, it uses the invalid handle, a fault.
\<close>

theorem init_failure_leaves_nothing:
  assumes "fresh st"
    and "snd (env_load_torrent env path) \<noteq> 0 \<or> fst (snd (env_add_torrent env
      (init_params env (fst (env_load_torrent env path))) (init_session env))) \<noteq> 0"
  shows "\<exists>st'. init_bitfs env api path st = Inr st' \<and>
    getattr q st' = Inr (- ENOENT, zero_stat) \<and> fs_open q st' = - ENOENT \<and>
    readdir filler q buf st' = (- ENOENT, buf, st') \<and>
    (snd (env_load_torrent env path) \<noteq> 0 \<or> fst (env_add_torrent env
        (init_params env (fst (env_load_torrent env path))) (init_session env)) = InvalidHandle \<longrightarrow>
      fs_read api q data n off st' = Some (Inl BadHandle))"
proof -
  obtain ti ec1 where ld: "env_load_torrent env path = (ti, ec1)" by fastforce
  obtain h ec2 l1 where ad: "env_add_torrent env (init_params env ti) (init_session env) = (h, ec2, l1)"
    by (metis prod_cases3)
  have tables: "fs_tables st' = empty_tables \<Longrightarrow> getattr q st' = Inr (- ENOENT, zero_stat) \<and>
      fs_open q st' = - ENOENT \<and> readdir filler q buf st' = (- ENOENT, buf, st')" for st' :: "'a fs_state"
    by (simp add: getattr_def fs_open_def readdir_def has_dir_def has_file_def empty_tables_def)
  have read: "deref_tmeta st' = Inr tm \<Longrightarrow> thandle tm = InvalidHandle \<Longrightarrow> fs_read api q data n off st' = Some (Inl BadHandle)"
    for st' :: "'a fs_state" and tm
    by (simp add: fs_read_def)
  have "\<exists>st' tm. init_bitfs env api path st = Inr st' \<and> fs_tables st' = empty_tables \<and>
      deref_tmeta st' = Inr tm \<and> (ec1 \<noteq> 0 \<or> h = InvalidHandle \<longrightarrow> thandle tm = InvalidHandle)"
    using assms ld ad by (auto simp: init_unfold fresh_def deref_tmeta_def getTMeta_def)
  then show ?thesis using tables read ld ad by (metis fst_conv snd_conv)
qed

definition demo_env :: "sim init_env" where
  "demo_env = \<lparr>env_unique_path = (\<lambda>s. ''/tmp/a''), env_split = split_slash,
     env_load_torrent = (\<lambda>p. if p = ''ok.torrent'' then (demo_ti, 0) else (demo_ti, 2)),
     env_new_session = (\<lambda>s. sim_init), env_add_torrent = (\<lambda>p l. (TorrentHandle demo_ti, 0, l))\<rparr>"

definition demo_fresh :: "sim fs_state" where
  "demo_fresh = \<lparr>instance_made = True, fsmeta = None, fs_tables = empty_tables,
     piece_buffer_map = (\<lambda>_. None), session = sim_init\<rparr>"

lemma demo_fresh: "fresh demo_fresh"
  by (simp add: fresh_def demo_fresh_def)

theorem init_mounts_witness:
  "\<exists>st'. init_bitfs demo_env demo_api ''ok.torrent'' demo_fresh = Inr st' \<and> mounted split_slash demo_ti st'"
proof -
  have e: "split_ok (env_split demo_env)" "env_load_torrent demo_env ''ok.torrent'' = (demo_ti, 0)"
      "env_add_torrent demo_env (init_params demo_env demo_ti) (init_session demo_env) = (TorrentHandle demo_ti, 0, sim_init)"
    by (simp_all add: demo_env_def split_slash_ok init_session_def)
  from init_mounts [OF demo_fresh e(1) sim_ok [of "piece_data demo_ti demo_content", folded demo_api_def]
      e(2,3) sim_inv]
  show ?thesis by (auto simp: demo_env_def)
qed

theorem init_failure_leaves_nothing_witness:
  "\<exists>st'. init_bitfs demo_env demo_api ''bad.torrent'' demo_fresh = Inr st' \<and>
     getattr ''/'' st' = Inr (- ENOENT, zero_stat) \<and> fs_read demo_api ''/'' [] 0 0 st' = Some (Inl BadHandle)"
proof -
  have bad: "snd (env_load_torrent demo_env ''bad.torrent'') \<noteq> 0" by (simp add: demo_env_def)
  from init_failure_leaves_nothing [OF demo_fresh disjI1 [OF bad],
      where q = "''/''" and api = demo_api and buf = "()" and filler = "\<lambda>b s. b" and data = "[]" and n = 0 and off = 0]
  show ?thesis using bad by blast
qed

end
