(* ===== verification/FS_Spec.thy ===== *)
theory FS_Spec
  imports FS_Ops "HOL-Library.Sublist"
begin

text \<open>
  What the file system promises, without the program: a torrent is a list of files, each a path
  and its bytes, and every request has one answer that is computed from this list alone. The
  definitions of the first section use no table, no lookup and no operation of the program; the
  second section shows that the tables of a mounted torrent hold the same directories and names.
\<close>

section \<open>The abstract file system\<close>

text \<open>
  The requests FUSE passes on after initialisation, and their answers: the return value with
  the attributes, names or bytes it comes with.
\<close>

datatype request =
    ReqGetattr string
  | ReqOpen string
  | ReqReaddir string
  | ReqRead string mem "64 word" "64 word"

datatype answer =
    AnsAttr int stat_buf
  | AnsStatus int
  | AnsNames int "string list"
  | AnsData int mem

type_synonym file_list = "(string \<times> byte list) list"

text \<open>The file a path names: the first with this path.\<close>

definition spec_file :: "file_list \<Rightarrow> string \<Rightarrow> byte list option" where
  "spec_file files p = (case p of [] \<Rightarrow> None | c # q \<Rightarrow> if c = CHR ''/'' then map_of files q else None)"

text \<open>A path names a directory when some file's path goes through it; the root does this for every file.\<close>

definition below :: "string \<Rightarrow> string" where
  "below p = (if p = ''/'' then p else p @ ''/'')"

definition spec_dir :: "file_list \<Rightarrow> string \<Rightarrow> bool" where
  "spec_dir files p \<longleftrightarrow> (\<exists>(q, bs)\<in>set files. prefix (below p) (CHR ''/'' # q))"

text \<open>Its names are what follows in these paths, up to the next slash, sorted and without duplicates.\<close>

definition spec_names :: "file_list \<Rightarrow> string \<Rightarrow> string list" where
  "spec_names files p = sort (remdups
     (map (\<lambda>(q, bs). takeWhile (\<lambda>c. c \<noteq> CHR ''/'') (drop (length (below p)) (CHR ''/'' # q)))
       (filter (\<lambda>(q, bs). prefix (below p) (CHR ''/'' # q)) files)))"

text \<open>
  The answers. A directory has mode 040755 (octal), two links and no size; a file has mode 0100444,
  one link and the number of its bytes; anything else is error 2, \<open>ENOENT\<close>. A read gives the bytes
  from the offset on, as many as asked for and there are, and leaves the rest of the buffer.
\<close>

fun spec_answer :: "file_list \<Rightarrow> request \<Rightarrow> answer" where
  "spec_answer files (ReqGetattr p) =
     (if spec_dir files p then AnsAttr 0 \<lparr>st_mode = 0x41ED, st_nlink = 2, st_size = 0\<rparr>
      else case spec_file files p of
          Some bs \<Rightarrow> AnsAttr 0 \<lparr>st_mode = 0x8124, st_nlink = 1, st_size = int (length bs)\<rparr>
        | None \<Rightarrow> AnsAttr (- 2) \<lparr>st_mode = 0, st_nlink = 0, st_size = 0\<rparr>)"
| "spec_answer files (ReqOpen p) = AnsStatus (if spec_file files p = None then - 2 else 0)"
| "spec_answer files (ReqReaddir p) =
     (if spec_dir files p then AnsNames 0 (spec_names files p) else AnsNames (- 2) [])"
| "spec_answer files (ReqRead p buf n off) =
     (case spec_file files p of
        None \<Rightarrow> AnsStatus (- 2)
      | Some bs \<Rightarrow> let r = take (nat (uint n)) (drop (nat (sint off)) bs)
          in AnsData (int (length r)) (map Some r @ drop (length r) buf))"

text \<open>
  The requests the promise is about: attributes and reads only when all files are below 2 GiB; reads
  only of files, with an offset that is not negative and a buffer of the requested size.
\<close>

definition request_ok :: "file_list \<Rightarrow> request \<Rightarrow> bool" where
  "request_ok files r =
     (case r of
        ReqGetattr p \<Rightarrow> (\<forall>(q, bs)\<in>set files. int (length bs) \<le> INT_MAX)
      | ReqRead p buf n off \<Rightarrow>
          (\<forall>(q, bs)\<in>set files. int (length bs) \<le> INT_MAX) \<and> spec_file files p \<noteq> None \<and>
          uint n \<le> INT_MAX \<and> 0 \<le> sint off \<and> int (length buf) = uint n
      | _ \<Rightarrow> True)"

text \<open>The files of a torrent with a given content.\<close>

definition files_of :: "torrent_info \<Rightarrow> byte list \<Rightarrow> file_list" where
  "files_of ti content = map (\<lambda>i. (ti_file_path ti (int i), file_data ti content (int i))) [0..<nat (ti_num_files ti)]"

section \<open>Directories and names as prefixes\<close>

lemma files_of_paths: "fst ` set (files_of ti content) = set (file_paths ti)"
  by (simp add: files_of_def file_paths_def image_image)

lemma ex_file: "(\<exists>q\<in>set (file_paths ti). P q) \<longleftrightarrow> (\<exists>(q, bs)\<in>set (files_of ti content). P q)"
proof -
  have "(\<exists>q\<in>set (file_paths ti). P q) \<longleftrightarrow> (\<exists>x\<in>set (files_of ti content). P (fst x))"
    unfolding files_of_paths [symmetric, of ti content] by blast
  then show ?thesis by (simp add: split_def)
qed

lemma join_slash_drop:
  assumes "k < length cs"
  shows "CHR ''/'' # join_slash cs = dirpath (take k cs) @ join_slash (drop k cs)"
  using assms
proof (induction cs arbitrary: k rule: join_slash.induct)
  case (3 x y ys)
  show ?case
  proof (cases k)
    case (Suc j)
    then show ?thesis using "3.IH" [of j] "3.prems" by (simp add: dirpath_def)
  qed simp
qed simp_all

lemma join_slash_first:
  "cs \<noteq> [] \<Longrightarrow> \<forall>c\<in>set cs. slash_free c \<Longrightarrow> takeWhile (\<lambda>c. c \<noteq> CHR ''/'') (join_slash cs) = hd cs"
proof (induction cs rule: join_slash.induct)
  case (2 x)
  then show ?case by (simp add: slash_free_def takeWhile_eq_all_conv) auto
next
  case (3 x y ys)
  then have "\<forall>c\<in>set x. c \<noteq> CHR ''/''" by (auto simp: slash_free_def)
  then show ?case by (simp add: takeWhile_append2)
qed simp

lemma slash_in_join:
  "\<forall>c\<in>set cs. slash_free c \<Longrightarrow> join_slash cs = x @ CHR ''/'' # y \<Longrightarrow>
   \<exists>k. 0 < k \<and> k < length cs \<and> x @ ''/'' = concat (map (\<lambda>c. c @ ''/'') (take k cs))"
proof (induction cs arbitrary: x rule: join_slash.induct)
  case 1
  then show ?case by simp
next
  case (2 c)
  then show ?case by (simp add: slash_free_def)
next
  case (3 c d cs)
  have c: "CHR ''/'' \<notin> set c" using "3.prems"(1) by (simp add: slash_free_def)
  have eq: "c @ CHR ''/'' # join_slash (d # cs) = x @ CHR ''/'' # y" using "3.prems"(2) by simp
  then obtain us where "c = x @ us \<and> us @ CHR ''/'' # join_slash (d # cs) = CHR ''/'' # y \<or>
      c @ us = x \<and> CHR ''/'' # join_slash (d # cs) = us @ CHR ''/'' # y"
    by (auto simp: append_eq_append_conv2)
  then consider "x = c" | us' where "x = c @ CHR ''/'' # us'" "join_slash (d # cs) = us' @ CHR ''/'' # y"
    using c by (cases us) auto
  then show ?case
  proof cases
    case 1
    then show ?thesis by (intro exI [of _ 1]) simp
  next
    case 2
    obtain k where k: "0 < k" "k < length (d # cs)" "us' @ ''/'' = concat (map (\<lambda>c. c @ ''/'') (take k (d # cs)))"
      using "3.IH" [OF _ 2(2)] "3.prems"(1) by auto
    then show ?thesis using 2(1) by (intro exI [of _ "Suc k"]) simp
  qed
qed

text \<open>The directories above a file are the prefixes of its path that end with a slash.\<close>

lemma dirpath_prefix:
  assumes "cs \<noteq> []" "\<forall>c\<in>set cs. slash_free c"
  shows "(\<exists>k<length cs. u @ ''/'' = dirpath (take k cs)) \<longleftrightarrow> prefix (u @ ''/'') (CHR ''/'' # join_slash cs)"
proof
  assume "\<exists>k<length cs. u @ ''/'' = dirpath (take k cs)"
  then show "prefix (u @ ''/'') (CHR ''/'' # join_slash cs)" using join_slash_drop by (metis prefixI)
next
  assume "prefix (u @ ''/'') (CHR ''/'' # join_slash cs)"
  then obtain y where y: "CHR ''/'' # join_slash cs = u @ CHR ''/'' # y" by (auto simp: prefix_def)
  show "\<exists>k<length cs. u @ ''/'' = dirpath (take k cs)"
  proof (cases u)
    case Nil
    then show ?thesis using assms(1) by (intro exI [of _ 0]) simp
  next
    case (Cons c x)
    then have "join_slash cs = x @ CHR ''/'' # y" "c = CHR ''/''" using y by simp_all
    then show ?thesis using slash_in_join [OF assms(2)] Cons by (fastforce simp: dirpath_def)
  qed
qed

lemma dirpath_name:
  assumes "k < length cs" "\<forall>c\<in>set cs. slash_free c" "d = dirpath (take k cs)"
  shows "takeWhile (\<lambda>c. c \<noteq> CHR ''/'') (drop (length d) (CHR ''/'' # join_slash cs)) = cs ! k"
proof -
  have "takeWhile (\<lambda>c. c \<noteq> CHR ''/'') (join_slash (drop k cs)) = cs ! k"
    using join_slash_first [of "drop k cs"] assms(1,2) by (auto simp: hd_drop_conv_nth dest: in_set_dropD)
  then show ?thesis unfolding join_slash_drop [OF assms(1)] assms(3) by simp
qed

lemma below_table_path: "table_path p = below p"
  by (simp add: table_path_def below_def)

lemma below_end: "\<exists>u. below p = u @ ''/''"
  using table_path_end below_table_path by metis

text \<open>The tables of a mounted torrent.\<close>

lemma mounted_spec_dir:
  assumes "mounted split ti st" "split_ok split"
  shows "has_dir (fs_tables st) (table_path p) \<longleftrightarrow> spec_dir (files_of ti content) p"
proof -
  obtain u where u: "below p = u @ ''/''" using below_end by blast
  have "(\<exists>k<length (split q). below p = dirpath (take k (split q))) \<longleftrightarrow> prefix (below p) (CHR ''/'' # q)" for q
    unfolding u using dirpath_prefix [of "split q" u] assms(2) by (simp add: split_ok_def)
  then have "has_dir (fs_tables st) (table_path p) \<longleftrightarrow> (\<exists>q\<in>set (file_paths ti). prefix (below p) (CHR ''/'' # q))"
    unfolding mounted_tables [OF assms] has_dir_filled [OF assms(2)] below_table_path by simp
  then show ?thesis unfolding spec_dir_def ex_file [of ti _ content] .
qed

lemma mounted_spec_names:
  assumes "mounted split ti st" "split_ok split"
  shows "sorted_list_of_set (children (fs_tables st) (table_path p)) = spec_names (files_of ti content) p"
proof -
  let ?nm = "\<lambda>q. takeWhile (\<lambda>c. c \<noteq> CHR ''/'') (drop (length (below p)) (CHR ''/'' # q))"
  obtain u where u: "below p = u @ ''/''" using below_end by blast
  have ok: "split q \<noteq> []" "\<forall>c\<in>set (split q). slash_free c" "join_slash (split q) = q" for q
    using assms(2) by (simp_all add: split_ok_def)
  have "(\<exists>k<length (split q). below p = dirpath (take k (split q)) \<and> c = split q ! k) \<longleftrightarrow>
      prefix (below p) (CHR ''/'' # q) \<and> c = ?nm q" for q c
    using dirpath_prefix [OF ok(1,2), of q u] dirpath_name [OF _ ok(2), of _ q "below p"]
    unfolding ok(3) u [symmetric] by metis
  then have "c \<in> children (fs_tables st) (table_path p) \<longleftrightarrow>
      (\<exists>q\<in>set (file_paths ti). prefix (below p) (CHR ''/'' # q) \<and> c = ?nm q)" for c
    unfolding mounted_tables [OF assms] children_filled [OF assms(2)] below_table_path by simp
  then have "c \<in> children (fs_tables st) (table_path p) \<longleftrightarrow>
      c \<in> (\<lambda>x. ?nm (fst x)) ` {x\<in>set (files_of ti content). prefix (below p) (CHR ''/'' # fst x)}" for c
    unfolding ex_file [of ti _ content] split_def by blast
  then have "children (fs_tables st) (table_path p) =
      set (map (\<lambda>(q, bs). ?nm q) (filter (\<lambda>(q, bs). prefix (below p) (CHR ''/'' # q)) (files_of ti content)))"
    unfolding set_map set_filter split_def by (intro set_eqI)
  then show ?thesis
    by (simp only: spec_names_def sorted_list_of_set_sort_remdups)
qed

text \<open>The index lookup finds the first file of a path.\<close>

lemma index_loop_map_of:
  assumes "\<And>k. i \<le> k \<Longrightarrow> k < i + n \<Longrightarrow> c_str (ti_file_path ti (int k)) = ti_file_path ti (int k)"
    and "map_of (map (\<lambda>k. (ti_file_path ti (int k), d (int k))) [i..<i + n]) name = Some x"
  shows "x = d (index_loop ti name (int i) n)"
  using assms
proof (induction n arbitrary: i)
  case 0
  then show ?case by simp
next
  case (Suc n)
  have up: "[i..<i + Suc n] = i # [Suc i..<Suc i + n]" by (simp add: upt_conv_Cons)
  show ?case
  proof (cases "name = ti_file_path ti (int i)")
    case True
    then show ?thesis using Suc.prems(2) Suc.prems(1) [of i] unfolding up by simp
  next
    case False
    then show ?thesis
      using Suc.IH [of "Suc i"] Suc.prems(1) Suc.prems(1) [of i] Suc.prems(2) unfolding up by (simp add: add.commute)
  qed
qed

lemma mounted_spec_file:
  assumes "mounted split ti st" "paths_ok ti"
  shows "spec_file (files_of ti content) p \<noteq> None \<longleftrightarrow> p \<in> (\<lambda>q. ''/'' @ q) ` set (file_paths ti)"
    and "spec_file (files_of ti content) p = Some bs \<Longrightarrow>
      \<exists>i. get_file_index p st = Inr i \<and> valid_file ti i \<and> bs = file_data ti content i"
proof -
  have m: "map_of (files_of ti content) q = None \<longleftrightarrow> q \<notin> set (file_paths ti)" for q
    unfolding files_of_paths [symmetric, of ti content] by (rule map_of_eq_None_iff)
  show "spec_file (files_of ti content) p \<noteq> None \<longleftrightarrow> p \<in> (\<lambda>q. ''/'' @ q) ` set (file_paths ti)"
  proof (cases p)
    case Nil
    then show ?thesis by (auto simp: spec_file_def)
  next
    case (Cons c q)
    then show ?thesis using m [of q] by (auto simp: spec_file_def image_iff simp del: not_None_eq)
  qed
  assume "spec_file (files_of ti content) p = Some bs"
  then obtain q where q: "p = CHR ''/'' # q" "map_of (files_of ti content) q = Some bs"
    by (auto simp: spec_file_def split: list.splits if_splits)
  then have mem: "q \<in> set (file_paths ti)"
    unfolding files_of_paths [symmetric, of ti content] by (metis map_of_SomeD fst_conv image_eqI)
  then obtain i where i: "get_file_index p st = Inr i" "valid_file ti i"
    using get_file_index_found [OF assms mem] q(1) by blast
  then have n: "0 < ti_num_files ti" by (auto simp: valid_file_def)
  have "c_str (ti_file_path ti (int k)) = ti_file_path ti (int k)" if "k < 0 + nat (ti_num_files ti)" for k
    using that paths_ok_c_str [OF assms(2), of "int k"] by (simp add: valid_file_def)
  moreover have "map_of (map (\<lambda>k. (ti_file_path ti (int k), file_data ti content (int k)))
      [0..<0 + nat (ti_num_files ti)]) q = Some bs"
    using q(2) by (simp only: files_of_def add_0)
  ultimately have "bs = file_data ti content (index_loop ti q (int 0) (nat (ti_num_files ti)))"
    using index_loop_map_of [of 0 "nat (ti_num_files ti)" ti "file_data ti content" q bs] by blast
  moreover have "i = index_loop ti q 0 (nat (ti_num_files ti))"
    using i(1) n mounted_ti [OF assms(1)] q(1) by (simp add: get_file_index_def)
  ultimately show "\<exists>i. get_file_index p st = Inr i \<and> valid_file ti i \<and> bs = file_data ti content i"
    using i by auto
qed

end
