(* ===== verification/Client.thy ===== *)
theory Client
  imports FS_Init FS_Spec
begin

text \<open>
  \<open>client.cpp\<close>: the program's entry. It builds the arguments for FUSE, registers the
  operations, each a wrapper around the one \<open>FS\<close> object, and runs \<open>fuse_main\<close>. FUSE itself
  is a parameter: it is seen as the sequence of requests it makes.
\<close>

section \<open>The object\<close>

text \<open>\<open>FS::Instance\<close>: the constructor leaves \<open>fsmeta\<close> unset.\<close>

definition Instance :: "'l fs_state \<Rightarrow> 'l fs_state" where
  "Instance st = (if \<not> instance_made st then st\<lparr>instance_made := True, fsmeta := None\<rparr> else st)"

section \<open>The wrappers\<close>

definition getattr_wrapper :: "string \<Rightarrow> 'l fs_state \<Rightarrow> fault + (int \<times> stat_buf \<times> 'l fs_state)" where
  "getattr_wrapper path st =
     (let st1 = Instance st
      in case getattr path st1 of Inl f \<Rightarrow> Inl f | Inr (r, b) \<Rightarrow> Inr (r, b, st1))"

definition open_wrapper :: "string \<Rightarrow> 'l fs_state \<Rightarrow> int \<times> 'l fs_state" where
  "open_wrapper path st = (let st1 = Instance st in (fs_open path st1, st1))"

definition read_wrapper ::
  "'l lt_api \<Rightarrow> string \<Rightarrow> mem \<Rightarrow> 64 word \<Rightarrow> 64 word \<Rightarrow> 'l fs_state \<Rightarrow> (int \<times> mem \<times> 'l fs_state) outcome" where
  "read_wrapper api path buf n off st = fs_read api path buf n off (Instance st)"

definition readdir_wrapper ::
  "('b \<Rightarrow> string \<Rightarrow> 'b) \<Rightarrow> string \<Rightarrow> 'b \<Rightarrow> 'l fs_state \<Rightarrow> int \<times> 'b \<times> 'l fs_state" where
  "readdir_wrapper filler path buf st = readdir filler path buf (Instance st)"

definition init_wrapper :: "'l init_env \<Rightarrow> 'l lt_api \<Rightarrow> string \<Rightarrow> 'l fs_state \<Rightarrow> fault + 'l fs_state" where
  "init_wrapper env api torrent_path st = init_bitfs env api torrent_path (Instance st)"

section \<open>Serving requests\<close>

text \<open>Requests as FUSE makes them, one after the other; \<open>request\<close> and \<open>answer\<close> are those of \<open>FS_Spec\<close>.\<close>

fun serve :: "'l lt_api \<Rightarrow> request \<Rightarrow> 'l fs_state \<Rightarrow> (answer \<times> 'l fs_state) outcome" where
  "serve api (ReqGetattr p) st =
     (case getattr_wrapper p st of Inl f \<Rightarrow> Some (Inl f) | Inr (r, b, st') \<Rightarrow> Some (Inr (AnsAttr r b, st')))"
| "serve api (ReqOpen p) st = (case open_wrapper p st of (r, st') \<Rightarrow> Some (Inr (AnsStatus r, st')))"
| "serve api (ReqReaddir p) st =
     (case readdir_wrapper (\<lambda>b s. b @ [s]) p [] st of (r, ns, st') \<Rightarrow> Some (Inr (AnsNames r ns, st')))"
| "serve api (ReqRead p buf n off) st =
     (case read_wrapper api p buf n off st of None \<Rightarrow> None | Some (Inl f) \<Rightarrow> Some (Inl f)
      | Some (Inr (r, buf', st')) \<Rightarrow> Some (Inr (AnsData r buf', st')))"

fun serve_all :: "'l lt_api \<Rightarrow> request list \<Rightarrow> 'l fs_state \<Rightarrow> (answer list \<times> 'l fs_state) outcome" where
  "serve_all api [] st = Some (Inr ([], st))"
| "serve_all api (r # rs) st =
     (case serve api r st of None \<Rightarrow> None | Some (Inl f) \<Rightarrow> Some (Inl f)
      | Some (Inr (a, st1)) \<Rightarrow>
        (case serve_all api rs st1 of None \<Rightarrow> None | Some (Inl f) \<Rightarrow> Some (Inl f)
         | Some (Inr (as, st2)) \<Rightarrow> Some (Inr (a # as, st2))))"

section \<open>Starting up\<close>

text \<open>\<open>strcpy\<close> into a block of \<open>cap\<close> bytes, which needs room for the terminator.\<close>

definition strcpy_into :: "nat \<Rightarrow> string \<Rightarrow> fault + string" where
  "strcpy_into cap s = (if length (c_str s) < cap then Inr (c_str s) else Inl OutOfBounds)"

text \<open>The argument vector; an access past its end is a fault.\<close>

definition arg :: "string list \<Rightarrow> nat \<Rightarrow> fault + string" where
  "arg argv i = (if i < length argv then Inr (argv ! i) else Inl OutOfBounds)"

definition init_fuse :: "string list \<Rightarrow> fault + string list" where
  "init_fuse argv =
     (case arg argv 0 of Inl f \<Rightarrow> Inl f | Inr a0 \<Rightarrow>
      case arg argv 2 of Inl f \<Rightarrow> Inl f | Inr a1 \<Rightarrow>
      case strcpy_into 8 ''-d'' of Inl f \<Rightarrow> Inl f | Inr a2 \<Rightarrow>
      case strcpy_into 8 ''-f'' of Inl f \<Rightarrow> Inl f | Inr a3 \<Rightarrow> Inr [a0, a1, a2, a3])"

text \<open>
  \<open>main\<close>: \<open>fuse_main\<close> takes the arguments, the private data and the world and returns a status,
  which is dropped. The result is the exit code and the world.
\<close>

definition client_main ::
  "(string list \<Rightarrow> string \<Rightarrow> 'w \<Rightarrow> int \<times> 'w) \<Rightarrow> string list \<Rightarrow> 'w \<Rightarrow> fault + (int \<times> 'w)" where
  "client_main fuse_main argv w =
     (if length argv \<noteq> 4 then Inr (0, w)
      else case init_fuse argv of Inl f \<Rightarrow> Inl f | Inr fuse_args \<Rightarrow>
        case arg argv 1 of Inl f \<Rightarrow> Inl f | Inr data \<Rightarrow> Inr (0, snd (fuse_main fuse_args data w)))"

text \<open>
  With other than three arguments \<open>main\<close> does nothing; otherwise it runs FUSE once, on the mount
  point (the second argument) with debug output in the foreground, and hands it the torrent file
  (the first argument). The third argument is not used, and the status of FUSE is dropped.
\<close>

lemma client_main_idle: "length argv \<noteq> 4 \<Longrightarrow> client_main fm argv w = Inr (0, w)"
  by (simp add: client_main_def)

lemma client_main_fuse:
  "client_main fm [prog, torrent, mountpoint, caching] w =
     Inr (0, snd (fm [prog, mountpoint, ''-d'', ''-f''] torrent w))"
  by (simp add: client_main_def init_fuse_def arg_def strcpy_into_def c_str_def numeral_2_eq_2)

section \<open>Between two requests\<close>

lemma Instance_mounted: "instance_made st \<Longrightarrow> Instance st = st"
  by (simp add: Instance_def)

lemma Instance_idem: "Instance (Instance st) = Instance st"
  by (simp add: Instance_def)

text \<open>What holds between two requests.\<close>

definition serving ::
  "(string \<Rightarrow> string list) \<Rightarrow> torrent_info \<Rightarrow> byte list \<Rightarrow> 'l lt_view \<Rightarrow> 'l fs_state \<Rightarrow> bool" where
  "serving split ti content v st \<longleftrightarrow>
     instance_made st \<and> mounted split ti st \<and> \<not> mutex_held st \<and> v_inv v (session st) \<and>
     cache_ok (piece_data ti content) (piece_buffer_map st)"

section \<open>Every answer is the promised one\<close>

lemma getattr_no_fault:
  assumes "mounted split ti st" "split_ok split" "paths_ok ti"
  shows "\<exists>r b. getattr p st = Inr (r, b)"
proof (cases "has_dir (fs_tables st) (table_path p) \<or> has_file (fs_tables st) (table_path p)")
  case True
  then show ?thesis using getattr_ok_iff [OF assms, of p] by blast
next
  case False
  then show ?thesis by (simp add: getattr_def)
qed

lemma file_of_table:
  assumes "mounted split ti st" "split_ok split" "\<not> has_dir (fs_tables st) (table_path p)"
  shows "has_file (fs_tables st) (table_path p) \<longleftrightarrow> p \<in> (\<lambda>q. ''/'' @ q) ` set (file_paths ti)"
proof
  assume "has_file (fs_tables st) (table_path p)"
  then obtain q where q: "q \<in> set (file_paths ti)" "table_path p = CHR ''/'' # q @ ''/''"
    using assms(1,2) by (auto simp: mounted_tables has_file_filled)
  then have "p \<noteq> ''/''" by (auto simp: table_path_def)
  then show "p \<in> (\<lambda>q. ''/'' @ q) ` set (file_paths ti)" using q by (auto simp: table_path_def)
next
  assume "p \<in> (\<lambda>q. ''/'' @ q) ` set (file_paths ti)"
  then obtain q where q: "p = CHR ''/'' # q" "q \<in> set (file_paths ti)" by auto
  have "split q \<noteq> []" using assms(2) by (simp add: split_ok_def)
  then have "has_dir (fs_tables st) ''/''"
    unfolding mounted_tables [OF assms(1,2)] has_dir_filled [OF assms(2)] using q(2)
    by (intro bexI [of _ q] exI [of _ 0]) simp_all
  then have "p \<noteq> ''/''" using assms(3) by (auto simp: table_path_def)
  then show "has_file (fs_tables st) (table_path p)"
    using q mounted_has_file [OF assms(1,2), of q] by (simp add: table_path_def)
qed

lemma getattr_spec:
  assumes "mounted split ti st" "split_ok split" "paths_ok ti" "ti_ok ti" "content_ok ti content"
    and "request_ok (files_of ti content) (ReqGetattr p)"
  shows "\<exists>r b. getattr p st = Inr (r, b) \<and> spec_answer (files_of ti content) (ReqGetattr p) = AnsAttr r b"
proof (cases "has_dir (fs_tables st) (table_path p)")
  case True
  then show ?thesis
    using mounted_spec_dir [OF assms(1,2), of p content] by (simp add: getattr_def zero_stat_def S_IFDIR_def)
next
  case nodir: False
  note tab = file_of_table [OF assms(1,2) nodir] mounted_spec_file(1) [OF assms(1,3), of content p]
  show ?thesis
  proof (cases "spec_file (files_of ti content) p")
    case None
    then show ?thesis
      using nodir tab mounted_spec_dir [OF assms(1,2), of p content]
      by (simp add: getattr_def zero_stat_def ENOENT_def)
  next
    case (Some bs)
    obtain i where i: "get_file_index p st = Inr i" "valid_file ti i" "bs = file_data ti content i"
      using mounted_spec_file(2) [OF assms(1,3) Some] by blast
    have "p \<noteq> []" using Some by (auto simp: spec_file_def)
    then have "(tl p, bs) \<in> set (files_of ti content)"
      using Some by (auto simp: spec_file_def split: list.splits if_splits dest: map_of_SomeD)
    then have "int (length bs) \<le> INT_MAX" using assms(6) by (auto simp: request_ok_def)
    then have "get_file_size i st = Inr (int (length bs))"
      using i mounted_ti [OF assms(1)] file_data_length [OF assms(4,5) i(2)]
      by (simp add: get_file_size_def int_cast_id)
    then show ?thesis
      using Some nodir tab i(1) mounted_spec_dir [OF assms(1,2), of p content]
      by (simp add: getattr_def zero_stat_def S_IFREG_def)
  qed
qed

lemma fs_open_spec:
  assumes "mounted split ti st" "split_ok split" "paths_ok ti"
  shows "fs_open p st = (if spec_file (files_of ti content) p = None then - 2 else 0)"
proof -
  have "has_file (fs_tables st) (p @ ''/'') \<longleftrightarrow> p \<in> (\<lambda>q. ''/'' @ q) ` set (file_paths ti)"
    using mounted_has_file [OF assms(1,2)] mounted_has_file_slash [OF assms(1,2), of p] by auto
  then show ?thesis
    using mounted_spec_file(1) [OF assms(1,3), of content p] by (auto simp: fs_open_def ENOENT_def)
qed

lemma serve_spec:
  assumes "split_ok split" "paths_ok ti" "ti_ok ti" "content_ok ti content"
    and "lt_ok api v (piece_data ti content)" "serving split ti content v st" "request_ok (files_of ti content) r"
  shows "\<exists>st'. serve api r st = Some (Inr (spec_answer (files_of ti content) r, st')) \<and> serving split ti content v st'"
proof -
  have m: "mounted split ti st" and inst: "Instance st = st"
    using assms(6) by (simp_all add: serving_def Instance_mounted)
  show ?thesis
  proof (cases r)
    case (ReqGetattr p)
    then show ?thesis
      using getattr_spec [OF m assms(1-4), of p] assms(6,7) by (auto simp: getattr_wrapper_def inst)
  next
    case (ReqOpen p)
    then show ?thesis
      using assms(6) fs_open_spec [OF m assms(1,2), of p content] by (simp add: open_wrapper_def inst)
  next
    case (ReqReaddir p)
    note dir = mounted_spec_dir [OF m assms(1), of p content]
    show ?thesis
    proof (cases "has_dir (fs_tables st) (table_path p)")
      case True
      then obtain names st' where rd: "readdir (\<lambda>b s. b @ [s]) p [] st = (0, names, st')"
        using readdir_names by blast
      note nm = readdir_mounted(2,3) [OF m assms(1,2) rd]
      then show ?thesis
        using rd True assms(6) ReqReaddir dir mounted_spec_names [OF m assms(1), of p content]
        by (simp add: readdir_wrapper_def inst)
    next
      case False
      then show ?thesis
        using assms(6) ReqReaddir dir by (simp add: readdir_wrapper_def readdir_def inst Let_def ENOENT_def)
    qed
  next
    case (ReqRead p buf n off)
    then obtain bs where bs: "spec_file (files_of ti content) p = Some bs"
      and sz: "\<forall>(q, bs)\<in>set (files_of ti content). int (length bs) \<le> INT_MAX"
      and nn: "uint n \<le> INT_MAX" "0 \<le> sint off" "int (length buf) = uint n"
      using assms(7) by (auto simp: request_ok_def)
    obtain i where i: "get_file_index p st = Inr i" "valid_file ti i" "bs = file_data ti content i"
      using mounted_spec_file(2) [OF m assms(2) bs] by blast
    have "(ti_file_path ti i, bs) \<in> set (files_of ti content)"
      using i(2,3) by (auto simp: files_of_def valid_file_def image_iff intro!: bexI [of _ "nat i"])
    then have "ti_file_size ti i \<le> INT_MAX"
      using sz file_data_length [OF assms(3,4) i(2)] i(3) by auto
    moreover have "v_inv v (session st)" "cache_ok (piece_data ti content) (piece_buffer_map st)"
        "\<not> mutex_held st" "instance_made st"
      using assms(6) by (simp_all add: serving_def)
    ultimately obtain st' where rd: "fs_read api p buf n off st = Some (Inr
        (int (length (requested ti content i (sint off) (uint n))),
         map Some (requested ti content i (sint off) (uint n)) @
           drop (length (requested ti content i (sint off) (uint n))) buf, st'))"
        and good: "serving split ti content v st'"
      using fs_read_delivers [OF m assms(1,2,3,4,5) _ _ _ i(1,2) _ nn] unfolding serving_def by blast
    have "requested ti content i (sint off) (uint n) = take (nat (uint n)) (drop (nat (sint off)) bs)"
      by (simp add: requested_def i(3))
    then show ?thesis
      using rd good ReqRead bs by (simp add: read_wrapper_def inst Let_def)
  qed
qed

lemma serve_all_spec:
  assumes "split_ok split" "paths_ok ti" "ti_ok ti" "content_ok ti content"
    and "lt_ok api v (piece_data ti content)" "serving split ti content v st"
    and "\<forall>r\<in>set rs. request_ok (files_of ti content) r"
  shows "\<exists>st'. serve_all api rs st = Some (Inr (map (spec_answer (files_of ti content)) rs, st')) \<and>
    serving split ti content v st'"
  using assms(6,7)
proof (induction rs arbitrary: st)
  case Nil
  then show ?case by simp
next
  case (Cons r rs)
  obtain st1 where 1: "serve api r st = Some (Inr (spec_answer (files_of ti content) r, st1))"
      "serving split ti content v st1"
    using serve_spec [OF assms(1-5) Cons.prems(1), of r] Cons.prems(2) by auto
  obtain st2 where 2: "serve_all api rs st1 = Some (Inr (map (spec_answer (files_of ti content)) rs, st2))"
      "serving split ti content v st2"
    using Cons.IH [OF 1(2)] Cons.prems(2) by auto
  show ?case using 1 2 by simp
qed

section \<open>Properties\<close>

text \<open>
  C5: the mounted program implements the abstract file system \<open>spec_answer\<close>, which is computed from the
  list of files alone: modes, links and exact sizes, directories and their sorted names, \<open>ENOENT\<close>, and
  the bytes of reads. Any sequence of requests, over any session that behaves as documented, is
  answered in full, without a fault and without hanging, and every answer is the promised one,
  whatever was downloaded, buffered or asked before. Attributes and reads are promised for
  torrents whose files are all below 2 GiB.
\<close>

theorem serve_refines_spec:
  assumes "split_ok split" "paths_ok ti" "ti_ok ti" "content_ok ti content"
    and "lt_ok api v (piece_data ti content)" "serving split ti content v st"
    and "\<forall>r\<in>set rs. request_ok (files_of ti content) r"
  shows "\<exists>st'. serve_all api rs st = Some (Inr (map (spec_answer (files_of ti content)) rs, st')) \<and>
    serving split ti content v st'"
  using assms by (rule serve_all_spec)

lemma demo_files:
  "files_of demo_ti demo_content = [(''a/b'', [10, 11, 12, 13, 14]), (''a/c'', [15, 16, 17]), (''d'', [18, 19, 20, 21])]"
  by code_simp

definition demo_requests :: "request list" where
  "demo_requests = [ReqReaddir ''/a'', ReqGetattr ''/a'', ReqGetattr ''/d'', ReqOpen ''/e'', ReqRead ''/a/c'' [None, None] 2 0]"

definition demo_answers :: "answer list" where
  "demo_answers = [AnsNames 0 [''b'', ''c''], AnsAttr 0 \<lparr>st_mode = 0x41ED, st_nlink = 2, st_size = 0\<rparr>,
     AnsAttr 0 \<lparr>st_mode = 0x8124, st_nlink = 1, st_size = 4\<rparr>, AnsStatus (- 2), AnsData 2 [Some 15, Some 16]]"

lemma demo_requests_ok: "\<forall>r\<in>set demo_requests. request_ok (files_of demo_ti demo_content) r"
  by (simp add: demo_requests_def demo_files request_ok_def spec_file_def INT_MAX_def)

lemma demo_requests_answers: "map (spec_answer (files_of demo_ti demo_content)) demo_requests = demo_answers"
  unfolding demo_files demo_requests_def demo_answers_def by code_simp

theorem serve_refines_spec_witness:
  "\<exists>st'. serve_all demo_api demo_requests demo_mount = Some (Inr (demo_answers, st'))"
proof -
  have "serving split_slash demo_ti demo_content sim_view demo_mount"
    using demo_mounted demo_cache(1) by (simp add: serving_def demo_mount_def mk_mounted_def)
  from serve_refines_spec [OF split_slash_ok demo_ok(2,1) demo_content_ok
      sim_ok [of "piece_data demo_ti demo_content", folded demo_api_def] this demo_requests_ok]
  show ?thesis unfolding demo_requests_answers by blast
qed

end
