(* ===== verification/BitFS.thy ===== *)
theory BitFS
  imports Client
begin

text \<open>
  \<open>bitFS.cpp\<close>, the single-file program that \<open>FS.cpp\<close> and \<open>client.cpp\<close> were made from. It has
  its own copy of every operation, keeps statistics, limits the download rate outside of reads
  and raises priorities without asking whether a piece is there. The structs
  \<open>torrent_metadata\<close> and \<open>bitfs_metadata\<close> have the fields of the later classes and share their
  records. \<open>fs_of\<close> reads a state of this program as a state of the later one; the
  operations are compared through it.
\<close>

section \<open>State\<close>

text \<open>The times are seconds. The two values of type \<open>double\<close> are results of \<open>display_stats\<close>.\<close>

record session_stat =
  start_time :: int
  end_time :: int
  piece_download_counter :: int
  download_size :: int
  file_size :: int
  cache_hit_counter :: int
  cache_hit_rate :: int

record 'l bitfs_state =
  b_meta :: "bitfs_metadata option"
  b_tables :: tables
  b_buffers :: cache
  b_session :: 'l
  stats :: session_stat
  enable_caching :: int

definition fs_of :: "'l bitfs_state \<Rightarrow> 'l fs_state" where
  "fs_of st = \<lparr>instance_made = True, fsmeta = b_meta st, fs_tables = b_tables st,
     piece_buffer_map = b_buffers st, session = b_session st\<rparr>"

definition b_deref_tmeta :: "'l bitfs_state \<Rightarrow> fault + torrent_metadata" where
  "b_deref_tmeta st =
     (case b_meta st of None \<Rightarrow> Inl NullPointer
      | Some bm \<Rightarrow> (case tmeta bm of None \<Rightarrow> Inl NullPointer | Some tm \<Rightarrow> Inr tm))"

definition b_deref_ti :: "'l bitfs_state \<Rightarrow> fault + torrent_info" where
  "b_deref_ti st =
     (case b_deref_tmeta st of Inl f \<Rightarrow> Inl f
      | Inr tm \<Rightarrow> (case par_ti (params tm) of None \<Rightarrow> Inl NullPointer | Some ti \<Rightarrow> Inr ti))"

section \<open>Statistics\<close>

definition initialize_stats :: "int \<Rightarrow> 'l bitfs_state \<Rightarrow> fault + 'l bitfs_state" where
  "initialize_stats now st =
     (case b_deref_ti st of Inl f \<Rightarrow> Inl f
      | Inr ti \<Rightarrow> Inr (st\<lparr>stats := (stats st)\<lparr>start_time := now, cache_hit_counter := 0,
          piece_download_counter := 0, file_size := int_cast (ti_total_size ti)\<rparr>\<rparr>))"

text \<open>Division of \<open>int\<close> values: towards zero, and a trap when the divisor is 0.\<close>

definition int_div :: "int \<Rightarrow> int \<Rightarrow> fault + int" where
  "int_div a b = (if b = 0 then Inl DivisionByZero else Inr (sgn a * sgn b * (\<bar>a\<bar> div \<bar>b\<bar>)))"

text \<open>
  What \<open>display_stats\<close> prints besides the two times: session time, megabytes downloaded, size
  of the torrent in megabytes, hit counter and hit rate when caching is enabled, and the
  network utilisation as the two operands of its floating-point division.
\<close>

record display =
  d_session_time :: int
  d_download :: int
  d_total :: int
  d_hits :: "(int \<times> int) option"
  d_bandwidth :: "int \<times> int"

definition megabytes :: "int \<Rightarrow> fault + int" where
  "megabytes n = (case int_div n 1024 of Inl f \<Rightarrow> Inl f | Inr k \<Rightarrow> int_div k 1024)"

definition display_stats :: "int \<Rightarrow> 'l bitfs_state \<Rightarrow> fault + (display \<times> 'l bitfs_state)" where
  "display_stats now st =
     (let s1 = (stats st)\<lparr>end_time := now\<rparr>; session_time = end_time s1 - start_time s1 in
      case b_deref_ti st of Inl f \<Rightarrow> Inl f
      | Inr ti \<Rightarrow>
      case megabytes (int_cast (piece_download_counter s1 * ti_piece_length ti)) of Inl f \<Rightarrow> Inl f
      | Inr download \<Rightarrow>
      case int_div (int_cast (cache_hit_counter s1 * 100)) (piece_download_counter s1) of Inl f \<Rightarrow> Inl f
      | Inr rate \<Rightarrow>
      case megabytes (file_size s1) of Inl f \<Rightarrow> Inl f
      | Inr tot_mb \<Rightarrow>
          Inr (\<lparr>d_session_time = session_time, d_download = download, d_total = tot_mb,
                d_hits = (if enable_caching st \<noteq> 0 then Some (cache_hit_counter s1, rate) else None),
                d_bandwidth = (download, session_time)\<rparr>,
               st\<lparr>stats := s1\<lparr>cache_hit_rate := rate\<rparr>\<rparr>))"

section \<open>Lookups and attributes\<close>

definition b_has_file :: "'l bitfs_state \<Rightarrow> string \<Rightarrow> bool" where
  "b_has_file st path \<longleftrightarrow> path \<in> filenames (b_tables st)"

definition b_has_dir :: "'l bitfs_state \<Rightarrow> string \<Rightarrow> bool" where
  "b_has_dir st path \<longleftrightarrow> path \<in> dirmap (b_tables st)"

definition bitfs_getattr :: "string \<Rightarrow> 'l bitfs_state \<Rightarrow> fault + (int \<times> stat_buf)" where
  "bitfs_getattr path st =
     (let strpath = (if path \<noteq> ''/'' then path @ ''/'' else path) in
      if b_has_dir st strpath then
        Inr (0, zero_stat\<lparr>st_mode := or S_IFDIR 0x1ED, st_nlink := 2\<rparr>)
      else if b_has_file st strpath then
        (case b_deref_ti st of Inl f \<Rightarrow> Inl f
         | Inr ti \<Rightarrow> Inr (0, zero_stat\<lparr>st_mode := or S_IFREG 0x124, st_nlink := 1, st_size := ti_total_size ti\<rparr>))
      else Inr (- ENOENT, zero_stat))"

definition bitfs_readdir ::
  "('b \<Rightarrow> string \<Rightarrow> 'b) \<Rightarrow> string \<Rightarrow> 'b \<Rightarrow> 'l bitfs_state \<Rightarrow> int \<times> 'b \<times> 'l bitfs_state" where
  "bitfs_readdir filler path buf st =
     (let strpath = (if path \<noteq> ''/'' then path @ ''/'' else path); t = b_tables st in
      if \<not> b_has_dir st strpath then (- ENOENT, buf, st)
      else let names = (case entries t strpath of None \<Rightarrow> {} | Some ns \<Rightarrow> ns);
               t' = t\<lparr>entries := (entries t)(strpath := Some names)\<rparr>
           in (0, foldl filler buf (map c_str (sorted_list_of_set names)), st\<lparr>b_tables := t'\<rparr>))"

definition b_get_file_index :: "string \<Rightarrow> 'l bitfs_state \<Rightarrow> fault + int" where
  "b_get_file_index filepath st =
     (case b_deref_ti st of Inl f \<Rightarrow> Inl f
      | Inr ti \<Rightarrow>
        (if ti_num_files ti \<le> 0 then Inr (- 1)
         else case filepath of [] \<Rightarrow> Inl OutOfBounds
           | _ # name \<Rightarrow> Inr (index_loop ti name 0 (nat (ti_num_files ti)))))"

definition b_get_file_size :: "int \<Rightarrow> 'l bitfs_state \<Rightarrow> fault + int" where
  "b_get_file_size i st =
     (case b_deref_ti st of Inl f \<Rightarrow> Inl f
      | Inr ti \<Rightarrow> if valid_file ti i then Inr (int_cast (ti_file_size ti i)) else Inl BadFileIndex)"

definition bitfs_open :: "string \<Rightarrow> 'l bitfs_state \<Rightarrow> int" where
  "bitfs_open path st = (if \<not> b_has_file st (path @ ''/'') then - ENOENT else 0)"

section \<open>Reading\<close>

definition b_get_piece_buffers :: "'l lt_api \<Rightarrow> 'l \<Rightarrow> cache \<Rightarrow> 'l \<times> cache" where
  "b_get_piece_buffers api l m =
     (let (alerts, l') = pop_alerts api l in (l', fold store_alert alerts m))"

partial_function (option) b_wait_loop ::
  "'l lt_api \<Rightarrow> int \<Rightarrow> bool \<Rightarrow> 'l \<Rightarrow> cache \<Rightarrow> ('l \<times> cache) option" where
  "b_wait_loop api piece hve l m =
     (if hve then Some (l, m)
      else case b_get_piece_buffers api l m of (l1, m1) \<Rightarrow>
        (case have_piece api l1 piece of (h, l2) \<Rightarrow> b_wait_loop api piece h l2 m1))"

definition count_hit :: "session_stat \<Rightarrow> session_stat" where
  "count_hit s = s\<lparr>cache_hit_counter := int_cast (cache_hit_counter s + 1),
     piece_download_counter := int_cast (piece_download_counter s + 1)\<rparr>"

definition b_wait_for_piece_download ::
  "'l lt_api \<Rightarrow> int \<Rightarrow> 'l \<Rightarrow> cache \<Rightarrow> session_stat \<Rightarrow> ('l \<times> cache \<times> session_stat) option" where
  "b_wait_for_piece_download api piece l m s =
     (let (h, l1) = have_piece api l piece in
      if h then Some (l1, m, count_hit s)
      else let l2 = piece_priority api l1 piece 7; (hve, l3) = have_piece api l2 piece
        in case b_wait_loop api piece hve l3 m of None \<Rightarrow> None | Some (l4, m4) \<Rightarrow> Some (l4, m4, s))"

partial_function (option) b_buffer_loop ::
  "'l lt_api \<Rightarrow> int \<Rightarrow> bool \<Rightarrow> 'l \<Rightarrow> cache \<Rightarrow> ('l \<times> cache) option" where
  "b_buffer_loop api piece has_buff l m =
     (if has_buff then Some (l, m)
      else case b_get_piece_buffers api l m of (l1, m1) \<Rightarrow>
        b_buffer_loop api piece (m1 piece \<noteq> None) l1 m1)"

definition b_raise :: "'l lt_api \<Rightarrow> torrent_info \<Rightarrow> int \<Rightarrow> 'l \<Rightarrow> 'l" where
  "b_raise api ti p l =
     (let l1 = piece_priority api l p 7
      in if p < ti_num_pieces ti - 1 then piece_priority api l1 (p + 1) 7 else l1)"

partial_function (option) b_plan_loop ::
  "'l lt_api \<Rightarrow> torrent_info \<Rightarrow> int \<Rightarrow> int \<Rightarrow> int \<Rightarrow> 'l \<Rightarrow> 'l option" where
  "b_plan_loop api ti idx curr_off rem l =
     (if rem > 0 then
        b_plan_loop api ti idx (curr_off + read_chunk ti idx curr_off rem)
          (rem - read_chunk ti idx curr_off rem) (b_raise api ti (chunk_piece ti idx curr_off rem) l)
      else Some l)"

definition b_copy_round ::
  "'l lt_api \<Rightarrow> torrent_info \<Rightarrow> int \<Rightarrow> int \<Rightarrow> int \<Rightarrow> int \<Rightarrow> mem \<Rightarrow> mem \<Rightarrow> 'l \<times> cache \<times> session_stat \<Rightarrow>
   (mem \<times> mem \<times> 'l \<times> cache \<times> session_stat) outcome" where
  "b_copy_round api ti idx curr_off rem read_ptr temp_buf buf x =
     (case x of (l, m, s) \<Rightarrow>
      let p = chunk_piece ti idx curr_off rem; psz = ti_piece_size ti p in
      case b_wait_for_piece_download api p l m s of None \<Rightarrow> None
      | Some (l1, m1, s1) \<Rightarrow>
       (let has_buff = (m1 p \<noteq> None); l2 = (if \<not> has_buff then read_piece api l1 p else l1) in
        case b_buffer_loop api p has_buff l2 m1 of None \<Rightarrow> None
        | Some (l3, m3) \<Rightarrow>
         (case m3 p of None \<Rightarrow> Some (Inl NullPointer)
          | Some pb \<Rightarrow>
           (case memcpy temp_buf 0 (map Some pb) 0 psz of Inl f \<Rightarrow> Some (Inl f)
            | Inr temp' \<Rightarrow>
             (case memcpy buf read_ptr temp' (chunk_start ti idx curr_off rem) (read_chunk ti idx curr_off rem)
              of Inl f \<Rightarrow> Some (Inl f)
              | Inr buf' \<Rightarrow> Some (Inr (temp', buf', l3, m3, s1)))))))"

partial_function (option) b_copy_loop ::
  "'l lt_api \<Rightarrow> torrent_info \<Rightarrow> int \<Rightarrow> int \<Rightarrow> int \<Rightarrow> int \<Rightarrow> mem \<Rightarrow> mem \<Rightarrow> 'l \<times> cache \<times> session_stat \<Rightarrow>
   (int \<times> mem \<times> 'l \<times> cache \<times> session_stat) outcome" where
  "b_copy_loop api ti idx curr_off rem read_ptr temp_buf buf x =
     (if rem > 0 then
        case b_copy_round api ti idx curr_off rem read_ptr temp_buf buf x of None \<Rightarrow> None
        | Some res \<Rightarrow>
          (case res of Inl f \<Rightarrow> Some (Inl f)
           | Inr y \<Rightarrow> (case y of (temp', buf', x') \<Rightarrow>
               b_copy_loop api ti idx (curr_off + read_chunk ti idx curr_off rem)
                 (rem - read_chunk ti idx curr_off rem) (read_ptr + read_chunk ti idx curr_off rem)
                 temp' buf' x'))
      else Some (Inr (read_ptr, buf, x)))"

definition b_set_mutex :: "bool \<Rightarrow> 'l bitfs_state \<Rightarrow> 'l bitfs_state" where
  "b_set_mutex b st = st\<lparr>b_meta := map_option
     (\<lambda>bm. bm\<lparr>tmeta := map_option (\<lambda>tm. tm\<lparr>fsmtx := b\<rparr>) (tmeta bm)\<rparr>) (b_meta st)\<rparr>"

text \<open>As in \<open>FS.cpp\<close>, waiting for a mutex that is held does not return.\<close>

definition bitfs_read ::
  "'l lt_api \<Rightarrow> string \<Rightarrow> mem \<Rightarrow> 64 word \<Rightarrow> 64 word \<Rightarrow> 'l bitfs_state \<Rightarrow>
   (int \<times> mem \<times> 'l bitfs_state) outcome" where
  "bitfs_read api filepath buf u_size u_offset st =
     (case b_deref_tmeta st of Inl f \<Rightarrow> Some (Inl f)
      | Inr tm \<Rightarrow>
     (case thandle tm of InvalidHandle \<Rightarrow> Some (Inl BadHandle)
      | TorrentHandle ti \<Rightarrow>
     (case b_get_file_index filepath st of Inl f \<Rightarrow> Some (Inl f)
      | Inr file_index \<Rightarrow>
     (case b_get_file_size file_index st of Inl f \<Rightarrow> Some (Inl f)
      | Inr file_total_size \<Rightarrow>
     (let size = int_cast (uint u_size);
          offset = int_cast (sint u_offset);
          temp_buf = replicate (nat (ti_piece_length ti)) None;
          remaining = min size (file_total_size - offset)
      in
      if sint u_offset \<ge> file_total_size then Some (Inr (0, buf, st))
      else if fsmtx tm then None
      else
       (let st1 = b_set_mutex True st;
            l0 = set_download_limit api (b_session st1) (1024 * 1024)
        in case b_plan_loop api ti file_index offset remaining l0 of None \<Rightarrow> None
           | Some l1 \<Rightarrow>
             (case b_copy_loop api ti file_index offset remaining 0 temp_buf buf
                 (l1, b_buffers st1, stats st1) of
                None \<Rightarrow> None
              | Some (Inl f) \<Rightarrow> Some (Inl f)
              | Some (Inr (read_ptr, buf', l2, m2, s2)) \<Rightarrow>
                  Some (Inr (read_ptr, buf', b_set_mutex False
                    (st1\<lparr>b_session := set_download_limit api l2 1, b_buffers := m2, stats := s2\<rparr>))))))))))"


section \<open>Starting up\<close>

text \<open>Boost and libtorrent as this \<open>init_bitfs\<close> uses them; \<open>resume\<close> starts a paused torrent.\<close>

record 'l bitfs_env =
  be_unique_path :: "string \<Rightarrow> string"
  be_split :: "string \<Rightarrow> string list"
  be_load_torrent :: "string \<Rightarrow> torrent_info \<times> error_code"
  be_new_session :: "settings_pack \<Rightarrow> string list \<Rightarrow> 'l"
  be_add_torrent :: "add_torrent_params \<Rightarrow> 'l \<Rightarrow> torrent_handle \<times> error_code \<times> 'l"
  be_resume :: "'l \<Rightarrow> 'l"

definition bitfs_settings :: "settings_pack \<Rightarrow> settings_pack" where
  "bitfs_settings s0 =
     (let s1 = set_str ''listen_interfaces'' ''0.0.0.0:6881,0.0.0.0:6882,0.0.0.0:6883,0.0.0.0:6884'' s0;
          s2 = set_bool ''strict_end_game_mode'' False s1;
          s3 = set_enum ''alert_mask'' [''progress_notification''] s2;
          s4 = set_bool ''enable_dht'' False s3
      in s4)"

definition b_put_meta :: "settings_pack option \<Rightarrow> torrent_metadata \<Rightarrow> 'l bitfs_state \<Rightarrow> 'l bitfs_state" where
  "b_put_meta s tm st = st\<lparr>b_meta := Some \<lparr>sess = s, tmeta = Some tm\<rparr>\<rparr>"

definition b_init_bitfs ::
  "'l bitfs_env \<Rightarrow> 'l lt_api \<Rightarrow> string \<Rightarrow> 'l bitfs_state \<Rightarrow> fault + 'l bitfs_state" where
  "b_init_bitfs env api torrent_path st =
     (let tm0 = torrent_metadata_new (be_unique_path env) torrent_path;
          tm1 = tm0\<lparr>sett := bitfs_settings (sett tm0)\<rparr>;
          sess0 = Some (sett tm1);
          l0 = be_new_session env (sett tm1) [''add_default_plugins'', ''start_default_features''];
          (ti, ec1) = be_load_torrent env torrent_path;
          tm2 = tm1\<lparr>params := (params tm1)\<lparr>par_flags := [''flag_paused''],
            par_save_path := disk_cache_path tm1, par_ti := Some ti\<rparr>, ec := ec1\<rparr>
      in
      if ec tm2 \<noteq> 0 then Inr (b_put_meta sess0 tm2 (st\<lparr>b_session := l0\<rparr>))
      else
       (let (h, ec2, l1) = be_add_torrent env (params tm2) l0;
            tm3 = tm2\<lparr>thandle := h, ec := ec2\<rparr>
        in
        if ec tm3 \<noteq> 0 then Inr (b_put_meta sess0 tm3 (st\<lparr>b_session := l1\<rparr>))
        else
         (case fill_tables (be_split env) (file_paths ti) (b_tables st) of Inl f \<Rightarrow> Inl f
          | Inr t \<Rightarrow>
              Inr (b_put_meta sess0 tm3
                (st\<lparr>b_tables := t, b_session := be_resume env (set_download_limit api l1 1)\<rparr>)))))"

definition b_init_fuse :: "string list \<Rightarrow> fault + string list" where
  "b_init_fuse argv =
     (case arg argv 0 of Inl f \<Rightarrow> Inl f | Inr a0 \<Rightarrow>
      case arg argv 2 of Inl f \<Rightarrow> Inl f | Inr a1 \<Rightarrow>
      case strcpy_into 8 ''-d'' of Inl f \<Rightarrow> Inl f | Inr a2 \<Rightarrow>
      case strcpy_into 8 ''-f'' of Inl f \<Rightarrow> Inl f | Inr a3 \<Rightarrow> Inr [a0, a1, a2, a3])"

definition usage :: "string list" where
  "usage = [''1/0 to enable/ disable caching.'',
     ''Usage: ./bitFS <torrent-file-path> <mount-point> <enable-caching-option>'']"

text \<open>\<open>main\<close>: the exit code, the lines printed before FUSE starts, and the world.\<close>

definition bitfs_main ::
  "(string list \<Rightarrow> string \<Rightarrow> 'w \<Rightarrow> int \<times> 'w) \<Rightarrow> string list \<Rightarrow> 'w \<Rightarrow> fault + (int \<times> string list \<times> 'w)" where
  "bitfs_main fuse_main argv w =
     (if length argv \<noteq> 4 then Inr (0, usage, w)
      else case b_init_fuse argv of Inl f \<Rightarrow> Inl f | Inr fuse_args \<Rightarrow>
        case arg argv 1 of Inl f \<Rightarrow> Inl f | Inr data \<Rightarrow> Inr (0, [], snd (fuse_main fuse_args data w)))"

section \<open>The copies agree\<close>

lemma b_deref: "b_deref_tmeta st = deref_tmeta (fs_of st)" "b_deref_ti st = deref_ti (fs_of st)"
  by (auto simp: b_deref_tmeta_def b_deref_ti_def deref_tmeta_def deref_ti_def fs_of_def
      getTMeta_def getAddTorrentParams_def split: option.splits sum.splits)

lemma b_get_file_index_eq: "b_get_file_index p st = get_file_index p (fs_of st)"
  by (simp add: b_get_file_index_def get_file_index_def b_deref)

lemma b_get_file_size_eq: "b_get_file_size i st = get_file_size i (fs_of st)"
  by (simp add: b_get_file_size_def get_file_size_def b_deref)

lemma b_tables: "b_has_file st p = has_file (fs_tables (fs_of st)) p" "b_has_dir st p = has_dir (fs_tables (fs_of st)) p"
  by (simp_all add: b_has_file_def b_has_dir_def has_file_def has_dir_def fs_of_def)

lemma b_get_piece_buffers_eq: "b_get_piece_buffers = get_piece_buffers"
  by (simp add: fun_eq_iff b_get_piece_buffers_def get_piece_buffers_def)

lemma b_wait_loop_eq: "wait_loop api p h l m = Some r \<Longrightarrow> b_wait_loop api p h l m = Some r"
proof (induction rule: wait_loop.raw_induct [rotated, consumes 1, case_names step])
  case (step loop api p h l m r)
  show ?case using step
    by (subst b_wait_loop.simps) (auto simp: b_get_piece_buffers_eq split: if_splits prod.splits)
qed

lemma b_buffer_loop_eq: "buffer_loop api p h l m = Some r \<Longrightarrow> b_buffer_loop api p h l m = Some r"
proof (induction rule: buffer_loop.raw_induct [rotated, consumes 1, case_names step])
  case (step loop api p h l m r)
  show ?case using step
    by (subst b_buffer_loop.simps) (auto simp: b_get_piece_buffers_eq split: if_splits prod.splits)
qed

section \<open>The loops meet their contracts\<close>

lemma b_raise_wanted:
  assumes "lt_ok api v D" "v_inv v l"
  shows "keeps_wanted v l (b_raise api ti p l) \<and> wanted v (b_raise api ti p l) p"
proof -
  define l1 where "l1 = piece_priority api l p 7"
  have 1: "keeps_wanted v l l1" "wanted v l1 p"
    unfolding l1_def by (rule priority_keeps_wanted [OF assms], simp)+
  then have i1: "v_inv v l1" by (simp add: keeps_wanted_def)
  have "keeps_wanted v l1 (piece_priority api l1 (p + 1) 7)"
    using priority_keeps_wanted(1) [OF assms(1) i1] by simp
  then have "keeps_wanted v l1 (b_raise api ti p l)"
    using keeps_wanted_refl [OF i1] by (simp add: b_raise_def l1_def Let_def)
  then have k: "keeps_wanted v l1 (b_raise api ti p l)" .
  have "wanted v (b_raise api ti p l) p" using 1(2) k by (simp add: keeps_wanted_def)
  with keeps_wanted_trans [OF 1(1) k] show ?thesis ..
qed

interpretation b_plan: planner
  "\<lambda>(api, v, D). lt_ok api v D"
  "\<lambda>(api, v, D). keeps_wanted v"
  "\<lambda>(api, v, D). wanted v"
  "\<lambda>(api, v, D) ti idx off rem l. b_raise api ti (chunk_piece ti idx off rem) l"
  "\<lambda>(api, v, D). b_plan_loop api"
proof (unfold_locales, goal_cases)
  case (1 c s ti idx off rem)
  obtain api v D where c: "c = (api, v, D)" by (metis prod_cases3)
  have "lt_ok api v D" "v_inv v s" using 1 by (simp_all add: c keeps_wanted_def)
  from b_raise_wanted [OF this] show ?case by (simp add: c)
next
  case (2 c s s1 s2)
  then show ?case by (auto split: prod.splits intro: keeps_wanted_trans)
next
  case (3 c s s1)
  then show ?case by (auto split: prod.splits simp: keeps_wanted_def no_loss_def)
next
  case (4 c s s1 p)
  then show ?case by (auto split: prod.splits simp: keeps_wanted_def)
next
  case (5 c ti idx off rem s)
  then show ?case by (auto split: prod.splits simp: b_plan_loop.simps [of _ ti idx off rem])
qed

text \<open>What one operation does to the statistics.\<close>

definition stat_after :: "session_stat \<Rightarrow> session_stat \<Rightarrow> bool" where
  "stat_after s s' \<longleftrightarrow> start_time s' = start_time s \<and> file_size s' = file_size s \<and>
     (cache_hit_counter s = piece_download_counter s \<longrightarrow> cache_hit_counter s' = piece_download_counter s')"

lemma stat_after: "stat_after s s" "stat_after s (count_hit s)"
    "stat_after s s1 \<Longrightarrow> stat_after s1 s2 \<Longrightarrow> stat_after s s2"
  by (simp_all add: stat_after_def count_hit_def)

definition b_keeps :: "'l lt_view \<Rightarrow> (int \<Rightarrow> byte list) \<Rightarrow> 'l \<times> cache \<times> session_stat \<Rightarrow>
    'l \<times> cache \<times> session_stat \<Rightarrow> bool" where
  "b_keeps v D x x' \<longleftrightarrow> (case x of (l, m, s) \<Rightarrow> case x' of (l', m', s') \<Rightarrow>
     keeps_wanted v l l' \<and> cache_ok D m' \<and> stat_after s s')"

lemma b_wait_total:
  assumes "lt_ok api v D" "v_inv v l" "cache_ok D m"
  shows "\<exists>l' m' s'. b_wait_for_piece_download api p l m s = Some (l', m', s') \<and> keeps_wanted v l l' \<and>
    cache_ok D m' \<and> v_eta v l' p = 0 \<and> stat_after s s'"
proof -
  obtain h l1 where h: "have_piece api l p = (h, l1)" by fastforce
  note h1 = have_piece_after [OF assms(1,2) h]
  have k1: "keeps_wanted v l l1" using h1(1) by (rule after_keeps_wanted)
  show ?thesis
  proof (cases h)
    case True
    then have "v_eta v l1 p = 0" using h1 lt_after_complete by auto
    then show ?thesis using True h k1 assms(3) stat_after(2) by (auto simp: b_wait_for_piece_download_def)
  next
    case False
    define l2 where "l2 = piece_priority api l1 p 7"
    obtain hve l3 where h3: "have_piece api l2 p = (hve, l3)" by fastforce
    have i1: "v_inv v l1" using k1 by (simp add: keeps_wanted_def)
    have k2: "keeps_wanted v l1 l2"
      using priority_keeps_wanted(1) [OF assms(1) i1] by (simp add: l2_def)
    have p2: "0 < v_prio v l2 p"
      using piece_priority_after(2) [OF assms(1) i1] by (simp add: l2_def)
    have i2: "v_inv v l2" using k2 by (simp add: keeps_wanted_def)
    note a3 = have_piece_after [OF assms(1) i2 h3]
    have "if hve then v_eta v l3 p = 0 else 0 < v_prio v l3 p"
      using a3 p2 lt_after_complete [OF a3(1)] by (simp add: lt_after_def)
    moreover have "v_inv v l3" using a3(1) by (simp add: lt_after_def)
    ultimately obtain l4 m4 where w: "wait_loop api p hve l3 m = Some (l4, m4)" "lt_after v l3 l4"
        "cache_ok D m4" "v_eta v l4 p = 0"
      using wait_loop_total [OF assms(1) _ assms(3)] by blast
    have "keeps_wanted v l l4"
      by (rule keeps_wanted_trans [OF keeps_wanted_trans [OF k1 k2]
            keeps_wanted_trans [OF after_keeps_wanted [OF a3(1)] after_keeps_wanted [OF w(2)]]])
    then show ?thesis
      using False h h3 b_wait_loop_eq [OF w(1)] w(3,4) stat_after(1)
      by (auto simp: b_wait_for_piece_download_def l2_def [symmetric])
  qed
qed

definition b_obtain :: "'l lt_api \<Rightarrow> int \<Rightarrow> 'l \<times> cache \<times> session_stat \<Rightarrow>
    (byte list option \<times> 'l \<times> cache \<times> session_stat) option" where
  "b_obtain api p x =
     (case x of (l, m, s) \<Rightarrow>
      case b_wait_for_piece_download api p l m s of None \<Rightarrow> None
      | Some (l1, m1, s1) \<Rightarrow>
        (case b_buffer_loop api p (m1 p \<noteq> None) (if m1 p = None then read_piece api l1 p else l1) m1 of
           None \<Rightarrow> None | Some (l3, m3) \<Rightarrow> Some (m3 p, l3, m3, s1)))"

lemma b_copy_round_step:
  "b_copy_round api ti idx off rem rp temp buf x = copy_step (b_obtain api) ti idx off rem rp temp buf x"
  by (auto simp: b_copy_round_def copy_step_def b_obtain_def Let_def
      split: prod.splits option.splits sum.splits)

lemma b_obtain_total:
  assumes "lt_ok api v D" "b_keeps v D x x"
  shows "\<exists>x'. b_obtain api p x = Some (Some (D p), x') \<and> b_keeps v D x x'"
proof -
  obtain l m s where x: "x = (l, m, s)" by (metis prod_cases3)
  have i: "v_inv v l" "cache_ok D m" using assms(2) by (simp_all add: x b_keeps_def keeps_wanted_def)
  obtain l1 m1 s1 where w: "b_wait_for_piece_download api p l m s = Some (l1, m1, s1)"
      "keeps_wanted v l l1" "cache_ok D m1" "v_eta v l1 p = 0" "stat_after s s1"
    using b_wait_total [OF assms(1) i] by blast
  have "v_inv v l1" using w(2) by (simp add: keeps_wanted_def)
  then obtain l3 m3 where f: "fetch_piece_buffer api p l1 m1 = Some (l3, m3)" "lt_after v l1 l3"
      "cache_ok D m3" "m3 p = Some (D p)"
    using fetch_total [OF assms(1) _ w(3,4)] by blast
  have "b_buffer_loop api p (m1 p \<noteq> None) (if m1 p = None then read_piece api l1 p else l1) m1 = Some (l3, m3)"
    using f(1) by (intro b_buffer_loop_eq) (auto simp: fetch_piece_buffer_def Let_def split: if_splits)
  then show ?thesis
    using w(1,5) f(3,4) keeps_wanted_trans [OF w(2) after_keeps_wanted [OF f(2)]]
    by (simp add: b_obtain_def x b_keeps_def)
qed

interpretation b_copy: copier
  "\<lambda>(api, v, D). lt_ok api v D"
  "\<lambda>(api, v, D). b_keeps v D"
  "\<lambda>(api, v, D) x p. True"
  "\<lambda>(api, v, D). D"
  "\<lambda>(api, v, D). b_obtain api"
  "\<lambda>(api, v, D). b_copy_loop api"
proof (unfold_locales, goal_cases)
  case (1 c s p)
  obtain api v D where c: "c = (api, v, D)" by (metis prod_cases3)
  have "lt_ok api v D" "b_keeps v D s s" using 1 by (simp_all add: c)
  from b_obtain_total [OF this] show ?case by (simp add: c)
next
  case (2 c s s1 s2)
  then show ?case
    by (auto split: prod.splits simp: b_keeps_def intro: keeps_wanted_trans stat_after(3))
next
  case (3 c s s1)
  then show ?case
    by (auto split: prod.splits simp: b_keeps_def stat_after(1) keeps_wanted_def no_loss_def)
next
  case (4 c s s1 p)
  then show ?case by (simp split: prod.splits)
next
  case (5 c ti idx off rem rp temp buf s)
  obtain api v D where c: "c = (api, v, D)" by (metis prod_cases3)
  show ?case
    unfolding c
    by (simp add: b_copy_loop.simps [of api ti idx off rem] b_copy_round_step)
      (auto split: option.splits sum.splits)
qed

section \<open>Reading a file\<close>

lemma fs_of_set_mutex: "fs_of (b_set_mutex b st) = set_mutex b (fs_of st)"
  by (simp add: fs_of_def b_set_mutex_def set_mutex_def)

lemma fs_of_frame:
  "fs_of (st\<lparr>b_session := l\<rparr>) = (fs_of st)\<lparr>session := l\<rparr>"
  "fs_of (st\<lparr>b_buffers := m\<rparr>) = (fs_of st)\<lparr>piece_buffer_map := m\<rparr>"
  "fs_of (st\<lparr>stats := s\<rparr>) = fs_of st"
  by (simp_all add: fs_of_def)

lemma b_set_mutex_fields [simp]:
  "b_buffers (b_set_mutex b st) = b_buffers st" "b_session (b_set_mutex b st) = b_session st"
  "stats (b_set_mutex b st) = stats st" "b_tables (b_set_mutex b st) = b_tables st"
  by (simp_all add: b_set_mutex_def)

text \<open>What holds between two operations, apart from the statistics.\<close>

definition b_serving ::
  "(string \<Rightarrow> string list) \<Rightarrow> torrent_info \<Rightarrow> byte list \<Rightarrow> 'l lt_view \<Rightarrow> 'l bitfs_state \<Rightarrow> bool" where
  "b_serving split ti content v st \<longleftrightarrow>
     mounted split ti (fs_of st) \<and> \<not> mutex_held (fs_of st) \<and> v_inv v (b_session st) \<and>
     cache_ok (piece_data ti content) (b_buffers st)"

lemma limit_keeps:
  assumes "lt_ok api v D" "v_inv v l"
  shows "keeps_wanted v l (set_download_limit api l n)"
  using set_download_limit_after [OF assms] by (rule after_keeps_wanted)

lemma bitfs_read_delivers:
  assumes "ti_ok ti" "content_ok ti content" "lt_ok api v (piece_data ti content)"
    and "b_serving split ti content v st"
    and "b_get_file_index path st = Inr i" "valid_file ti i" "ti_file_size ti i \<le> INT_MAX"
    and "uint n \<le> INT_MAX" "0 \<le> sint off" "int (length buf) = uint n"
  shows "\<exists>st'. bitfs_read api path buf n off st = Some (Inr
      (int (length (requested ti content i (sint off) (uint n))),
       map Some (requested ti content i (sint off) (uint n)) @
         drop (length (requested ti content i (sint off) (uint n))) buf, st')) \<and>
    b_serving split ti content v st' \<and> stat_after (stats st) (stats st')"
proof -
  let ?F = "file_data ti content i" and ?fs = "ti_file_size ti i" and ?o = "sint off"
  let ?req = "requested ti content i ?o (uint n)" and ?D = "piece_data ti content"
  have m: "mounted split ti (fs_of st)" "\<not> mutex_held (fs_of st)" "v_inv v (b_session st)" "cache_ok ?D (b_buffers st)"
    using assms(4) by (simp_all add: b_serving_def)
  obtain tm where tm: "b_deref_tmeta st = Inr tm" "thandle tm = TorrentHandle ti"
    using m(1) by (auto simp: mounted_def b_deref split: sum.splits)
  have unl: "\<not> fsmtx tm" using m(2) tm by (simp add: mutex_held_def b_deref)
  have fs0: "0 \<le> ?fs" using assms(1,6) by (simp add: ti_ok_def)
  have size: "b_get_file_size i st = Inr ?fs"
    using mounted_ti [OF m(1)] assms(6,7) fs0
    by (simp add: b_get_file_size_eq get_file_size_def cast_simps)
  have "0 \<le> uint n" by simp
  then have cn: "int_cast (uint n) = uint n" using assms(8) by (intro int_cast_id) linarith+
  note start = tm assms(5) size
  show ?thesis
  proof (cases "?fs \<le> ?o")
    case True
    then have "?req = []" using file_data_length [OF assms(1,2,6)] assms(9) by (simp add: requested_def)
    then show ?thesis using start True assms(4) stat_after(1) by (auto simp: bitfs_read_def Let_def)
  next
    case False
    have co: "int_cast ?o = ?o" using False assms(7,9) by (simp add: cast_simps)
    let ?rem = "min (uint n) (?fs - ?o)"
    have rem: "?o + ?rem \<le> ?fs" "0 \<le> ?rem" using False by simp_all
    let ?l0 = "set_download_limit api (b_session st) (1024 * 1024)"
    have "v_inv v ?l0" using limit_keeps [OF assms(3) m(3)] by (simp add: keeps_wanted_def)
    then have "keeps_wanted v ?l0 ?l0" by (rule keeps_wanted_refl)
    then obtain l1 where p: "b_plan_loop api ti i ?o ?rem ?l0 = Some l1" "keeps_wanted v ?l0 l1"
      using b_plan.loop_marks [of "(api, v, ?D)" ti i ?o ?rem ?l0] assms(1,3,6,9) rem(1) by auto
    have "b_keeps v ?D (l1, b_buffers st, stats st) (l1, b_buffers st, stats st)"
      using p(2) m(4) stat_after(1) by (simp add: b_keeps_def keeps_wanted_def no_loss_def)
    then obtain l2 m2 s2 where c: "b_copy_loop api ti i ?o ?rem 0
          (replicate (nat (ti_piece_length ti)) None) buf (l1, b_buffers st, stats st) =
        Some (Inr (0 + max 0 ?rem, take (nat 0) buf @
          map Some (take (nat ?rem) (drop (nat ?o) ?F)) @ drop (nat (0 + max 0 ?rem)) buf, l2, m2, s2))"
        and k: "b_keeps v ?D (l1, b_buffers st, stats st) (l2, m2, s2)"
      using b_copy.loop_copies [of "(api, v, ?D)" ti content i ?o ?rem "(l1, b_buffers st, stats st)"
          "replicate (nat (ti_piece_length ti)) None" 0 buf] assms(1,2,3,6,9,10) rem(1) by auto
    have "?o < ?fs" using False by simp
    note req = requested_range [OF assms(1,2,6,9) this uint_ge_0 [of n] refl]
    let ?l3 = "set_download_limit api l2 1"
    let ?st' = "b_set_mutex False ((b_set_mutex True st)\<lparr>b_session := ?l3, b_buffers := m2, stats := s2\<rparr>)"
    have read: "bitfs_read api path buf n off st = Some (Inr (?rem, map Some ?req @ drop (nat ?rem) buf, ?st'))"
      using start p(1) c unl False rem(2) by (simp add: bitfs_read_def Let_def cn co req(1))
    have k2: "v_inv v l2" "cache_ok ?D m2" "stat_after (stats st) s2"
      using k by (simp_all add: b_keeps_def keeps_wanted_def)
    have "v_inv v ?l3" using limit_keeps [OF assms(3) k2(1)] by (simp add: keeps_wanted_def)
    moreover have "fs_of ?st' = set_mutex False ((set_mutex True (fs_of st))\<lparr>session := ?l3, piece_buffer_map := m2\<rparr>)"
      by (simp only: fs_of_set_mutex fs_of_frame)
    ultimately have "b_serving split ti content v ?st'"
      using mounted_after_read [OF m(1), where l = ?l3 and m = m2] k2 by (simp add: b_serving_def)
    with read show ?thesis using k2(3) req(2,3) by auto
  qed
qed

text \<open>A sequence of reads, each with its path, buffer, size and offset.\<close>

fun b_read_all ::
  "'l lt_api \<Rightarrow> (string \<times> mem \<times> 64 word \<times> 64 word) list \<Rightarrow> 'l bitfs_state \<Rightarrow> ('l bitfs_state) outcome" where
  "b_read_all api [] st = Some (Inr st)"
| "b_read_all api ((p, buf, n, off) # rs) st =
     (case bitfs_read api p buf n off st of None \<Rightarrow> None | Some (Inl f) \<Rightarrow> Some (Inl f)
      | Some (Inr (r, buf', st')) \<Rightarrow> b_read_all api rs st')"

text \<open>
  A read FUSE can make: of a file of the torrent, when all files are below 2 GiB, with an offset that is
  not negative and a buffer of the requested size.
\<close>

definition read_ok :: "torrent_info \<Rightarrow> string \<times> mem \<times> 64 word \<times> 64 word \<Rightarrow> bool" where
  "read_ok ti c \<longleftrightarrow> (case c of (p, buf, n, off) \<Rightarrow>
     (\<exists>q. p = CHR ''/'' # q \<and> q \<in> set (file_paths ti)) \<and>
     (\<forall>i\<in>set (map int [0..<nat (ti_num_files ti)]). ti_file_size ti i \<le> INT_MAX) \<and>
     uint n \<le> INT_MAX \<and> 0 \<le> sint off \<and> int (length buf) = uint n)"

lemma request_index:
  assumes "mounted split ti (fs_of st)" "paths_ok ti" "read_ok ti (p, buf, n, off)"
  shows "\<exists>i. b_get_file_index p st = Inr i \<and> valid_file ti i \<and> ti_file_size ti i \<le> INT_MAX \<and>
    uint n \<le> INT_MAX \<and> 0 \<le> sint off \<and> int (length buf) = uint n"
proof -
  obtain q where q: "p = CHR ''/'' # q" "q \<in> set (file_paths ti)"
    and sz: "\<forall>i\<in>set (map int [0..<nat (ti_num_files ti)]). ti_file_size ti i \<le> INT_MAX"
    using assms(3) by (auto simp: read_ok_def)
  obtain i where i: "get_file_index p (fs_of st) = Inr i" "valid_file ti i"
    using get_file_index_found [OF assms(1,2) q(2)] q(1) by blast
  have "i \<in> set (map int [0..<nat (ti_num_files ti)])"
    using i(2) by (auto simp: valid_file_def image_iff intro!: bexI [of _ "nat i"])
  then show ?thesis using i sz assms(3) by (auto simp: b_get_file_index_eq read_ok_def)
qed

lemma b_read_all_total:
  assumes "ti_ok ti" "content_ok ti content" "lt_ok api v (piece_data ti content)" "paths_ok ti"
    and "b_serving split ti content v st"
    and "\<forall>c\<in>set rs. read_ok ti c"
  shows "\<exists>st'. b_read_all api rs st = Some (Inr st') \<and> b_serving split ti content v st' \<and>
    stat_after (stats st) (stats st')"
  using assms(5,6)
proof (induction rs arbitrary: st)
  case Nil
  then show ?case by (simp add: stat_after(1))
next
  case (Cons r rs)
  obtain p buf n off where r: "r = (p, buf, n, off)" by (metis prod_cases4)
  have "mounted split ti (fs_of st)" using Cons.prems(1) by (simp add: b_serving_def)
  moreover have "read_ok ti (p, buf, n, off)" using Cons.prems(2) r by simp
  ultimately obtain i where i: "b_get_file_index p st = Inr i" "valid_file ti i" "ti_file_size ti i \<le> INT_MAX"
      "uint n \<le> INT_MAX" "0 \<le> sint off" "int (length buf) = uint n"
    using request_index [OF _ assms(4)] by blast
  obtain k buf' st1 where 1: "bitfs_read api p buf n off st = Some (Inr (k, buf', st1))"
      "b_serving split ti content v st1" "stat_after (stats st) (stats st1)"
    using bitfs_read_delivers [OF assms(1-3) Cons.prems(1) i] by blast
  obtain st2 where 2: "b_read_all api rs st1 = Some (Inr st2)" "b_serving split ti content v st2"
      "stat_after (stats st1) (stats st2)"
    using Cons.IH [OF 1(2)] Cons.prems(2) by auto
  show ?case using 1(1) 2(1,2) stat_after(3) [OF 1(3) 2(3)] by (simp add: r)
qed

lemma int_div_100: "0 < n \<Longrightarrow> int_div (n * 100) n = Inr 100"
  by (simp add: int_div_def sgn_mult abs_mult)

lemma megabytes_ok: "\<exists>k. megabytes n = Inr k"
  by (simp add: megabytes_def int_div_def)

lemma display_stats_rate:
  assumes "b_deref_ti st = Inr ti" "cache_hit_counter (stats st) = piece_download_counter (stats st)"
  shows "piece_download_counter (stats st) = 0 \<Longrightarrow> display_stats now st = Inl DivisionByZero"
    and "0 < piece_download_counter (stats st) \<Longrightarrow> piece_download_counter (stats st) * 100 \<le> INT_MAX \<Longrightarrow>
      \<exists>d st'. display_stats now st = Inr (d, st') \<and> cache_hit_rate (stats st') = 100"
proof -
  let ?n = "piece_download_counter (stats st)"
  obtain k where k: "megabytes (int_cast (?n * ti_piece_length ti)) = Inr k" using megabytes_ok by blast
  obtain t where t: "megabytes (file_size (stats st)) = Inr t" using megabytes_ok by blast
  show "?n = 0 \<Longrightarrow> display_stats now st = Inl DivisionByZero"
    using assms k by (simp add: display_stats_def Let_def int_div_def)
  show "\<exists>d st'. display_stats now st = Inr (d, st') \<and> cache_hit_rate (stats st') = 100"
    if "0 < ?n" "?n * 100 \<le> INT_MAX"
  proof -
    have "int_cast (?n * 100) = ?n * 100" using that by (intro int_cast_id) linarith+
    then show ?thesis using assms k t that int_div_100 [OF that(1)]
      by (simp add: display_stats_def Let_def)
  qed
qed

text \<open>A mounted state and an environment for the witnesses.\<close>

definition zero_stats :: session_stat where
  "zero_stats = \<lparr>start_time = 0, end_time = 0, piece_download_counter = 0, download_size = 0,
     file_size = 0, cache_hit_counter = 0, cache_hit_rate = 0\<rparr>"

definition demo_bitfs :: "sim bitfs_state" where
  "demo_bitfs = \<lparr>b_meta = fsmeta demo_mount, b_tables = fs_tables demo_mount,
     b_buffers = piece_buffer_map demo_mount, b_session = session demo_mount,
     stats = zero_stats, enable_caching = 0\<rparr>"

lemma demo_bitfs_fs: "fs_of demo_bitfs = demo_mount"
  by (simp add: fs_of_def demo_bitfs_def demo_mount_def mk_mounted_def)

lemma demo_bitfs_serving: "b_serving split_slash demo_ti demo_content sim_view demo_bitfs"
  unfolding b_serving_def demo_bitfs_fs using demo_mounted demo_cache(1)
  by (simp add: demo_bitfs_def)

definition demo_benv :: "sim bitfs_env" where
  "demo_benv = \<lparr>be_unique_path = (\<lambda>s. ''/tmp/a''), be_split = split_slash,
     be_load_torrent = (\<lambda>p. (demo_ti, 0)), be_new_session = (\<lambda>s fl. sim_init),
     be_add_torrent = (\<lambda>p l. (TorrentHandle demo_ti, 0, l)), be_resume = (\<lambda>l. l)\<rparr>"

definition b_start :: "'l \<Rightarrow> 'l bitfs_state" where
  "b_start l = \<lparr>b_meta = None, b_tables = empty_tables, b_buffers = (\<lambda>_. None), b_session = l,
     stats = zero_stats, enable_caching = 0\<rparr>"

section \<open>Properties\<close>

text \<open>
  C11: \<open>bitfs_read\<close> and \<open>FS::read\<close> deliver the same. Although the one asks for every piece of
  the range again and changes the download limit, and the other asks only for missing pieces
  and lowers neighbours, both return the same count and leave the same buffer, which holds
  exactly the requested bytes of the file, and the state stays good.
\<close>

theorem bitfs_read_same:
  assumes "split_ok split" "paths_ok ti" "ti_ok ti" "content_ok ti content"
    and "lt_ok api v (piece_data ti content)" "b_serving split ti content v st"
    and "b_get_file_index path st = Inr i" "valid_file ti i" "ti_file_size ti i \<le> INT_MAX"
    and "uint n \<le> INT_MAX" "0 \<le> sint off" "int (length buf) = uint n"
  shows "\<exists>k buf' st1 st2. fs_read api path buf n off (fs_of st) = Some (Inr (k, buf', st1)) \<and>
    bitfs_read api path buf n off st = Some (Inr (k, buf', st2)) \<and>
    k = int (length (requested ti content i (sint off) (uint n))) \<and>
    take (nat k) buf' = map Some (requested ti content i (sint off) (uint n)) \<and>
    b_serving split ti content v st2"
proof -
  have m: "mounted split ti (fs_of st)" "v_inv v (session (fs_of st))"
      "cache_ok (piece_data ti content) (piece_buffer_map (fs_of st))" "\<not> mutex_held (fs_of st)"
    using assms(6) by (simp_all add: b_serving_def fs_of_def)
  have i: "get_file_index path (fs_of st) = Inr i" using assms(7) by (simp add: b_get_file_index_eq)
  show ?thesis
    using fs_read_delivers [OF m(1) assms(1-5) m(2-4) i assms(8-12)]
      bitfs_read_delivers [OF assms(3,4,5,6,7,8-12)] by auto
qed

theorem bitfs_read_same_witness:
  "\<exists>st1 st2. fs_read demo_api ''/a/c'' [None, None] 2 0 demo_mount = Some (Inr (2, [Some 15, Some 16], st1)) \<and>
     bitfs_read demo_api ''/a/c'' [None, None] 2 0 demo_bitfs = Some (Inr (2, [Some 15, Some 16], st2))"
proof -
  have r: "requested demo_ti demo_content 1 0 2 = [15, 16]" by code_simp
  have i: "b_get_file_index ''/a/c'' demo_bitfs = Inr 1"
    using demo_index(1) by (simp add: b_get_file_index_eq demo_bitfs_fs)
  have len: "int (length [None, None :: byte option]) = uint (2 :: 64 word)" "uint (2 :: 64 word) \<le> INT_MAX"
      "0 \<le> sint (0 :: 64 word)"
    by (simp_all add: INT_MAX_def)
  obtain k buf' st1 st2 where f: "fs_read demo_api ''/a/c'' [None, None] 2 0 (fs_of demo_bitfs) = Some (Inr (k, buf', st1))"
      and b: "bitfs_read demo_api ''/a/c'' [None, None] 2 0 demo_bitfs = Some (Inr (k, buf', st2))"
      and k: "k = 2" "take (nat k) buf' = [Some 15, Some 16]"
    using bitfs_read_same [OF split_slash_ok demo_ok(2,1) demo_content_ok
        sim_ok [of "piece_data demo_ti demo_content", folded demo_api_def] demo_bitfs_serving i
        demo_index(2,4) len(2,3,1)] r by auto
  obtain st3 where "bitfs_read demo_api ''/a/c'' [None, None] 2 0 demo_bitfs = Some (Inr
      (2, map Some [15, 16] @ drop 2 [None, None], st3))"
    using bitfs_read_delivers [OF demo_ok(1) demo_content_ok
        sim_ok [of "piece_data demo_ti demo_content", folded demo_api_def] demo_bitfs_serving i
        demo_index(2,4) len(2,3,1)] r by auto
  then show ?thesis using f b by (simp add: demo_bitfs_fs)
qed

text \<open>
  C13: the directory operations of the two programs agree, except for one field: where
  \<open>FS::getattr\<close> reports the size of the file, \<open>bitfs_getattr\<close> reports the size of the whole
  torrent for each of its files.
\<close>

theorem bitfs_operations_agree:
  assumes "mounted split ti (fs_of st)" "split_ok split" "paths_ok ti"
  shows "bitfs_open p st = fs_open p (fs_of st) \<and>
    (\<exists>r b st'. bitfs_readdir filler p buf st = (r, b, st') \<and> readdir filler p buf (fs_of st) = (r, b, fs_of st')) \<and>
    (\<exists>r a. getattr p (fs_of st) = Inr (r, a) \<and>
      bitfs_getattr p st = Inr (r, if r = 0 \<and> st_nlink a = 1 then a\<lparr>st_size := ti_total_size ti\<rparr> else a))"
proof (intro conjI)
  show "bitfs_open p st = fs_open p (fs_of st)"
    by (simp add: bitfs_open_def fs_open_def b_tables)
  show "\<exists>r b st'. bitfs_readdir filler p buf st = (r, b, st') \<and> readdir filler p buf (fs_of st) = (r, b, fs_of st')"
    by (simp add: bitfs_readdir_def readdir_def b_tables table_path_def Let_def children_def)
      (simp add: fs_of_def)
  obtain r a where g: "getattr p (fs_of st) = Inr (r, a)"
    using getattr_no_fault [OF assms] by blast
  have "bitfs_getattr p st = Inr (r, if r = 0 \<and> st_nlink a = 1 then a\<lparr>st_size := ti_total_size ti\<rparr> else a)"
    using g mounted_ti [OF assms(1)]
    by (auto simp: getattr_def bitfs_getattr_def b_tables b_deref table_path_def Let_def ENOENT_def
        split: if_splits sum.splits)
  then show "\<exists>r a. getattr p (fs_of st) = Inr (r, a) \<and>
      bitfs_getattr p st = Inr (r, if r = 0 \<and> st_nlink a = 1 then a\<lparr>st_size := ti_total_size ti\<rparr> else a)"
    using g by blast
qed

theorem bitfs_operations_agree_witness:
  "bitfs_open ''/d'' demo_bitfs = fs_open ''/d'' demo_mount \<and>
   (\<exists>a. getattr ''/d'' demo_mount = Inr (0, a) \<and> st_size a = 4 \<and>
     bitfs_getattr ''/d'' demo_bitfs = Inr (0, a\<lparr>st_size := 12\<rparr>))"
proof -
  have m: "mounted split_slash demo_ti (fs_of demo_bitfs)" using demo_mounted(1) by (simp add: demo_bitfs_fs)
  have nodir: "\<not> has_dir (fs_tables demo_mount) (''/'' @ ''d'' @ ''/'')"
    unfolding mounted_tables [OF demo_mounted(1) split_slash_ok] has_dir_filled [OF split_slash_ok]
    by (simp add: demo_paths dirpath_def Ex_less_Suc2)
  have t: "ti_total_size demo_ti = 12" "ti_num_files demo_ti = 3"
      "ti_file_path demo_ti 0 = ''a/b''" "ti_file_path demo_ti 1 = ''a/c''"
      "ti_file_size demo_ti 2 = 4"
    by (simp_all add: demo_ti_def layout_def Let_def)
  obtain i where i: "valid_file demo_ti i" "ti_file_path demo_ti i = ''d''"
    and g: "getattr ''/d'' demo_mount = Inr (0, zero_stat\<lparr>st_mode := or S_IFREG 0x124,
      st_nlink := 1, st_size := int_cast (ti_file_size demo_ti i)\<rparr>)"
    using getattr_file [OF demo_mounted(1) split_slash_ok demo_ok(2), of "''d''"] nodir by (auto simp: demo_paths)
  have "i = 0 \<or> i = 1 \<or> i = 2" using i(1) t(2) by (auto simp: valid_file_def)
  then have "i = 2" using i(2) t(3,4) by auto
  then show ?thesis
    using bitfs_operations_agree [OF m split_slash_ok demo_ok(2), of "''/d''" "\<lambda>b s. b" "()"] g t(1,5)
    by (auto simp: demo_bitfs_fs int_cast_id INT_MAX_def)
qed

text \<open>
  C12: the hit rate says nothing. A piece that has to be downloaded is counted in neither
  counter, so after \<open>initialize_stats\<close> the counter of downloads equals the counter of hits
  however many reads follow: \<open>display_stats\<close> then divides by zero when no read hit a piece that
  was already there, and shows a rate of 100 percent otherwise (as long as the counter times
  100 fits an \<open>int\<close>).
\<close>

theorem hit_rate_constant:
  assumes "paths_ok ti" "ti_ok ti" "content_ok ti content"
    and "lt_ok api v (piece_data ti content)" "b_serving split ti content v st"
    and "\<forall>c\<in>set rs. read_ok ti c"
  shows "\<exists>st1 st2. initialize_stats t0 st = Inr st1 \<and> b_read_all api rs st1 = Some (Inr st2) \<and>
    (piece_download_counter (stats st2) = 0 \<longrightarrow> display_stats t1 st2 = Inl DivisionByZero) \<and>
    (0 < piece_download_counter (stats st2) \<and> piece_download_counter (stats st2) * 100 \<le> INT_MAX \<longrightarrow>
      (\<exists>d st3. display_stats t1 st2 = Inr (d, st3) \<and> cache_hit_rate (stats st3) = 100))"
proof -
  have "b_deref_ti st = Inr ti" using assms(5) mounted_ti by (auto simp: b_serving_def b_deref)
  then obtain st1 where 1: "initialize_stats t0 st = Inr st1" "fs_of st1 = fs_of st"
      "cache_hit_counter (stats st1) = piece_download_counter (stats st1)"
    by (simp add: initialize_stats_def fs_of_frame)
  have "b_session st1 = b_session st" "b_buffers st1 = b_buffers st"
    using 1(2) by (simp_all add: fs_of_def)
  then have "b_serving split ti content v st1" using assms(5) 1(2) by (simp add: b_serving_def)
  then obtain st2 where 2: "b_read_all api rs st1 = Some (Inr st2)" "b_serving split ti content v st2"
      "stat_after (stats st1) (stats st2)"
    using b_read_all_total [OF assms(2,3,4,1) _ assms(6)] by blast
  have d: "b_deref_ti st2 = Inr ti" using 2(2) mounted_ti by (auto simp: b_serving_def b_deref)
  have "cache_hit_counter (stats st2) = piece_download_counter (stats st2)"
    using 2(3) 1(3) by (simp add: stat_after_def)
  from display_stats_rate [OF d this] show ?thesis using 1(1) 2(1) by blast
qed

theorem hit_rate_constant_witness:
  "\<exists>st. initialize_stats 100 demo_bitfs = Inr st \<and> display_stats 107 st = Inl DivisionByZero"
proof -
  have ti: "b_deref_ti demo_bitfs = Inr demo_ti"
    using mounted_ti [OF demo_mounted(1)] by (simp add: b_deref demo_bitfs_fs)
  have none: "\<forall>c\<in>set []. read_ok demo_ti c" by simp
  obtain st1 st2 where st: "initialize_stats 100 demo_bitfs = Inr st1" "b_read_all demo_api [] st1 = Some (Inr st2)"
      and d: "piece_download_counter (stats st2) = 0 \<longrightarrow> display_stats 107 st2 = Inl DivisionByZero"
    using hit_rate_constant [OF demo_ok(2,1) demo_content_ok
        sim_ok [of "piece_data demo_ti demo_content", folded demo_api_def] demo_bitfs_serving none,
        of 100 107] by blast
  have "st2 = st1" "piece_download_counter (stats st1) = 0"
    using st ti by (auto simp: initialize_stats_def)
  then show ?thesis using st(1) d by blast
qed

text \<open>
  This \<open>init_bitfs\<close> mounts the same tables and metadata as the one of \<open>FS.cpp\<close>, and leaves
  the session paused no longer and limited to one byte per second; it sets no priority, where
  the later program gives all pieces but the first ten priority 0.
\<close>

theorem bitfs_init_mounts:
  assumes "split_ok (be_split env)" "lt_ok api v D"
    and "be_load_torrent env path = (ti, 0)"
    and "be_add_torrent env (empty_params\<lparr>par_flags := [''flag_paused''],
        par_save_path := be_unique_path env ''/tmp/%%%%-%%%%-%%%%-%%%%'', par_ti := Some ti\<rparr>)
      (be_new_session env (bitfs_settings (\<lambda>_. None)) [''add_default_plugins'', ''start_default_features'']) =
      (TorrentHandle ti, 0, l1)"
    and "v_inv v l1"
    and "\<And>l. v_inv v l \<Longrightarrow> v_inv v (be_resume env l) \<and> v_prio v (be_resume env l) = v_prio v l"
  shows "\<exists>st'. b_init_bitfs env api path (b_start l0) = Inr st' \<and> mounted (be_split env) ti (fs_of st') \<and>
    \<not> mutex_held (fs_of st') \<and> b_session st' = be_resume env (set_download_limit api l1 1) \<and>
    v_inv v (b_session st') \<and> v_prio v (b_session st') = v_prio v l1"
proof -
  obtain t where t: "fill_tables (be_split env) (file_paths ti) empty_tables = Inr t"
    using fill_tables_index [OF assms(1)] by blast
  have "lt_after v l1 (set_download_limit api l1 1)"
    using set_download_limit_after [OF assms(2,5)] .
  then have l: "v_inv v (set_download_limit api l1 1)" "v_prio v (set_download_limit api l1 1) = v_prio v l1"
    by (simp_all add: lt_after_def)
  show ?thesis
    using assms(3,4) t assms(6) [OF l(1)] l(2)
    by (simp add: b_init_bitfs_def Let_def b_start_def b_put_meta_def torrent_metadata_new_def
        mounted_def mutex_held_def deref_tmeta_def getTMeta_def fs_of_def)
qed

theorem bitfs_init_mounts_witness:
  "\<exists>st'. b_init_bitfs demo_benv demo_api ''ok.torrent'' (b_start sim_init) = Inr st' \<and>
     mounted split_slash demo_ti (fs_of st') \<and> v_prio sim_view (b_session st') = s_prio sim_init"
proof -
  have e: "split_ok (be_split demo_benv)" "be_load_torrent demo_benv ''ok.torrent'' = (demo_ti, 0)"
    "be_add_torrent demo_benv (empty_params\<lparr>par_flags := [''flag_paused''],
        par_save_path := be_unique_path demo_benv ''/tmp/%%%%-%%%%-%%%%-%%%%'', par_ti := Some demo_ti\<rparr>)
      (be_new_session demo_benv (bitfs_settings (\<lambda>_. None)) [''add_default_plugins'', ''start_default_features'']) =
      (TorrentHandle demo_ti, 0, sim_init)"
    "\<And>l. v_inv sim_view l \<Longrightarrow> v_inv sim_view (be_resume demo_benv l) \<and>
      v_prio sim_view (be_resume demo_benv l) = v_prio sim_view l"
    by (simp_all add: demo_benv_def split_slash_ok)
  from bitfs_init_mounts [OF e(1) sim_ok [of "piece_data demo_ti demo_content", folded demo_api_def]
      e(2,3) sim_inv e(4), of sim_init]
  show ?thesis by (auto simp: demo_benv_def sim_view_def)
qed

text \<open>
  \<open>main\<close> of \<open>bitFS.cpp\<close> runs FUSE exactly as \<open>client.cpp\<close> does, for every argument vector;
  it differs only in printing the usage when the number of arguments is wrong.
\<close>

theorem bitfs_main_as_client:
  "bitfs_main fm argv w = (case client_main fm argv w of Inl f \<Rightarrow> Inl f
     | Inr (code, w') \<Rightarrow> Inr (code, if length argv = 4 then [] else usage, w'))"
  by (simp add: bitfs_main_def client_main_def b_init_fuse_def init_fuse_def split: sum.splits)

end
