(* ===== verification/Report.thy ===== *)
theory Report
  imports Prelude "HOL-Library.Sublist"
begin

text \<open>
  The texts of \<open>FS.cpp\<close> and \<open>seeder.cpp\<close> for the state of a torrent and the flags of a
  peer. Both files hold a copy of each function.
\<close>

section \<open>The state of a torrent\<close>

definition stat_to_string :: "int \<Rightarrow> string" where
  "stat_to_string num =
    (if num = 1 then ''checking_files''
     else if num = 2 then ''downloading_metadata''
     else if num = 3 then ''downloading''
     else if num = 4 then ''finished''
     else if num = 5 then ''seeding''
     else if num = 6 then ''allocating''
     else if num = 7 then ''checking_resume_data''
     else ''ERROR'')"

definition seeder_stat_to_string :: "int \<Rightarrow> string" where
  "seeder_stat_to_string num =
    (if num = 1 then ''checking_files''
     else if num = 2 then ''downloading_metadata''
     else if num = 3 then ''downloading''
     else if num = 4 then ''finished''
     else if num = 5 then ''seeding''
     else if num = 6 then ''allocating''
     else if num = 7 then ''checking_resume_data''
     else ''ERROR'')"

section \<open>The flags of a peer\<close>

text \<open>
  \<open>get_peer_info_message\<close> appends, for one mask after the other, the mask's text when the
  flags have that bit. The masks and texts in the order of the source:
\<close>

definition peer_flags :: "(int \<times> string) list" where
  "peer_flags =
    [(1, ''we are interested in pieces from this peer || ''),
     (2, ''we have choked this peer || ''),
     (4, ''the peer is interested in us || ''),
     (8, ''the peer has choked us || ''),
     (16, ''peer supports the extension protocol. || ''),
     (32, ''The connection was initiated by us, the peer has a listen port open, and that port is the same as in the address of this peer. If this flag is not set, this peer connection was opened by this peer connecting to us. || ''),
     (64, ''The connection is opened, and waiting for the handshake. Until the handshake is done, the peer cannot be identified. || ''),
     (128, ''The connection is in a half-open state (i.e. it is being connected). || ''),
     (512, ''The peer has participated in a piece that failed the hash check, and is now on parole, which means we're only requesting whole pieces from this peer until it either fails that piece or proves that it doesn't send bad data. || ''),
     (1024, ''This peer is a seed (it has all the pieces). || ''),
     (2048, ''This peer is subject to an optimistic unchoke. It has been unchoked for a while to see if it might unchoke us in message +=  an earn an upload/unchoke slot. If it doesn't within some period of time, it will be choked and another peer will be optimistically unchoked. || ''),
     (4096, ''This peer has recently failed to send a block within the request timeout from when the request was sent. We're currently picking one block at a time from this peer. || ''),
     (8192, ''This peer has either explicitly (with an extension) or implicitly (by becoming a seed) told us that it will not downloading anything more, regardless of which pieces we have. || ''),
     (16384, ''This means the last time this peer picket a piece, it could not pick as many as it wanted because there were not enough free ones. i.e. all pieces this peer has were already requested from other peers. || ''),
     (32768, ''This flag is set if the peer was in holepunch mode when the connection succeeded. This typically only happens if both peers are behind a NAT and the peers connect via the NAT holepunch mechanism. || ''),
     (65536, ''indicates that this socket is runnin on top of the I2P transport. || ''),
     (131072, ''indicates that this socket is a uTP socket || ''),
     (262144, ''indicates that this socket is running on top of an SSL (TLS) channel || ''),
     (1048576, ''this connection is obfuscated with RC4 || ''),
     (2097152, ''the handshake of this connection was obfuscated with a diffie-hellman exchange || '')]"

definition seeder_peer_flags :: "(int \<times> string) list" where
  "seeder_peer_flags =
    [(1, ''we are interested in pieces from this peer || ''),
     (2, ''we have choked this peer || ''),
     (4, ''the peer is interested in us || ''),
     (8, ''the peer has choked us || ''),
     (16, ''peer supports the extension protocol. || ''),
     (32, ''The connection was initiated by us, the peer has a listen port open, and that port is the same as in the address of this peer. If this flag is not set, this peer connection was opened by this peer connecting to us. || ''),
     (64, ''The connection is opened, and waiting for the handshake. Until the handshake is done, the peer cannot be identified. || ''),
     (128, ''The connection is in a half-open state (i.e. it is being connected). || ''),
     (512, ''The peer has participated in a piece that failed the hash check, and is now on parole, which means we're only requesting whole pieces from this peer until it either fails that piece or proves that it doesn't send bad data. || ''),
     (1024, ''This peer is a seed (it has all the pieces). || ''),
     (2048, ''This peer is subject to an optimistic unchoke. It has been unchoked for a while to see if it might unchoke us in message +=  an earn an upload/unchoke slot. If it doesn't within some period of time, it will be choked and another peer will be optimistically unchoked. || ''),
     (4096, ''This peer has recently failed to send a block within the request timeout from when the request was sent. We're currently picking one block at a time from this peer. || ''),
     (8192, ''This peer has either explicitly (with an extension) or implicitly (by becoming a seed) told us that it will not downloading anything more, regardless of which pieces we have. || ''),
     (16384, ''This means the last time this peer picket a piece, it could not pick as many as it wanted because there were not enough free ones. i.e. all pieces this peer has were already requested from other peers. || ''),
     (32768, ''This flag is set if the peer was in holepunch mode when the connection succeeded. This typically only happens if both peers are behind a NAT and the peers connect via the NAT holepunch mechanism. || ''),
     (65536, ''indicates that this socket is runnin on top of the I2P transport. || ''),
     (131072, ''indicates that this socket is a uTP socket || ''),
     (262144, ''indicates that this socket is running on top of an SSL (TLS) channel || ''),
     (1048576, ''this connection is obfuscated with RC4 || ''),
     (2097152, ''the handshake of this connection was obfuscated with a diffie-hellman exchange || '')]"

definition append_flags :: "(int \<times> string) list \<Rightarrow> int \<Rightarrow> string" where
  "append_flags table index = concat (map (\<lambda>(mask, text). if and index mask \<noteq> 0 then text else []) table)"

definition get_peer_info_message :: "int \<Rightarrow> string" where
  "get_peer_info_message index = append_flags peer_flags index"

definition seeder_get_peer_info_message :: "int \<Rightarrow> string" where
  "seeder_get_peer_info_message index = append_flags seeder_peer_flags index"

section \<open>Reading a message back\<close>

text \<open>
  A message is a concatenation of texts of the table. It tells which texts were taken when no
  text of the table is a prefix of another.
\<close>

fun readable :: "string list \<Rightarrow> bool" where
  "readable [] = True"
| "readable (x # xs) = (x \<noteq> [] \<and> (\<forall>y\<in>set xs. \<not> prefix x y \<and> \<not> prefix y x) \<and> readable xs)"

lemma append_flags_Nil: "append_flags [] index = []"
  by (simp add: append_flags_def)

lemma append_flags_Cons:
  "append_flags ((msk, text) # table) index =
    (if and index msk \<noteq> 0 then text @ append_flags table index else append_flags table index)"
  by (simp add: append_flags_def)

lemma append_flags_starts:
  "append_flags table index \<noteq> [] \<Longrightarrow> \<exists>y\<in>set (map snd table). prefix y (append_flags table index)"
proof (induction table)
  case Nil
  then show ?case by (simp add: append_flags_Nil)
next
  case (Cons p table)
  then show ?case by (cases p) (auto simp: append_flags_Cons split: if_splits)
qed

lemma append_flags_clash:
  assumes "readable (x # map snd table)"
  shows "x @ u \<noteq> append_flags table index"
proof
  assume eq: "x @ u = append_flags table index"
  with assms have "append_flags table index \<noteq> []" by auto
  then obtain y where "y \<in> set (map snd table)" and "prefix y (x @ u)"
    using append_flags_starts [of table index] eq by auto
  moreover from this(2) have "prefix y x \<or> prefix x y"
    by (rule prefix_same_cases) (simp add: prefixI)
  ultimately show False using assms by auto
qed

lemma append_flags_read:
  assumes "readable (map snd table)" and "append_flags table a = append_flags table b"
    and "(msk, text) \<in> set table"
  shows "and a msk = 0 \<longleftrightarrow> and b msk = 0"
  using assms
proof (induction table)
  case (Cons p table)
  obtain m x where p: "p = (m, x)" by (cases p)
  note clash = append_flags_clash [of x table]
  have "and a m = 0 \<longleftrightarrow> and b m = 0"
    using Cons.prems p clash [of "append_flags table a" b] clash [of "append_flags table b" a]
    by (auto simp: append_flags_Cons split: if_splits)
  with Cons p show ?case by (auto simp: append_flags_Cons split: if_splits)
qed simp

lemma append_flags_cong:
  assumes "\<And>msk. msk \<in> fst ` set table \<Longrightarrow> and a msk = 0 \<longleftrightarrow> and b msk = 0"
  shows "append_flags table a = append_flags table b"
  using assms by (induction table) (auto simp: append_flags_Cons append_flags_Nil)

lemma peer_flags_readable: "readable (map snd peer_flags)"
  unfolding peer_flags_def by code_simp

lemma mask_bit: "and a (2 ^ k) = 0 \<longleftrightarrow> \<not> bit a k" for a :: int
  by (rule and_exp_eq_0_iff_not_bit)

lemma peer_flags_masks:
  "fst ` set peer_flags = (\<lambda>k. 2 ^ k) ` ({0..21} - {8, 19})"
proof -
  have "{0..21} - {8, 19} = {0, 1, 2, 3, 4, 5, 6, 7, 9, 10, 11, 12, 13, 14, 15, 16, 17, 18, 20, 21 :: nat}"
    by code_simp
  then show ?thesis by (simp add: peer_flags_def)
qed

section \<open>Properties\<close>

text \<open>
  The text of a torrent state tells the state: the seven states have seven different
  texts, and every other number gives \<open>ERROR\<close>. The seeder's copy is the same function.
\<close>

theorem stat_to_string_exact:
  "(stat_to_string n = ''ERROR'' \<longleftrightarrow> n \<notin> {1..7}) \<and>
   (n \<in> {1..7} \<and> stat_to_string n = stat_to_string m \<longrightarrow> n = m) \<and>
   seeder_stat_to_string n = stat_to_string n"
proof -
  have n: "n \<in> {1..7} \<longleftrightarrow> n = 1 \<or> n = 2 \<or> n = 3 \<or> n = 4 \<or> n = 5 \<or> n = 6 \<or> n = 7" for n :: int
    by auto
  show ?thesis
    unfolding n by (simp add: stat_to_string_def seeder_stat_to_string_def)
qed

theorem stat_to_string_exact_witness:
  "stat_to_string 5 \<noteq> stat_to_string 4 \<and> stat_to_string 8 = ''ERROR''"
  using stat_to_string_exact [of 5 4] stat_to_string_exact [of 8 0] by auto

text \<open>
  C21: the message about a peer tells its flags. Two flag words give the same message exactly
  when they agree on each of the twenty bits the function tests (bits 0 to 21 without 8 and
  19), although the texts are joined without a separator of their own. The seeder's copy
  gives the same messages.
\<close>

theorem peer_message_tells_flags:
  "(get_peer_info_message a = get_peer_info_message b \<longleftrightarrow>
     (\<forall>k\<in>{0..21} - {8, 19}. bit a k = bit b k)) \<and>
   seeder_get_peer_info_message a = get_peer_info_message a"
proof
  have masks: "(\<forall>k\<in>{0..21} - {8, 19}. bit a k = bit b k) \<longleftrightarrow>
    (\<forall>msk\<in>fst ` set peer_flags. and a msk = 0 \<longleftrightarrow> and b msk = 0)"
    unfolding peer_flags_masks by (simp add: mask_bit)
  have "get_peer_info_message a = get_peer_info_message b \<longleftrightarrow>
    (\<forall>msk\<in>fst ` set peer_flags. and a msk = 0 \<longleftrightarrow> and b msk = 0)"
    unfolding get_peer_info_message_def
    using append_flags_read [OF peer_flags_readable, of a b]
      append_flags_cong [of peer_flags a b] by fastforce
  then show "get_peer_info_message a = get_peer_info_message b \<longleftrightarrow>
     (\<forall>k\<in>{0..21} - {8, 19}. bit a k = bit b k)" unfolding masks .
  show "seeder_get_peer_info_message a = get_peer_info_message a"
    by (simp only: seeder_get_peer_info_message_def get_peer_info_message_def
        seeder_peer_flags_def peer_flags_def)
qed

theorem peer_message_tells_flags_witness:
  "get_peer_info_message 5 = ''we are interested in pieces from this peer || the peer is interested in us || '' \<and>
   get_peer_info_message 256 = get_peer_info_message 0 \<and>
   get_peer_info_message 5 \<noteq> get_peer_info_message 1"
proof -
  have "get_peer_info_message 5 = ''we are interested in pieces from this peer || the peer is interested in us || ''"
    by code_simp
  moreover have "\<forall>k\<in>{0..21} - {8, 19}. bit (256::int) k = bit (0::int) k"
    by code_simp
  moreover have "\<not> (\<forall>k\<in>{0..21} - {8, 19}. bit (5::int) k = bit (1::int) k)"
    by code_simp
  ultimately show ?thesis
    using peer_message_tells_flags [of 256 0] peer_message_tells_flags [of 5 1] by blast
qed

end
