(* ===== verification/Seeder.thy ===== *)
theory Seeder
  imports FS_Init Report
begin

text \<open>
  \<open>seeder.cpp\<close>: a program of its own that seeds one torrent. It configures a session, adds the
  torrent and then reports on it for ever. The session, \<open>mkdtemp\<close> and the peers are a
  parameter. The floating-point progress value of a report is not modelled.
\<close>

section \<open>What the program calls\<close>

record torrent_status =
  ts_state :: int
  ts_total_download :: int
  ts_total_upload :: int
  ts_upload_rate :: int
  ts_num_seeds :: int
  ts_num_peers :: int

record 'l seeder_env =
  se_mkdtemp :: "string \<Rightarrow> string option"
  se_new_session :: "settings_pack \<Rightarrow> 'l"
  se_load_torrent :: "string \<Rightarrow> torrent_info \<times> error_code"
  se_add_torrent :: "add_torrent_params \<Rightarrow> 'l \<Rightarrow> torrent_handle \<times> error_code \<times> 'l"
  se_status :: "torrent_handle \<Rightarrow> 'l \<Rightarrow> torrent_status \<times> 'l"
  se_pop_alerts :: "'l \<Rightarrow> string list \<times> 'l" \<comment> \<open>the messages of the alerts\<close>
  se_peer_info :: "torrent_handle \<Rightarrow> 'l \<Rightarrow> (string \<times> int) list \<times> 'l" \<comment> \<open>address and flags\<close>
  se_sleep :: "int \<Rightarrow> 'l \<Rightarrow> 'l"

section \<open>Settings\<close>

definition seeder_settings :: "settings_pack \<Rightarrow> settings_pack" where
  "seeder_settings s0 =
     (let s1 = set_str ''listen_interfaces'' ''0.0.0.0:6881'' s0;
          s2 = set_enum ''alert_mask'' [''peer_log_notification''] s1;
          s3 = set_bool ''strict_end_game_mode'' False s2;
          s4 = set_bool ''smooth_connects'' False s3;
          s5 = set_enum ''choking_algorithm'' [''fixed_slots_choker''] s4;
          s6 = set_enum ''seed_choking_algorithm'' [''round_robin''] s5;
          s7 = set_int ''unchoke_slots_limit'' (- 1) s6;
          s8 = set_int ''max_allowed_in_request_queue'' 9999999 s7;
          s9 = set_int ''connection_speed'' 10000 s8;
          s10 = set_int ''optimistic_unchoke_interval'' 1 s9;
          s11 = set_int ''send_buffer_low_watermark'' (1024 * 1024) s10;
          s12 = set_int ''send_buffer_watermark'' (1024 * 1024) s11;
          s13 = set_int ''send_buffer_watermark_factor'' 512 s12;
          s14 = set_int ''seeding_piece_quota'' 2000 s13;
          s15 = set_int ''num_optimistic_unchoke_slots'' 20 s14;
          s16 = set_int ''active_seeds'' 512 s15;
          s17 = set_int ''auto_manage_interval'' 1 s16;
          s18 = set_int ''seed_time_limit'' (1024 * 60 * 60) s17;
          s19 = set_bool ''enable_dht'' False s18
      in s19)"

section \<open>Reporting\<close>

text \<open>
  The values of one report: the state's text, kilobytes down and up (a 64-bit division towards
  zero of values that are not negative), upload rate, seeds and peers, the alerts' messages,
  and for each peer its address and the message of its flags.
\<close>

record report =
  r_status :: string
  r_down_kb :: int
  r_up_kb :: int
  r_upload_rate :: int
  r_seeders :: int
  r_peers :: int
  r_alerts :: "string list"
  r_peer_lines :: "(string \<times> string) list"

definition seeder_round :: "'l seeder_env \<Rightarrow> torrent_handle \<Rightarrow> 'l \<Rightarrow> report \<times> 'l" where
  "seeder_round env th l =
     (let (s, l1) = se_status env th l;
          (msgs, l2) = se_pop_alerts env l1;
          (infovector, l3) = se_peer_info env th l2
      in (\<lparr>r_status = seeder_stat_to_string (ts_state s),
           r_down_kb = ts_total_download s div 1024, r_up_kb = ts_total_upload s div 1024,
           r_upload_rate = ts_upload_rate s, r_seeders = ts_num_seeds s, r_peers = ts_num_peers s,
           r_alerts = msgs,
           r_peer_lines = map (\<lambda>(ip, flags). (ip, seeder_get_peer_info_message flags)) infovector\<rparr>,
          se_sleep env 2000 l3))"

text \<open>\<open>while (1)\<close>, with the reports made so far.\<close>

partial_function (option) seeder_loop ::
  "'l seeder_env \<Rightarrow> torrent_handle \<Rightarrow> 'l \<Rightarrow> report list \<Rightarrow> int option" where
  "seeder_loop env th l out =
     (case seeder_round env th l of (r, l') \<Rightarrow> seeder_loop env th l' (out @ [r]))"

text \<open>
  \<open>main\<close>: the exit code, \<^term>\<open>None\<close> when it runs for ever. \<open>std::string\<close> of a null pointer is a
  fault: \<open>mkdtemp\<close> may fail, and without an argument \<open>argv[1]\<close> is null.
\<close>

definition seeder_main :: "'l seeder_env \<Rightarrow> string list \<Rightarrow> int outcome" where
  "seeder_main env argv =
     (case se_mkdtemp env ''/tmp/seeder-XXXXXX'' of None \<Rightarrow> Some (Inl NullPointer)
      | Some pathstr \<Rightarrow>
       (let l0 = se_new_session env (seeder_settings (\<lambda>_. None)) in
        if length argv \<le> 1 then Some (Inl NullPointer)
        else
         (let (ti, ec1) = se_load_torrent env (argv ! 1) in
          if ec1 \<noteq> 0 then Some (Inr 1)
          else
           (let (th, ec2, l1) = se_add_torrent env (empty_params\<lparr>par_save_path := pathstr, par_ti := Some ti\<rparr>) l0
            in if ec2 \<noteq> 0 then Some (Inr 1)
               else map_option Inr (seeder_loop env th l1 [])))))"

lemma seeder_loop_forever: "seeder_loop env th l out = None"
proof -
  have "seeder_loop env th l out = Some r \<Longrightarrow> False" for r
  proof (induction rule: seeder_loop.raw_induct [rotated, consumes 1, case_names step])
    case (step loop env th l out r)
    then show ?case by (auto split: prod.splits)
  qed
  then show ?thesis by (cases "seeder_loop env th l out") auto
qed

section \<open>Properties\<close>

text \<open>
  C20: the seeder never ends normally. Its \<open>main\<close> returns only with code 1, exactly when the
  torrent does not load or cannot be added; it faults exactly when there is no temporary
  directory or no argument; otherwise it seeds for ever.
\<close>

theorem seeder_main_outcomes:
  "let load = se_load_torrent env (argv ! 1);
       add = se_add_torrent env (empty_params\<lparr>par_save_path := the (se_mkdtemp env ''/tmp/seeder-XXXXXX''),
         par_ti := Some (fst load)\<rparr>) (se_new_session env (seeder_settings (\<lambda>_. None)));
       started = (se_mkdtemp env ''/tmp/seeder-XXXXXX'' \<noteq> None \<and> 2 \<le> length argv);
       failed = (snd load \<noteq> 0 \<or> fst (snd add) \<noteq> 0)
   in (seeder_main env argv = None \<longleftrightarrow> started \<and> \<not> failed) \<and>
      (seeder_main env argv = Some (Inr 1) \<longleftrightarrow> started \<and> failed) \<and>
      (seeder_main env argv = Some (Inl NullPointer) \<longleftrightarrow> \<not> started)"
proof (cases "se_mkdtemp env ''/tmp/seeder-XXXXXX''")
  case None
  then show ?thesis by (simp add: seeder_main_def)
next
  case (Some dir)
  obtain ti ec1 where ld: "se_load_torrent env (argv ! 1) = (ti, ec1)" by fastforce
  obtain th ec2 l1 where ad: "se_add_torrent env (empty_params\<lparr>par_save_path := dir, par_ti := Some ti\<rparr>)
      (se_new_session env (seeder_settings (\<lambda>_. None))) = (th, ec2, l1)" by (metis prod_cases3)
  show ?thesis using Some ld ad by (auto simp: seeder_main_def Let_def seeder_loop_forever)
qed

definition demo_seeder :: "unit seeder_env" where
  "demo_seeder = \<lparr>se_mkdtemp = (\<lambda>s. Some ''/tmp/seeder-abc123''), se_new_session = (\<lambda>s. ()),
     se_load_torrent = (\<lambda>p. (demo_ti, if p = ''ok.torrent'' then 0 else 2)),
     se_add_torrent = (\<lambda>p l. (TorrentHandle demo_ti, 0, l)),
     se_status = (\<lambda>h l. (\<lparr>ts_state = 5, ts_total_download = 0, ts_total_upload = 2048, ts_upload_rate = 7,
       ts_num_seeds = 1, ts_num_peers = 1\<rparr>, l)),
     se_pop_alerts = (\<lambda>l. ([], l)), se_peer_info = (\<lambda>h l. ([(''10.0.0.1'', 4)], l)), se_sleep = (\<lambda>n l. l)\<rparr>"

theorem seeder_main_outcomes_witness:
  "seeder_main demo_seeder [''seeder'', ''ok.torrent''] = None \<and>
   seeder_main demo_seeder [''seeder'', ''bad.torrent''] = Some (Inr 1)"
  using seeder_main_outcomes [of demo_seeder "[''seeder'', ''ok.torrent'']"]
    seeder_main_outcomes [of demo_seeder "[''seeder'', ''bad.torrent'']"]
  by (simp add: Let_def demo_seeder_def)

text \<open>
  A mounted file system and a seeder are configured alike. Every setting that both programs
  set has the same value in both, except the alert mask and the limit of unchoke slots. Neither
  sets the unchoke interval.
\<close>

theorem settings_agree:
  "(fs_settings (\<lambda>_. None) k \<noteq> None \<and> seeder_settings (\<lambda>_. None) k \<noteq> None \<and>
    k \<notin> {''alert_mask'', ''unchoke_slots_limit''} \<longrightarrow>
      fs_settings (\<lambda>_. None) k = seeder_settings (\<lambda>_. None) k) \<and>
   fs_settings (\<lambda>_. None) ''unchoke_interval'' = None \<and>
   seeder_settings (\<lambda>_. None) ''unchoke_interval'' = None"
  by (auto simp: fs_settings_def seeder_settings_def Let_def set_str_def set_int_def set_bool_def
      set_enum_def split: if_splits)

theorem settings_agree_witness:
  "fs_settings (\<lambda>_. None) ''connection_speed'' = Some (SetInt 10000) \<and>
   seeder_settings (\<lambda>_. None) ''connection_speed'' = Some (SetInt 10000)"
proof -
  have f: "fs_settings (\<lambda>_. None) ''connection_speed'' = Some (SetInt 10000)"
    by (simp add: fs_settings_def Let_def set_str_def set_int_def set_bool_def set_enum_def)
  moreover have "seeder_settings (\<lambda>_. None) ''connection_speed'' \<noteq> None"
    by (simp add: seeder_settings_def Let_def set_str_def set_int_def set_bool_def set_enum_def)
  ultimately show ?thesis using settings_agree [of "''connection_speed''"] by simp
qed

end
