(* ===== verification/Readers.thy ===== *)
theory Readers
  imports FS_Read "HOL-Library.Product_Lexorder"
begin

text \<open>
  Several calls of \<open>FS::read\<close> at once. FUSE serves requests from several threads; the calls share
  the session, \<open>piece_buffer_map\<close> and the mutex \<open>fsmtx\<close>. Each call is a reader that moves from
  one call of libtorrent to the next, and the readers' steps interleave freely. The planning
  loop runs without the mutex, the rest under it. The main results: in every interleaving the
  mutex excludes, nobody crashes, every reader that returned has its bytes, and no execution
  goes on for ever or gets stuck. That a reader is a call of \<open>fs_read\<close> is shown in \<open>Solo_Reader\<close>.
\<close>

section \<open>One reader\<close>

text \<open>
  Where a reader is in its copying loop: before the first test of \<open>have_piece\<close>; before a test in
  the waiting loop; before the \<open>get_piece_buffers\<close> of that loop; before the lookup in the
  buffer map; before the \<open>get_piece_buffers\<close> of the second loop; before the two \<open>memcpy\<close>.
\<close>

datatype stage = Check | Recheck | Poll | Seek | PollBuffer | Copy

text \<open>
  The phases of \<open>FS::read\<close> with their local variables: planning (\<open>curr_offset\<close>, \<open>remaining_size\<close>,
  the required pieces, and the calls of \<open>piece_priority\<close> the present round still has to make);
  waiting for the mutex; the loop over the required pieces (and a pending \<open>read_piece\<close>); the
  copying loop (\<open>curr_offset\<close>, \<open>remaining_size\<close>, \<open>read_ptr\<close>, \<open>temp_buf\<close>, \<open>buf\<close>); before unlocking;
  returned; crashed.
\<close>

datatype phase =
    Planning int int "int set" "(int \<times> int) list"
  | Locking "int set"
  | Early "int list"
  | EarlyRead int "int list"
  | Copying stage int int int mem mem
  | Unlocking int mem
  | Returned int mem
  | Crashed fault

text \<open>A reader: its file, offset, number of bytes and buffer as they were at the start, its phase.\<close>

record reader =
  rd_file :: int
  rd_off :: int
  rd_len :: int
  rd_buf :: mem
  rd_phase :: phase

text \<open>What the readers share: session, buffer map and the holder of the mutex.\<close>

type_synonym 'l shared = "'l \<times> cache \<times> nat option"

text \<open>The priorities \<open>raise_priorities\<close> sets, call by call.\<close>

definition priority_calls :: "torrent_info \<Rightarrow> int \<Rightarrow> (int \<times> int) list" where
  "priority_calls ti p =
     (p, 7) # (if p > 1 then [(p - 1, 1)] else []) @ (if p < ti_num_pieces ti - 1 then [(p + 1, 7)] else [])"

fun copying_step ::
  "'l lt_api \<Rightarrow> torrent_info \<Rightarrow> int \<Rightarrow> stage \<Rightarrow> int \<Rightarrow> int \<Rightarrow> int \<Rightarrow> mem \<Rightarrow> mem \<Rightarrow> 'l \<Rightarrow> cache \<Rightarrow>
   phase \<times> 'l \<times> cache" where
  "copying_step api ti idx Check off rem rp temp buf l m =
     (if rem \<le> 0 then (Unlocking rp buf, l, m)
      else case have_piece api l (chunk_piece ti idx off rem) of (h, l') \<Rightarrow>
        (Copying (if h then Seek else Recheck) off rem rp temp buf, l', m))"
| "copying_step api ti idx Recheck off rem rp temp buf l m =
     (case have_piece api l (chunk_piece ti idx off rem) of (h, l') \<Rightarrow>
        (Copying (if h then Seek else Poll) off rem rp temp buf, l', m))"
| "copying_step api ti idx Poll off rem rp temp buf l m =
     (case get_piece_buffers api l m of (l', m') \<Rightarrow> (Copying Recheck off rem rp temp buf, l', m'))"
| "copying_step api ti idx Seek off rem rp temp buf l m =
     (if m (chunk_piece ti idx off rem) \<noteq> None then (Copying Copy off rem rp temp buf, l, m)
      else (Copying PollBuffer off rem rp temp buf, read_piece api l (chunk_piece ti idx off rem), m))"
| "copying_step api ti idx PollBuffer off rem rp temp buf l m =
     (case get_piece_buffers api l m of (l', m') \<Rightarrow>
        (Copying (if m' (chunk_piece ti idx off rem) \<noteq> None then Copy else PollBuffer) off rem rp temp buf, l', m'))"
| "copying_step api ti idx Copy off rem rp temp buf l m =
     (let p = chunk_piece ti idx off rem; n = read_chunk ti idx off rem in
      case m p of None \<Rightarrow> (Crashed NullPointer, l, m)
      | Some pb \<Rightarrow>
        (case memcpy temp 0 (map Some pb) 0 (ti_piece_size ti p) of Inl f \<Rightarrow> (Crashed f, l, m)
         | Inr temp' \<Rightarrow>
           (case memcpy buf rp temp' (chunk_start ti idx off rem) n of Inl f \<Rightarrow> (Crashed f, l, m)
            | Inr buf' \<Rightarrow> (Copying Check (off + n) (rem - n) (rp + n) temp' buf', l, m))))"

text \<open>
  One step of reader \<open>t\<close>: its next phase and what is shared then, or \<^term>\<open>None\<close> when it waits for
  the mutex or has come to its end.
\<close>

fun phase_step ::
  "'l lt_api \<Rightarrow> torrent_info \<Rightarrow> nat \<Rightarrow> reader \<Rightarrow> phase \<Rightarrow> 'l shared \<Rightarrow> (phase \<times> 'l shared) option" where
  "phase_step api ti t r (Planning off rem req ((p, n) # calls)) (l, m, k) =
     Some (Planning off rem req calls, piece_priority api l p n, m, k)"
| "phase_step api ti t r (Planning off rem req []) (l, m, k) =
     (if rem \<le> 0 then Some (Locking req, l, m, k)
      else let p = chunk_piece ti (rd_file r) off rem; c = read_chunk ti (rd_file r) off rem in
        case have_piece api l p of (h, l') \<Rightarrow>
          Some (if h then Planning (off + c) (rem - c) req []
                else Planning (off + c) (rem - c) (insert p req) (priority_calls ti p), l', m, k))"
| "phase_step api ti t r (Locking req) (l, m, k) =
     (if k = None then Some (Early (sorted_list_of_set req), l, m, Some t) else None)"
| "phase_step api ti t r (Early []) (l, m, k) =
     Some (Copying Check (rd_off r) (rd_len r) 0 (replicate (nat (ti_piece_length ti)) None) (rd_buf r), l, m, k)"
| "phase_step api ti t r (Early (p # ps)) (l, m, k) =
     (case have_piece api l p of (h, l') \<Rightarrow> Some (if h then EarlyRead p ps else Early ps, l', m, k))"
| "phase_step api ti t r (EarlyRead p ps) (l, m, k) = Some (Early ps, read_piece api l p, m, k)"
| "phase_step api ti t r (Copying g off rem rp temp buf) (l, m, k) =
     (case copying_step api ti (rd_file r) g off rem rp temp buf l m of (ph, l', m') \<Rightarrow> Some (ph, l', m', k))"
| "phase_step api ti t r (Unlocking rp buf) (l, m, k) = Some (Returned rp buf, l, m, None)"
| "phase_step api ti t r (Returned rp buf) (l, m, k) = None"
| "phase_step api ti t r (Crashed f) (l, m, k) = None"

section \<open>The system\<close>

type_synonym 'l system = "reader list \<times> 'l shared"

inductive sys_step :: "'l lt_api \<Rightarrow> torrent_info \<Rightarrow> 'l system \<Rightarrow> 'l system \<Rightarrow> bool"
  for api ti where
  move: "t < length rs \<Longrightarrow> phase_step api ti t (rs ! t) (rd_phase (rs ! t)) sh = Some (ph, sh') \<Longrightarrow>
    sys_step api ti (rs, sh) (rs[t := (rs ! t)\<lparr>rd_phase := ph\<rparr>], sh')"

inductive_cases sys_stepE: "sys_step api ti (rs, sh) s'"

inductive reachable :: "'l lt_api \<Rightarrow> torrent_info \<Rightarrow> 'l system \<Rightarrow> 'l system \<Rightarrow> bool"
  for api ti s0 where
  start: "reachable api ti s0 s0"
| move: "reachable api ti s0 s \<Longrightarrow> sys_step api ti s s' \<Longrightarrow> reachable api ti s0 s'"

text \<open>A call of \<open>read\<close> for \<open>n\<close> bytes of a file, past its lookups, and the start of the system.\<close>

definition new_reader :: "int \<Rightarrow> int \<Rightarrow> int \<Rightarrow> mem \<Rightarrow> reader" where
  "new_reader idx off n buf =
     \<lparr>rd_file = idx, rd_off = off, rd_len = n, rd_buf = buf, rd_phase = Planning off n {} []\<rparr>"

definition call_ok :: "torrent_info \<Rightarrow> int \<times> int \<times> int \<times> mem \<Rightarrow> bool" where
  "call_ok ti c \<longleftrightarrow> (case c of (idx, off, n, buf) \<Rightarrow>
     valid_file ti idx \<and> 0 \<le> off \<and> 0 \<le> n \<and> off + n \<le> ti_file_size ti idx \<and> n \<le> int (length buf))"

definition start_readers :: "(int \<times> int \<times> int \<times> mem) list \<Rightarrow> reader list" where
  "start_readers calls = map (\<lambda>(idx, off, n, buf). new_reader idx off n buf) calls"

text \<open>The calls of one planning round are those of \<open>raise_priorities\<close>, in its order.\<close>

lemma raise_priorities_calls:
  "raise_priorities api ti p l = fold (\<lambda>(q, n) l. piece_priority api l q n) (priority_calls ti p) l"
  by (simp add: raise_priorities_def priority_calls_def Let_def)

lemma priority_calls_pos: "\<forall>(q, n)\<in>set (priority_calls ti p). 0 < n"
  by (auto simp: priority_calls_def)

lemma priority_calls_len: "length (priority_calls ti p) \<le> 3"
  by (simp add: priority_calls_def)

lemma priority_calls_head: "p \<in> fst ` set (priority_calls ti p)"
  by (simp add: priority_calls_def)

section \<open>What a step leaves intact\<close>

text \<open>
  A requested buffer stays requested when other calls follow: only \<open>pop_alerts\<close>, which brings
  it nearer or delivers it, changes what is due.
\<close>

definition keeps_requests :: "'l lt_api \<Rightarrow> 'l lt_view \<Rightarrow> bool" where
  "keeps_requests api v \<longleftrightarrow>
     (\<forall>l q. v_inv v l \<longrightarrow> v_due v l q \<noteq> None \<longrightarrow>
        (\<forall>p. v_due v (snd (have_piece api l p)) q \<noteq> None) \<and>
        (\<forall>p n. v_due v (piece_priority api l p n) q \<noteq> None) \<and>
        (\<forall>p. v_due v (read_piece api l p) q \<noteq> None))"

text \<open>What every step of one reader preserves for the others.\<close>

definition coming :: "'l lt_view \<Rightarrow> 'l \<Rightarrow> cache \<Rightarrow> int \<Rightarrow> bool" where
  "coming v l m q \<longleftrightarrow> m q \<noteq> None \<or> v_due v l q \<noteq> None"

definition undisturbed :: "'l lt_view \<Rightarrow> (int \<Rightarrow> byte list) \<Rightarrow> 'l \<Rightarrow> cache \<Rightarrow> 'l \<Rightarrow> cache \<Rightarrow> bool" where
  "undisturbed v D l m l' m' \<longleftrightarrow> keeps_wanted v l l' \<and> cache_ok D m' \<and>
     (\<forall>q. m q \<noteq> None \<longrightarrow> m' q \<noteq> None) \<and> (\<forall>q. coming v l m q \<longrightarrow> coming v l' m' q)"

lemma undisturbed_refl: "v_inv v l \<Longrightarrow> cache_ok D m \<Longrightarrow> undisturbed v D l m l m"
  by (simp add: undisturbed_def keeps_wanted_refl)

lemma undisturbed_session:
  assumes "keeps_wanted v l l'" "cache_ok D m" "\<And>q. v_due v l q \<noteq> None \<Longrightarrow> v_due v l' q \<noteq> None"
  shows "undisturbed v D l m l' m"
  using assms unfolding undisturbed_def coming_def by blast

lemma have_piece_undisturbed:
  assumes "lt_ok api v D" "keeps_requests api v" "v_inv v l" "cache_ok D m" "have_piece api l p = (h, l')"
  shows "undisturbed v D l m l' m" "h \<longleftrightarrow> v_eta v l p = 0" "v_eta v l' p \<le> v_eta v l p"
proof -
  note a = have_piece_after [OF assms(1,3,5)]
  have "v_due v l q \<noteq> None \<Longrightarrow> v_due v l' q \<noteq> None" for q
    using assms(2,3,5) unfolding keeps_requests_def by (metis snd_conv)
  with after_keeps_wanted [OF a(1)] assms(4) show "undisturbed v D l m l' m"
    by (rule undisturbed_session)
  show "h \<longleftrightarrow> v_eta v l p = 0" by (rule a(2))
  show "v_eta v l' p \<le> v_eta v l p" using a(1) by (simp add: lt_after_def no_loss_def)
qed

lemma priority_undisturbed:
  assumes "lt_ok api v D" "keeps_requests api v" "v_inv v l" "cache_ok D m" "0 < n"
  shows "undisturbed v D l m (piece_priority api l p n) m" "wanted v (piece_priority api l p n) p"
proof -
  note k = priority_keeps_wanted [OF assms(1,3,5)]
  have "v_due v l q \<noteq> None \<Longrightarrow> v_due v (piece_priority api l p n) q \<noteq> None" for q
    using assms(2,3) unfolding keeps_requests_def by blast
  with k(1) assms(4) show "undisturbed v D l m (piece_priority api l p n) m" by (rule undisturbed_session)
  show "wanted v (piece_priority api l p n) p" by (rule k(2))
qed

lemma read_piece_undisturbed:
  assumes "lt_ok api v D" "keeps_requests api v" "v_inv v l" "cache_ok D m"
  shows "undisturbed v D l m (read_piece api l p) m"
    and "v_eta v l p = 0 \<Longrightarrow> coming v (read_piece api l p) m p"
proof -
  note a = read_piece_after [OF assms(1,3), of p]
  have "v_due v l q \<noteq> None \<Longrightarrow> v_due v (read_piece api l p) q \<noteq> None" for q
    using assms(2,3) unfolding keeps_requests_def by blast
  with after_keeps_wanted [OF a(1)] assms(4) show "undisturbed v D l m (read_piece api l p) m"
    by (rule undisturbed_session)
  show "v_eta v l p = 0 \<Longrightarrow> coming v (read_piece api l p) m p" using a(2) by (simp add: coming_def)
qed

lemma poll_undisturbed:
  assumes "lt_ok api v D" "v_inv v l" "cache_ok D m" "get_piece_buffers api l m = (l', m')"
  shows "undisturbed v D l m l' m'"
proof -
  note a = get_piece_buffers_after [OF assms]
  have "coming v l' m' q" if c: "coming v l m q" for q
  proof (cases "m q")
    case (Some b)
    then show ?thesis using a(3) [of q] by (simp add: coming_def)
  next
    case None
    then obtain n where "v_due v l q = Some n" using c by (auto simp: coming_def)
    from a(5) [OF this] show ?thesis by (auto simp: coming_def)
  qed
  moreover have "m q \<noteq> None \<longrightarrow> m' q \<noteq> None" for q using a(3) by blast
  ultimately show ?thesis
    unfolding undisturbed_def using after_keeps_wanted [OF a(1)] a(2) by blast
qed

section \<open>The invariant\<close>

text \<open>Whether a phase is between \<open>lock\<close> and \<open>unlock\<close>.\<close>

fun holds_mutex :: "phase \<Rightarrow> bool" where
  "holds_mutex (Planning off rem req calls) = False"
| "holds_mutex (Locking req) = False"
| "holds_mutex (Early ps) = True"
| "holds_mutex (EarlyRead p ps) = True"
| "holds_mutex (Copying g off rem rp temp buf) = True"
| "holds_mutex (Unlocking rp buf) = True"
| "holds_mutex (Returned rp buf) = False"
| "holds_mutex (Crashed f) = False"

definition reader_wf :: "torrent_info \<Rightarrow> reader \<Rightarrow> bool" where
  "reader_wf ti r \<longleftrightarrow> call_ok ti (rd_file r, rd_off r, rd_len r, rd_buf r)"

text \<open>A buffer whose first \<open>n\<close> bytes are the file's and whose rest is as it was.\<close>

definition filled :: "torrent_info \<Rightarrow> byte list \<Rightarrow> reader \<Rightarrow> int \<Rightarrow> mem" where
  "filled ti content r n =
     map Some (take (nat n) (drop (nat (rd_off r)) (file_data ti content (rd_file r)))) @ drop (nat n) (rd_buf r)"

fun stage_ok :: "'l lt_view \<Rightarrow> 'l \<Rightarrow> cache \<Rightarrow> int \<Rightarrow> stage \<Rightarrow> bool" where
  "stage_ok v l m p Check = True"
| "stage_ok v l m p Recheck = True"
| "stage_ok v l m p Poll = True"
| "stage_ok v l m p Seek = (v_eta v l p = 0)"
| "stage_ok v l m p PollBuffer = coming v l m p"
| "stage_ok v l m p Copy = (m p \<noteq> None)"

text \<open>
  In each phase: the pieces of the range are wanted, except those still to be planned or with a
  call outstanding; while copying, offset, remaining size and number of bytes copied belong
  together and these bytes are the file's.
\<close>

fun phase_ok :: "torrent_info \<Rightarrow> byte list \<Rightarrow> 'l lt_view \<Rightarrow> 'l \<Rightarrow> cache \<Rightarrow> reader \<Rightarrow> phase \<Rightarrow> bool" where
  "phase_ok ti content v l m r (Planning off rem req calls) =
     (rd_off r \<le> off \<and> 0 \<le> rem \<and> off + rem = rd_off r + rd_len r \<and> finite req \<and>
      (\<forall>(q, n)\<in>set calls. 0 < n) \<and>
      (\<forall>p\<in>range_pieces ti (rd_file r) (rd_off r) (rd_len r).
         wanted v l p \<or> p \<in> fst ` set calls \<or> p \<in> range_pieces ti (rd_file r) off rem))"
| "phase_ok ti content v l m r (Locking req) =
     (finite req \<and> (\<forall>p\<in>range_pieces ti (rd_file r) (rd_off r) (rd_len r). wanted v l p))"
| "phase_ok ti content v l m r (Early ps) =
     (\<forall>p\<in>range_pieces ti (rd_file r) (rd_off r) (rd_len r). wanted v l p)"
| "phase_ok ti content v l m r (EarlyRead p ps) =
     (\<forall>p\<in>range_pieces ti (rd_file r) (rd_off r) (rd_len r). wanted v l p)"
| "phase_ok ti content v l m r (Copying g off rem rp temp buf) =
     (rd_off r \<le> off \<and> 0 \<le> rem \<and> off + rem = rd_off r + rd_len r \<and> rp = off - rd_off r \<and>
      length temp = nat (ti_piece_length ti) \<and> buf = filled ti content r rp \<and> (g \<noteq> Check \<longrightarrow> 0 < rem) \<and>
      stage_ok v l m (chunk_piece ti (rd_file r) off rem) g \<and>
      (\<forall>p\<in>range_pieces ti (rd_file r) off rem. wanted v l p))"
| "phase_ok ti content v l m r (Unlocking rp buf) = (rp = rd_len r \<and> buf = filled ti content r rp)"
| "phase_ok ti content v l m r (Returned rp buf) = (rp = rd_len r \<and> buf = filled ti content r rp)"
| "phase_ok ti content v l m r (Crashed f) = False"

text \<open>What one reader relies on survives the steps of the others.\<close>

lemma stage_ok_undisturbed:
  assumes "undisturbed v D l m l' m'" "stage_ok v l m p g"
  shows "stage_ok v l' m' p g"
proof -
  have "v_eta v l' p \<le> v_eta v l p" "m p \<noteq> None \<longrightarrow> m' p \<noteq> None" "coming v l m p \<longrightarrow> coming v l' m' p"
    using assms(1) unfolding undisturbed_def keeps_wanted_def no_loss_def by blast+
  then show ?thesis using assms(2) by (cases g) auto
qed

lemma undisturbed_wanted: "undisturbed v D l m l' m' \<Longrightarrow> wanted v l p \<Longrightarrow> wanted v l' p"
  by (simp add: undisturbed_def keeps_wanted_def)

lemma phase_ok_undisturbed:
  assumes "undisturbed v D l m l' m'" "phase_ok ti content v l m r ph"
  shows "phase_ok ti content v l' m' r ph"
  using assms(2) undisturbed_wanted [OF assms(1)] stage_ok_undisturbed [OF assms(1)]
  by (cases ph) auto

definition sys_ok :: "torrent_info \<Rightarrow> byte list \<Rightarrow> 'l lt_view \<Rightarrow> 'l system \<Rightarrow> bool" where
  "sys_ok ti content v s \<longleftrightarrow> (case s of (rs, l, m, k) \<Rightarrow>
     v_inv v l \<and> cache_ok (piece_data ti content) m \<and>
     (\<forall>t. k = Some t \<longleftrightarrow> t < length rs \<and> holds_mutex (rd_phase (rs ! t))) \<and>
     (\<forall>r\<in>set rs. reader_wf ti r \<and> phase_ok ti content v l m r (rd_phase r)))"

section \<open>Every step keeps the invariant\<close>

lemma filled_advance:
  assumes "ti_ok ti" "content_ok ti content" "reader_wf ti r" "0 \<le> rp" "0 \<le> n" "rp + n \<le> rd_len r"
  shows "length (filled ti content r rp) = length (rd_buf r)"
    and "take (nat rp) (filled ti content r rp) @
      map Some (take (nat n) (drop (nat (rd_off r + rp)) (file_data ti content (rd_file r)))) @
      drop (nat (rp + n)) (filled ti content r rp) = filled ti content r (rp + n)"
proof -
  let ?F = "drop (nat (rd_off r)) (file_data ti content (rd_file r))"
  let ?A = "map Some (take (nat rp) ?F)"
  have wf: "valid_file ti (rd_file r)" "0 \<le> rd_off r" "rd_off r + rd_len r \<le> ti_file_size ti (rd_file r)"
      "rd_len r \<le> int (length (rd_buf r))"
    using assms(3) by (simp_all add: reader_wf_def call_ok_def)
  have "int (length ?F) = ti_file_size ti (rd_file r) - rd_off r"
    using file_data_length [OF assms(1,2) wf(1)] wf(2,3) assms(4-6) by simp
  then have "nat rp \<le> length ?F" using assms(4-6) wf(3) by linarith
  then have lA: "length ?A = nat rp" by simp
  have le: "nat rp \<le> length (rd_buf r)" using assms(5,6) wf(4) by linarith
  show "length (filled ti content r rp) = length (rd_buf r)"
    using lA le by (simp add: filled_def)
  have nn: "nat (rp + n) = nat rp + nat n" "nat (rd_off r + rp) = nat (rd_off r) + nat rp"
    using assms(4,5) wf(2) by (simp_all add: nat_add_distrib)
  have tk: "take (nat rp) (filled ti content r rp) = ?A"
    unfolding filled_def using lA by simp
  have dr: "drop (nat (rp + n)) (filled ti content r rp) = drop (nat (rp + n)) (rd_buf r)"
    unfolding filled_def nn by (rule drop_past [OF lA])
  have "?A @ map Some (take (nat n) (drop (nat (rd_off r + rp)) (file_data ti content (rd_file r)))) =
      map Some (take (nat (rp + n)) ?F)"
    unfolding nn map_append [symmetric] take_drop_join [symmetric, of "nat rp"]
    by (simp add: add.commute)
  then show "take (nat rp) (filled ti content r rp) @
      map Some (take (nat n) (drop (nat (rd_off r + rp)) (file_data ti content (rd_file r)))) @
      drop (nat (rp + n)) (filled ti content r rp) = filled ti content r (rp + n)"
    unfolding tk dr by (simp add: filled_def)
qed

lemma filled_0: "filled ti content r 0 = rd_buf r"
  by (simp add: filled_def)

text \<open>The hypotheses under which the readers run, for short.\<close>

definition readers_env :: "'l lt_api \<Rightarrow> 'l lt_view \<Rightarrow> torrent_info \<Rightarrow> byte list \<Rightarrow> bool" where
  "readers_env api v ti content \<longleftrightarrow>
     lt_ok api v (piece_data ti content) \<and> keeps_requests api v \<and> ti_ok ti \<and> content_ok ti content"

lemma copy_stage_ok:
  assumes "readers_env api v ti content" "reader_wf ti r" "v_inv v l" "cache_ok (piece_data ti content) m"
    and "phase_ok ti content v l m r (Copying Copy off rem rp temp buf)"
  shows "\<exists>temp'. copying_step api ti (rd_file r) Copy off rem rp temp buf l m =
      (Copying Check (off + read_chunk ti (rd_file r) off rem) (rem - read_chunk ti (rd_file r) off rem)
        (rp + read_chunk ti (rd_file r) off rem) temp'
        (filled ti content r (rp + read_chunk ti (rd_file r) off rem)), l, m) \<and>
    length temp' = nat (ti_piece_length ti) \<and>
    0 < read_chunk ti (rd_file r) off rem \<and> read_chunk ti (rd_file r) off rem \<le> rem"
proof -
  let ?idx = "rd_file r" and ?D = "piece_data ti content"
  let ?p = "chunk_piece ti ?idx off rem" and ?n = "read_chunk ti ?idx off rem"
  have env: "ti_ok ti" "content_ok ti content" using assms(1) by (simp_all add: readers_env_def)
  have wf: "valid_file ti ?idx" "0 \<le> rd_off r" "rd_off r + rd_len r \<le> ti_file_size ti ?idx"
      "rd_len r \<le> int (length (rd_buf r))"
    using assms(2) by (simp_all add: reader_wf_def call_ok_def)
  have ph: "rd_off r \<le> off" "0 < rem" "off + rem = rd_off r + rd_len r" "rp = off - rd_off r"
      "length temp = nat (ti_piece_length ti)" "buf = filled ti content r rp" "m ?p \<noteq> None"
    using assms(5) by simp_all
  have range: "0 \<le> off" "off + rem \<le> ti_file_size ti ?idx" using ph(1,3) wf(2,3) by simp_all
  have n: "0 < ?n" "?n \<le> rem"
    using chunk_geometry(3) [OF env(1) wf(1) range(1), of rem] ph(2) range(2) by (simp_all add: read_chunk_def)
  have "m ?p = Some (?D ?p)" using ph(7) assms(4) by (auto simp: cache_ok_def)
  moreover have len: "length buf = length (rd_buf r)"
    unfolding ph(6) using filled_advance(1) [OF env assms(2), of rp 0] ph by simp
  obtain temp' where t: "memcpy temp 0 (map Some (?D ?p)) 0 (ti_piece_size ti ?p) = Inr temp'"
      "length temp' = length temp"
      "memcpy buf rp temp' (chunk_start ti ?idx off rem) ?n = Inr (take (nat rp) buf @
        map Some (take (nat ?n) (drop (nat off) (file_data ti content ?idx))) @ drop (nat (rp + ?n)) buf)"
    using chunk_copies [OF env wf(1) range(1) ph(2) range(2) ph(5), of rp buf ?n] ph(1,3,4) wf(4) len by auto
  have "off = rd_off r + rp" using ph(4) by simp
  then have "take (nat rp) buf @ map Some (take (nat ?n) (drop (nat off) (file_data ti content ?idx))) @
      drop (nat (rp + ?n)) buf = filled ti content r (rp + ?n)"
    using filled_advance(2) [OF env assms(2), of rp ?n] ph n unfolding ph(6) by simp
  ultimately show ?thesis using t ph(5) n by (simp add: Let_def)
qed

lemma copying_step_ok:
  assumes "readers_env api v ti content" "reader_wf ti r" "v_inv v l" "cache_ok (piece_data ti content) m"
    and "phase_ok ti content v l m r (Copying g off rem rp temp buf)"
    and "copying_step api ti (rd_file r) g off rem rp temp buf l m = (ph', l', m')"
  shows "undisturbed v (piece_data ti content) l m l' m' \<and> phase_ok ti content v l' m' r ph' \<and> holds_mutex ph'"
proof -
  let ?p = "chunk_piece ti (rd_file r) off rem" and ?D = "piece_data ti content"
  have env: "lt_ok api v ?D" "keeps_requests api v" "ti_ok ti"
    using assms(1) by (simp_all add: readers_env_def)
  have moved: ?thesis if "undisturbed v ?D l m l' m'" "ph' = Copying g' off rem rp temp buf"
      "stage_ok v l' m' ?p g'" "0 < rem" for g'
    using that assms(5) undisturbed_wanted [OF that(1)] by simp
  have stay: "undisturbed v ?D l m l m" using assms(3,4) by (rule undisturbed_refl)
  obtain h l1 where h: "have_piece api l ?p = (h, l1)" by fastforce
  note hp = have_piece_undisturbed [OF env(1,2) assms(3,4) h]
  obtain l2 m2 where g: "get_piece_buffers api l m = (l2, m2)" by fastforce
  note gp = poll_undisturbed [OF env(1) assms(3,4) g]
  note rp = read_piece_undisturbed [OF env(1,2) assms(3,4), of ?p]
  show ?thesis
  proof (cases g)
    case Check
    then show ?thesis
      using assms(5,6) h hp moved [of Seek] moved [of Recheck] stay
      by (cases "rem \<le> 0") (auto split: if_splits)
  next
    case Recheck
    then show ?thesis
      using assms(5,6) h hp moved [of Seek] moved [of Poll] by (auto split: if_splits)
  next
    case Poll
    then show ?thesis using assms(5,6) g gp moved [of Recheck] by auto
  next
    case Seek
    then show ?thesis
      using assms(5,6) rp stay moved [of Copy] moved [of PollBuffer] by (auto split: if_splits)
  next
    case PollBuffer
    moreover from this have "coming v l2 m2 ?p" using assms(5) gp by (simp add: undisturbed_def)
    ultimately show ?thesis
      using assms(5,6) g gp moved [of Copy] moved [of PollBuffer] by (auto split: if_splits)
  next
    case Copy
    note cs = copy_stage_ok [OF assms(1-4) assms(5) [unfolded Copy]]
    have more: "range_pieces ti (rd_file r) off rem = insert (file_piece ti (rd_file r) off)
        (range_pieces ti (rd_file r) (off + read_chunk ti (rd_file r) off rem) (rem - read_chunk ti (rd_file r) off rem))"
      using assms(2,5) Copy env(3) by (intro range_pieces_more) (auto simp: reader_wf_def call_ok_def)
    show ?thesis using cs assms(5,6) stay more unfolding Copy by auto
  qed
qed

lemma planning_check_ok:
  assumes "readers_env api v ti content" "reader_wf ti r" "v_inv v l" "cache_ok (piece_data ti content) m"
    and "phase_ok ti content v l m r (Planning off rem req [])" "0 < rem"
    and "have_piece api l (chunk_piece ti (rd_file r) off rem) = (h, l')"
    and "c = read_chunk ti (rd_file r) off rem"
  shows "undisturbed v (piece_data ti content) l m l' m \<and>
    phase_ok ti content v l' m r (if h then Planning (off + c) (rem - c) req []
      else Planning (off + c) (rem - c) (insert (chunk_piece ti (rd_file r) off rem) req)
        (priority_calls ti (chunk_piece ti (rd_file r) off rem)))"
proof -
  let ?idx = "rd_file r"
  let ?p = "chunk_piece ti ?idx off rem"
  have env: "lt_ok api v (piece_data ti content)" "keeps_requests api v" "ti_ok ti"
    using assms(1) by (simp_all add: readers_env_def)
  note hp = have_piece_undisturbed [OF env(1,2) assms(3,4,7)]
  have wf: "valid_file ti ?idx" "0 \<le> off" "off + rem \<le> ti_file_size ti ?idx"
    using assms(2,5) by (auto simp: reader_wf_def call_ok_def)
  have lim: "off < ti_file_size ti ?idx" using wf(3) assms(6) by simp
  have p: "?p = file_piece ti ?idx off" using chunk_piece_eq [OF env(3) wf(1,2) lim] .
  have c: "0 < c" "c \<le> rem"
    using chunk_geometry(3) [OF env(3) wf(1,2) lim, of rem] assms(6) by (simp_all add: assms(8) read_chunk_def)
  have more: "range_pieces ti ?idx off rem = insert ?p (range_pieces ti ?idx (off + c) (rem - c))"
    unfolding p assms(8) using range_pieces_more [OF env(3) wf(1,2) assms(6) wf(3)] .
  have have_it: "wanted v l' ?p" if h
    using that hp(2,3) by (simp add: wanted_def)
  show ?thesis
    using hp(1) assms(5) c have_it undisturbed_wanted [OF hp(1)] more
      priority_calls_pos [of ti ?p] priority_calls_head [of ?p ti] by auto
qed

text \<open>What a step does to the mutex.\<close>

definition mutex_moves :: "nat \<Rightarrow> phase \<Rightarrow> nat option \<Rightarrow> phase \<Rightarrow> nat option \<Rightarrow> bool" where
  "mutex_moves t ph k ph' k' \<longleftrightarrow>
     (if holds_mutex ph = holds_mutex ph' then k' = k
      else if holds_mutex ph' then k = None \<and> k' = Some t else k' = None)"

lemma phase_step_ok:
  assumes "readers_env api v ti content" "reader_wf ti r" "v_inv v l" "cache_ok (piece_data ti content) m"
    and "phase_ok ti content v l m r ph" "phase_step api ti t r ph (l, m, k) = Some (ph', l', m', k')"
  shows "undisturbed v (piece_data ti content) l m l' m' \<and> phase_ok ti content v l' m' r ph' \<and>
    mutex_moves t ph k ph' k'"
proof -
  let ?D = "piece_data ti content"
  have env: "lt_ok api v ?D" "keeps_requests api v" "ti_ok ti"
    using assms(1) by (simp_all add: readers_env_def)
  have stay: "undisturbed v ?D l m l m" using assms(3,4) by (rule undisturbed_refl)
  show ?thesis
  proof (cases ph)
    case (Planning off rem req calls)
    show ?thesis
    proof (cases calls)
      case Nil
      then show ?thesis
        using Planning assms(5,6) stay range_pieces_stop [of rem ti "rd_file r" off]
          planning_check_ok [OF assms(1-4) assms(5) [unfolded Planning Nil]]
        by (auto simp: mutex_moves_def Let_def split: if_splits prod.splits)
    next
      case (Cons q calls')
      obtain p n where q: "q = (p, n)" by (cases q)
      have "0 < n" using assms(5) Planning Cons q by simp
      note pr = priority_undisturbed [OF env(1,2) assms(3,4) this, of p]
      show ?thesis
        using Planning Cons q assms(5,6) pr undisturbed_wanted [OF pr(1)] by (auto simp: mutex_moves_def) blast
    qed
  next
    case (Locking req)
    then show ?thesis using assms(5,6) stay by (auto simp: mutex_moves_def split: if_splits)
  next
    case (Early ps)
    show ?thesis
    proof (cases ps)
      case Nil
      then show ?thesis
        using Early assms(2,5,6) stay
        by (auto simp: mutex_moves_def filled_0 reader_wf_def call_ok_def)
    next
      case (Cons p ps')
      obtain h l1 where h: "have_piece api l p = (h, l1)" by fastforce
      note hp = have_piece_undisturbed(1) [OF env(1,2) assms(3,4) h]
      show ?thesis
        using Early Cons assms(5,6) h hp undisturbed_wanted [OF hp] by (auto simp: mutex_moves_def split: if_splits)
    qed
  next
    case (EarlyRead p ps)
    note rp = read_piece_undisturbed(1) [OF env(1,2) assms(3,4), of p]
    show ?thesis using EarlyRead assms(5,6) rp undisturbed_wanted [OF rp] by (auto simp: mutex_moves_def)
  next
    case (Copying g off rem rp temp buf)
    then show ?thesis
      using copying_step_ok [OF assms(1-4) assms(5) [unfolded Copying]] assms(6)
      by (auto simp: mutex_moves_def split: prod.splits)
  next
    case (Unlocking rp buf)
    then show ?thesis using assms(5,6) stay by (auto simp: mutex_moves_def)
  next
    case (Returned rp buf)
    then show ?thesis using assms(6) by simp
  next
    case (Crashed f)
    then show ?thesis using assms(6) by simp
  qed
qed

lemma sys_step_ok:
  assumes "readers_env api v ti content" "sys_ok ti content v s" "sys_step api ti s s'"
  shows "sys_ok ti content v s'"
proof -
  obtain rs l m k where s: "s = (rs, l, m, k)" by (metis prod_cases4)
  obtain t ph l' m' k' where t: "t < length rs"
      and st: "phase_step api ti t (rs ! t) (rd_phase (rs ! t)) (l, m, k) = Some (ph, l', m', k')"
      and s': "s' = (rs[t := (rs ! t)\<lparr>rd_phase := ph\<rparr>], l', m', k')"
    using assms(3) unfolding s by (elim sys_stepE) (metis prod_cases3)
  have inv: "v_inv v l" "cache_ok (piece_data ti content) m"
    "\<And>t. k = Some t \<longleftrightarrow> t < length rs \<and> holds_mutex (rd_phase (rs ! t))"
    "\<And>r. r \<in> set rs \<Longrightarrow> reader_wf ti r \<and> phase_ok ti content v l m r (rd_phase r)"
    using assms(2) by (auto simp: sys_ok_def s)
  let ?r = "rs ! t" and ?r' = "(rs ! t)\<lparr>rd_phase := ph\<rparr>"
  have r: "reader_wf ti ?r" "phase_ok ti content v l m ?r (rd_phase ?r)" using inv(4) t by simp_all
  note ok = phase_step_ok [OF assms(1) r(1) inv(1,2) r(2) st]
  have u: "undisturbed v (piece_data ti content) l m l' m'" using ok by blast
  have "reader_wf ti x \<and> phase_ok ti content v l' m' x (rd_phase x)" if "x \<in> set (rs[t := ?r'])" for x
  proof (cases "x = ?r'")
    case True
    have "phase_ok ti content v l' m' ?r' ph = phase_ok ti content v l' m' ?r ph"
      by (cases ph) (simp_all add: filled_def)
    then show ?thesis using True ok r(1) by (simp add: reader_wf_def)
  next
    case False
    then have "x \<in> set rs" using that set_update_subset_insert [of rs t ?r'] by auto
    then show ?thesis using inv(4) phase_ok_undisturbed [OF u] by blast
  qed
  moreover have "k' = Some u \<longleftrightarrow> u < length rs \<and> holds_mutex (rd_phase (rs[t := ?r'] ! u))" for u
  proof (cases "u = t")
    case True
    then show ?thesis using ok inv(3) [of t] t by (auto simp: mutex_moves_def split: if_splits)
  next
    case False
    then show ?thesis using ok inv(3) [of t] inv(3) [of u] t
      by (auto simp: mutex_moves_def split: if_splits)
  qed
  ultimately show ?thesis using u by (auto simp: sys_ok_def s' undisturbed_def keeps_wanted_def)
qed

lemma start_ok:
  assumes "v_inv v l" "cache_ok (piece_data ti content) m" "\<forall>c\<in>set calls. call_ok ti c"
  shows "sys_ok ti content v (start_readers calls, l, m, None)"
proof -
  have "\<not> holds_mutex (rd_phase (start_readers calls ! t))" if "t < length (start_readers calls)" for t
    using that by (auto simp: start_readers_def new_reader_def split: prod.splits)
  moreover have "reader_wf ti r \<and> phase_ok ti content v l m r (rd_phase r)" if "r \<in> set (start_readers calls)" for r
    using that assms(3) by (auto simp: start_readers_def new_reader_def reader_wf_def call_ok_def)
  ultimately show ?thesis using assms(1,2) by (auto simp: sys_ok_def)
qed

lemma reachable_ok:
  assumes "readers_env api v ti content" "reachable api ti s0 s" "sys_ok ti content v s0"
  shows "sys_ok ti content v s"
  using assms(2,3) by (induction rule: reachable.induct) (auto intro: sys_step_ok [OF assms(1)])

section \<open>Every step makes progress\<close>

text \<open>
  The work left to a reader counts its steps except polling. Polling is counted by how long the
  session still makes the holder of the mutex wait.
\<close>

definition chunk_count :: "torrent_info \<Rightarrow> int \<Rightarrow> int \<Rightarrow> int \<Rightarrow> nat" where
  "chunk_count ti idx off rem = length (chunks (read_chunk ti idx) off rem)"

fun stage_work :: "stage \<Rightarrow> nat" where
  "stage_work Check = 6"
| "stage_work Recheck = 5"
| "stage_work Poll = 5"
| "stage_work Seek = 4"
| "stage_work PollBuffer = 3"
| "stage_work Copy = 2"

fun work :: "torrent_info \<Rightarrow> reader \<Rightarrow> phase \<Rightarrow> nat" where
  "work ti r (Planning off rem req calls) = length calls + 6 * chunk_count ti (rd_file r) off rem +
     2 * card req + 10 * chunk_count ti (rd_file r) (rd_off r) (rd_len r) + 11"
| "work ti r (Locking req) = 2 * card req + 10 * chunk_count ti (rd_file r) (rd_off r) (rd_len r) + 10"
| "work ti r (Early ps) = 2 * length ps + 10 * chunk_count ti (rd_file r) (rd_off r) (rd_len r) + 9"
| "work ti r (EarlyRead p ps) = 2 * length ps + 10 * chunk_count ti (rd_file r) (rd_off r) (rd_len r) + 10"
| "work ti r (Copying g off rem rp temp buf) = 10 * chunk_count ti (rd_file r) off rem + stage_work g + 2"
| "work ti r (Unlocking rp buf) = 1"
| "work ti r (Returned rp buf) = 0"
| "work ti r (Crashed f) = 0"

fun polls :: "torrent_info \<Rightarrow> 'l lt_view \<Rightarrow> 'l \<Rightarrow> reader \<Rightarrow> phase \<Rightarrow> nat" where
  "polls ti v l r (Copying Recheck off rem rp temp buf) = 2 * v_eta v l (chunk_piece ti (rd_file r) off rem) + 1"
| "polls ti v l r (Copying Poll off rem rp temp buf) = max 2 (2 * v_eta v l (chunk_piece ti (rd_file r) off rem))"
| "polls ti v l r (Copying PollBuffer off rem rp temp buf) =
     (case v_due v l (chunk_piece ti (rd_file r) off rem) of None \<Rightarrow> 0 | Some n \<Rightarrow> n)"
| "polls ti v l r ph = 0"

lemma chunk_count_more:
  assumes "ti_ok ti" "valid_file ti idx" "0 \<le> off" "0 < rem" "off + rem \<le> ti_file_size ti idx"
  shows "chunk_count ti idx off rem =
    Suc (chunk_count ti idx (off + read_chunk ti idx off rem) (rem - read_chunk ti idx off rem))"
  unfolding chunk_count_def by (subst chunks_head [OF assms]) simp

lemma chunk_count_stop: "rem \<le> 0 \<Longrightarrow> chunk_count ti idx off rem = 0"
  by (simp add: chunk_count_def chunks.simps)

lemma copying_step_progress:
  assumes "readers_env api v ti content" "reader_wf ti r" "v_inv v l" "cache_ok (piece_data ti content) m"
    and "phase_ok ti content v l m r (Copying g off rem rp temp buf)"
    and "copying_step api ti (rd_file r) g off rem rp temp buf l m = (ph', l', m')"
  shows "work ti r ph' < work ti r (Copying g off rem rp temp buf) \<or>
    work ti r ph' = work ti r (Copying g off rem rp temp buf) \<and>
      polls ti v l' r ph' < polls ti v l r (Copying g off rem rp temp buf)"
proof -
  let ?p = "chunk_piece ti (rd_file r) off rem" and ?D = "piece_data ti content"
  have env: "lt_ok api v ?D" "keeps_requests api v" "ti_ok ti"
    using assms(1) by (simp_all add: readers_env_def)
  obtain h l1 where h: "have_piece api l ?p = (h, l1)" by fastforce
  note hp = have_piece_undisturbed [OF env(1,2) assms(3,4) h]
  obtain l2 m2 where g: "get_piece_buffers api l m = (l2, m2)" by fastforce
  note gp = get_piece_buffers_after [OF env(1) assms(3,4) g]
  have e2: "v_eta v l2 ?p \<le> v_eta v l ?p" using gp(1) by (simp add: lt_after_def no_loss_def)
  have range: "valid_file ti (rd_file r)" "0 \<le> off" "off + rem \<le> ti_file_size ti (rd_file r)"
    using assms(2,5) by (auto simp: reader_wf_def call_ok_def)
  show ?thesis
  proof (cases g)
    case Check
    then show ?thesis using assms(6) h by (auto split: if_splits)
  next
    case Recheck
    then show ?thesis using assms(6) h hp by (auto split: if_splits)
  next
    case Poll
    have rem: "0 < rem" and "\<forall>p\<in>range_pieces ti (rd_file r) off rem. wanted v l p"
      using assms(5) Poll by simp_all
    then have "wanted v l ?p"
      using range_pieces_more [OF env(3) range(1,2) rem range(3)]
        chunk_piece_eq [OF env(3) range(1,2), of rem] range(3) by simp
    then have "0 < v_eta v l ?p \<Longrightarrow> v_eta v l2 ?p < v_eta v l ?p"
      using gp(4) [of ?p] by (simp add: wanted_def)
    then have "2 * v_eta v l2 ?p + 1 < max 2 (2 * v_eta v l ?p)" using e2 by (cases "v_eta v l ?p") auto
    then show ?thesis using Poll assms(6) g by auto
  next
    case Seek
    then show ?thesis using assms(6) by (auto split: if_splits)
  next
    case PollBuffer
    have "m2 ?p = None \<Longrightarrow> \<exists>n k. v_due v l ?p = Some n \<and> v_due v l2 ?p = Some k \<and> k < n"
      using assms(5) PollBuffer gp(3) [of ?p] gp(5) [of ?p] by (cases "v_due v l ?p") (auto simp: coming_def)
    then show ?thesis using PollBuffer assms(6) g by (auto split: if_splits)
  next
    case Copy
    have "0 < rem" using assms(5) Copy by simp
    from chunk_count_more [OF env(3) range(1,2) this range(3)] show ?thesis
      using copy_stage_ok [OF assms(1-4) assms(5) [unfolded Copy]] assms(6) unfolding Copy by auto
  qed
qed

lemma phase_step_progress:
  assumes "readers_env api v ti content" "reader_wf ti r" "v_inv v l" "cache_ok (piece_data ti content) m"
    and "phase_ok ti content v l m r ph" "phase_step api ti t r ph (l, m, k) = Some (ph', l', m', k')"
  shows "work ti r ph' < work ti r ph \<or>
    work ti r ph' = work ti r ph \<and> polls ti v l' r ph' < polls ti v l r ph \<and> holds_mutex ph \<and> k' = k"
proof (cases ph)
  case (Planning off rem req calls)
  have ti: "ti_ok ti" using assms(1) by (simp add: readers_env_def)
  have range: "valid_file ti (rd_file r)" "0 \<le> off" "off + rem \<le> ti_file_size ti (rd_file r)"
    using assms(2,5) Planning by (auto simp: reader_wf_def call_ok_def)
  show ?thesis
  proof (cases calls)
    case Nil
    let ?p = "chunk_piece ti (rd_file r) off rem"
    have "finite req" using assms(5) Planning by simp
    then have "card (insert ?p req) \<le> Suc (card req)" by (simp add: card_insert_if)
    then show ?thesis
      using Planning Nil assms(6) priority_calls_len [of ti ?p] chunk_count_more [OF ti range(1,2) _ range(3)]
      by (auto simp: Let_def chunk_count_stop split: if_splits prod.splits)
  next
    case (Cons q calls')
    then show ?thesis using Planning assms(6) by (cases q) auto
  qed
next
  case (Locking req)
  then show ?thesis using assms(5,6) by (auto split: if_splits)
next
  case (Early ps)
  then show ?thesis using assms(6) by (cases ps) (auto split: if_splits prod.splits)
next
  case (EarlyRead p ps)
  then show ?thesis using assms(6) by auto
next
  case (Copying g off rem rp temp buf)
  then show ?thesis
    using copying_step_progress [OF assms(1-4) assms(5) [unfolded Copying]] assms(6)
    by (auto split: prod.splits)
next
  case (Unlocking rp buf)
  then show ?thesis using assms(6) by auto
next
  case (Returned rp buf)
  then show ?thesis using assms(6) by simp
next
  case (Crashed f)
  then show ?thesis using assms(6) by simp
qed

definition sys_work :: "torrent_info \<Rightarrow> 'l system \<Rightarrow> nat" where
  "sys_work ti s = (case s of (rs, sh) \<Rightarrow> sum_list (map (\<lambda>r. work ti r (rd_phase r)) rs))"

definition sys_polls :: "torrent_info \<Rightarrow> 'l lt_view \<Rightarrow> 'l system \<Rightarrow> nat" where
  "sys_polls ti v s = (case s of (rs, l, m, k) \<Rightarrow>
     (case k of None \<Rightarrow> 0 | Some t \<Rightarrow> polls ti v l (rs ! t) (rd_phase (rs ! t))))"

lemma sys_step_progress:
  assumes "readers_env api v ti content" "sys_ok ti content v s" "sys_step api ti s s'"
  shows "(sys_work ti s', sys_polls ti v s') < (sys_work ti s, sys_polls ti v s)"
proof -
  obtain rs l m k where s: "s = (rs, l, m, k)" by (metis prod_cases4)
  obtain t ph l' m' k' where t: "t < length rs"
      and st: "phase_step api ti t (rs ! t) (rd_phase (rs ! t)) (l, m, k) = Some (ph, l', m', k')"
      and s': "s' = (rs[t := (rs ! t)\<lparr>rd_phase := ph\<rparr>], l', m', k')"
    using assms(3) unfolding s by (elim sys_stepE) (metis prod_cases3)
  let ?r = "rs ! t" and ?r' = "(rs ! t)\<lparr>rd_phase := ph\<rparr>"
  have inv: "v_inv v l" "cache_ok (piece_data ti content) m" "reader_wf ti ?r"
      "phase_ok ti content v l m ?r (rd_phase ?r)" "holds_mutex (rd_phase ?r) \<Longrightarrow> k = Some t"
    using assms(2) t by (auto simp: sys_ok_def s)
  have same: "work ti ?r' ph = work ti ?r ph" "polls ti v l' ?r' ph = polls ti v l' ?r ph"
    by (cases ph, simp_all) (cases "(ti, v, l', ?r, ph)" rule: polls.cases, simp_all)
  define ws where "ws = map (\<lambda>r. work ti r (rd_phase r)) rs"
  have w: "sys_work ti s = sum_list ws" "sys_work ti s' = sum_list (ws[t := work ti ?r ph])"
    by (simp_all add: sys_work_def s s' ws_def map_update same)
  have le: "t < length ws" "ws ! t = work ti ?r (rd_phase ?r)"
    using t by (simp_all add: ws_def)
  note le_sum = elem_le_sum_list [OF le(1)]
  have upd: "sum_list (ws[t := work ti ?r ph]) = sum_list ws + work ti ?r ph - work ti ?r (rd_phase ?r)"
    using sum_list_update [OF le(1)] le(2) by simp
  from phase_step_progress [OF assms(1) inv(3,1,2,4) st] show ?thesis
  proof
    assume "work ti ?r ph < work ti ?r (rd_phase ?r)"
    then have "sys_work ti s' < sys_work ti s" using w upd le le_sum by simp
    then show ?thesis by (simp add: less_prod_def)
  next
    assume a: "work ti ?r ph = work ti ?r (rd_phase ?r) \<and>
      polls ti v l' ?r ph < polls ti v l ?r (rd_phase ?r) \<and> holds_mutex (rd_phase ?r) \<and> k' = k"
    then have "sys_work ti s' = sys_work ti s" using w upd le le_sum by simp
    moreover have "sys_polls ti v s' < sys_polls ti v s"
      using a inv(5) t same(2) by (simp add: sys_polls_def s s')
    ultimately show ?thesis by (simp add: less_prod_def)
  qed
qed

text \<open>While somebody has not returned, somebody can move.\<close>

lemma holder_moves:
  assumes "holds_mutex ph"
  shows "phase_step api ti t r ph (l, m, k) \<noteq> None"
proof (cases ph)
  case (Early ps)
  then show ?thesis by (cases ps) (auto split: prod.splits)
qed (use assms in \<open>auto split: prod.splits\<close>)

lemma phase_moves:
  assumes "phase_step api ti t r ph (l, m, k) = None"
  shows "(\<exists>req. ph = Locking req \<and> k \<noteq> None) \<or> (\<exists>rp buf. ph = Returned rp buf) \<or> (\<exists>f. ph = Crashed f)"
proof (cases ph)
  case (Planning off rem req calls)
  then show ?thesis using assms
    by (cases calls) (auto simp: Let_def split: if_splits prod.splits)
qed (use assms holder_moves [of ph api ti t r l m k] in \<open>auto split: if_splits\<close>)

lemma no_deadlock:
  assumes "sys_ok ti content v (rs, l, m, k)" "\<And>s'. \<not> sys_step api ti (rs, l, m, k) s'" "t < length rs"
  shows "\<exists>rp buf. rd_phase (rs ! t) = Returned rp buf"
proof -
  have stuck: "phase_step api ti u (rs ! u) (rd_phase (rs ! u)) (l, m, k) = None" if "u < length rs" for u
    using assms(2) sys_step.move [OF that] by (metis not_None_eq prod_cases3)
  have inv: "\<And>u. k = Some u \<longleftrightarrow> u < length rs \<and> holds_mutex (rd_phase (rs ! u))"
      "phase_ok ti content v l m (rs ! t) (rd_phase (rs ! t))"
    using assms(1,3) by (auto simp: sys_ok_def)
  have "k = None"
    using stuck holder_moves inv(1) by (metis not_None_eq)
  then show ?thesis using phase_moves [OF stuck [OF assms(3)]] inv(2) by auto
qed

lemma reach_end:
  assumes "readers_env api v ti content" "sys_ok ti content v s0"
  shows "\<exists>s. reachable api ti s0 s \<and> (\<nexists>s'. sys_step api ti s s')"
proof -
  have "reachable api ti s0 s \<Longrightarrow> \<exists>s1. reachable api ti s0 s1 \<and> (\<nexists>s'. sys_step api ti s1 s')" for s
  proof (induction "(sys_work ti s, sys_polls ti v s)" arbitrary: s rule: less_induct)
    case less
    show ?case
    proof (cases "\<exists>s'. sys_step api ti s s'")
      case True
      then obtain s' where s': "sys_step api ti s s'" by blast
      note sys_step_progress [OF assms(1) reachable_ok [OF assms(1) less.prems assms(2)] s']
      then show ?thesis using less.hyps reachable.move [OF less.prems s'] by blast
    next
      case False
      then show ?thesis using less.prems by blast
    qed
  qed
  then show ?thesis using reachable.start by blast
qed

text \<open>The calls themselves do not change.\<close>

definition rd_call :: "reader \<Rightarrow> int \<times> int \<times> int \<times> mem" where
  "rd_call r = (rd_file r, rd_off r, rd_len r, rd_buf r)"

lemma sys_step_calls: "sys_step api ti s s' \<Longrightarrow> map rd_call (fst s') = map rd_call (fst s)"
  by (induction rule: sys_step.induct) (simp add: map_update rd_call_def list_update_same_conv)

lemma reachable_calls: "reachable api ti s0 s \<Longrightarrow> map rd_call (fst s) = map rd_call (fst s0)"
  by (induction rule: reachable.induct) (simp_all add: sys_step_calls)

lemma start_calls: "map rd_call (start_readers calls) = calls"
  by (induction calls) (auto simp: start_readers_def new_reader_def rd_call_def)

text \<open>What a call has to return: the number of bytes and the buffer.\<close>

definition call_result :: "torrent_info \<Rightarrow> byte list \<Rightarrow> int \<times> int \<times> int \<times> mem \<Rightarrow> int \<times> mem" where
  "call_result ti content c = (case c of (idx, off, n, buf) \<Rightarrow>
     (n, map Some (take (nat n) (drop (nat off) (file_data ti content idx))) @ drop (nat n) buf))"

lemma returned_result:
  assumes "phase_ok ti content v l m r (Returned rp buf)"
  shows "(rp, buf) = call_result ti content (rd_call r)"
  using assms by (simp add: call_result_def rd_call_def filled_def)

lemma demo_keeps_requests: "keeps_requests demo_api sim_view"
  by (auto simp: keeps_requests_def demo_api_def sim_api_def sim_view_def split: if_splits)

lemma demo_readers_env: "readers_env demo_api sim_view demo_ti demo_content"
  using sim_ok [of "piece_data demo_ti demo_content", folded demo_api_def] demo_keeps_requests
    demo_ok(1) demo_content_ok by (simp add: readers_env_def)

definition demo_calls :: "(int \<times> int \<times> int \<times> mem) list" where
  "demo_calls = [(1, 0, 2, [None, None]), (0, 3, 2, [None, None])]"

lemma demo_calls_ok: "\<forall>c\<in>set demo_calls. call_ok demo_ti c"
  by (simp add: demo_calls_def call_ok_def valid_file_def demo_ti_def layout_def Let_def)

section \<open>Properties\<close>

text \<open>
  C4: several reads at once are safe. However the steps of the calls interleave, planning without
  the mutex included, at most one of them is between \<open>lock\<close> and \<open>unlock\<close>, none crashes, and
  each that has returned returned its own bytes, as if it had been alone.
\<close>

theorem readers_safe:
  assumes "readers_env api v ti content" "v_inv v l" "cache_ok (piece_data ti content) m"
    and "\<forall>c\<in>set calls. call_ok ti c"
    and "reachable api ti (start_readers calls, l, m, None) (rs, sh)"
  shows "length rs = length calls \<and>
    (\<forall>t u. t < length rs \<and> u < length rs \<and> holds_mutex (rd_phase (rs ! t)) \<and> holds_mutex (rd_phase (rs ! u)) \<longrightarrow> t = u) \<and>
    (\<forall>t < length rs. (\<forall>f. rd_phase (rs ! t) \<noteq> Crashed f) \<and>
      (\<forall>k buf. rd_phase (rs ! t) = Returned k buf \<longrightarrow> (k, buf) = call_result ti content (calls ! t)))"
proof -
  obtain l' m' k' where sh: "sh = (l', m', k')" by (metis prod_cases3)
  have ok: "sys_ok ti content v (rs, l', m', k')"
    using reachable_ok [OF assms(1,5) start_ok [OF assms(2-4)]] by (simp add: sh)
  have rc: "map rd_call rs = calls" using reachable_calls [OF assms(5)] by (simp add: start_calls)
  have each: "phase_ok ti content v l' m' (rs ! t) (rd_phase (rs ! t))" "rd_call (rs ! t) = calls ! t"
    if "t < length rs" for t
    using ok that rc by (auto simp: sys_ok_def)
  have crash: "rd_phase (rs ! t) \<noteq> Crashed f" if "t < length rs" for t f
    using each(1) [OF that] by auto
  have ret: "(k, buf) = call_result ti content (calls ! t)"
    if "t < length rs" "rd_phase (rs ! t) = Returned k buf" for t k buf
    using returned_result each [OF that(1)] that(2) by metis
  have "t = u" if "t < length rs" "u < length rs" "holds_mutex (rd_phase (rs ! t))" "holds_mutex (rd_phase (rs ! u))" for t u
  proof -
    have "\<And>t. k' = Some t \<longleftrightarrow> t < length rs \<and> holds_mutex (rd_phase (rs ! t))"
      using ok by (auto simp: sys_ok_def)
    then have "k' = Some t" "k' = Some u" using that by blast+
    then show ?thesis by simp
  qed
  moreover have "length rs = length calls" using rc by auto
  ultimately show ?thesis using crash ret by blast
qed

theorem readers_safe_witness:
  "\<exists>rs sh. reachable demo_api demo_ti (start_readers demo_calls, sim_init, \<lambda>_. None, None) (rs, sh) \<and>
     rd_phase (rs ! 0) = Returned 2 [Some 15, Some 16]"
proof -
  have c: "cache_ok (piece_data demo_ti demo_content) (\<lambda>_. None)" by (simp add: cache_ok_def)
  note ok = start_ok [OF sim_inv [of sim_init] c demo_calls_ok]
  obtain rs l m k where r: "reachable demo_api demo_ti (start_readers demo_calls, sim_init, \<lambda>_. None, None) (rs, l, m, k)"
      and e: "\<nexists>s'. sys_step demo_api demo_ti (rs, l, m, k) s'"
    using reach_end [OF demo_readers_env ok] by (metis prod_cases4)
  note safe = readers_safe [OF demo_readers_env sim_inv c demo_calls_ok r]
  have len: "0 < length rs" using safe by (simp add: demo_calls_def)
  obtain n buf where ret: "rd_phase (rs ! 0) = Returned n buf"
    using no_deadlock [OF reachable_ok [OF demo_readers_env r ok] _ len, of demo_api] e by blast
  have res: "call_result demo_ti demo_content (demo_calls ! 0) = (2, [Some 15, Some 16])" by code_simp
  have "(n, buf) = call_result demo_ti demo_content (demo_calls ! 0)" using safe len ret by blast
  then show ?thesis using r ret unfolding res by auto
qed

text \<open>
  C3: several reads at once all finish. There is no endless execution, whatever the scheduler
  does: each step leaves less work, or brings a piece or buffer that somebody waits for nearer.
  And an execution only ends when every call has returned its bytes, so nobody is left waiting
  for the mutex.
\<close>

theorem readers_finish:
  assumes "readers_env api v ti content" "v_inv v l" "cache_ok (piece_data ti content) m"
    and "\<forall>c\<in>set calls. call_ok ti c"
  shows "(\<nexists>run. run 0 = (start_readers calls, l, m, None) \<and> (\<forall>i. sys_step api ti (run i) (run (Suc i)))) \<and>
    (\<forall>rs sh. reachable api ti (start_readers calls, l, m, None) (rs, sh) \<and> (\<nexists>s'. sys_step api ti (rs, sh) s') \<longrightarrow>
      map rd_phase rs = map (\<lambda>c. case call_result ti content c of (k, buf) \<Rightarrow> Returned k buf) calls)"
proof
  have start: "sys_ok ti content v (start_readers calls, l, m, None)" by (rule start_ok [OF assms(2-4)])
  show "\<nexists>run. run 0 = (start_readers calls, l, m, None) \<and> (\<forall>i. sys_step api ti (run i) (run (Suc i)))"
  proof
    assume "\<exists>run. run 0 = (start_readers calls, l, m, None) \<and> (\<forall>i. sys_step api ti (run i) (run (Suc i)))"
    then obtain run where run: "run 0 = (start_readers calls, l, m, None)" "\<And>i. sys_step api ti (run i) (run (Suc i))"
      by blast
    have ok: "sys_ok ti content v (run i)" for i
      by (induction i) (use start run sys_step_ok [OF assms(1)] in \<open>auto\<close>)
    define f where "f i = (sys_work ti (run i), sys_polls ti v (run i))" for i
    have "f (Suc i) < f i" for i
      unfolding f_def using assms(1) ok run(2) by (rule sys_step_progress)
    moreover have "wf {(x :: nat \<times> nat, y). x < y}" by (rule wf)
    ultimately show False using wf_no_infinite_down_chainE [of "{(x, y). x < y}" f] by auto
  qed
  show "\<forall>rs sh. reachable api ti (start_readers calls, l, m, None) (rs, sh) \<and> (\<nexists>s'. sys_step api ti (rs, sh) s') \<longrightarrow>
      map rd_phase rs = map (\<lambda>c. case call_result ti content c of (k, buf) \<Rightarrow> Returned k buf) calls"
  proof (intro allI impI)
    fix rs sh
    assume a: "reachable api ti (start_readers calls, l, m, None) (rs, sh) \<and> (\<nexists>s'. sys_step api ti (rs, sh) s')"
    obtain l' m' k' where sh: "sh = (l', m', k')" by (metis prod_cases3)
    have ok: "sys_ok ti content v (rs, l', m', k')"
      using reachable_ok [OF assms(1) _ start] a by (simp add: sh)
    have rc: "map rd_call rs = calls" using reachable_calls a by (metis fst_conv start_calls)
    have "rd_phase r = (case call_result ti content (rd_call r) of (k, buf) \<Rightarrow> Returned k buf)" if r: "r \<in> set rs" for r
    proof -
      obtain t where t: "t < length rs" "rs ! t = r" using r by (auto simp: in_set_conv_nth)
      obtain rp buf where rp: "rd_phase r = Returned rp buf"
        using no_deadlock [OF ok _ t(1), of api] a t(2) unfolding sh by blast
      have "phase_ok ti content v l' m' r (rd_phase r)" using ok r by (auto simp: sys_ok_def)
      from returned_result [OF this [unfolded rp], symmetric] show ?thesis using rp by simp
    qed
    then show "map rd_phase rs = map (\<lambda>c. case call_result ti content c of (k, buf) \<Rightarrow> Returned k buf) calls"
      unfolding rc [symmetric] by simp
  qed
qed

theorem readers_finish_witness:
  "\<nexists>run. run 0 = (start_readers demo_calls, sim_init, \<lambda>_. None, None) \<and>
     (\<forall>i. sys_step demo_api demo_ti (run i) (run (Suc i)))"
proof -
  have "cache_ok (piece_data demo_ti demo_content) (\<lambda>_. None)" by (simp add: cache_ok_def)
  from readers_finish [OF demo_readers_env sim_inv this demo_calls_ok, of sim_init] show ?thesis by blast
qed

end
