(* ===== verification/Solo_Reader.thy ===== *)
theory Solo_Reader
  imports Readers
begin

text \<open>
  A reader of the interleaved model that runs alone is a call of \<open>FS::read\<close>: the steps of \<open>phase_step\<close>,
  one after the other, are the loops of \<open>fs_read\<close>, and so both come to the same end, or to none.
  Nothing is assumed of libtorrent here.
\<close>

section \<open>One reader alone\<close>

definition solo_step :: "'l lt_api \<Rightarrow> torrent_info \<Rightarrow> reader \<Rightarrow> phase \<times> 'l shared \<Rightarrow> phase \<times> 'l shared \<Rightarrow> bool" where
  "solo_step api ti r x y \<longleftrightarrow> phase_step api ti 0 r (fst x) (snd x) = Some y"

abbreviation runs :: "'l lt_api \<Rightarrow> torrent_info \<Rightarrow> reader \<Rightarrow> phase \<times> 'l shared \<Rightarrow> phase \<times> 'l shared \<Rightarrow> bool" where
  "runs api ti r \<equiv> rtranclp (solo_step api ti r)"

lemma runs_step: "phase_step api ti 0 r ph sh = Some y \<Longrightarrow> runs api ti r y z \<Longrightarrow> runs api ti r (ph, sh) z"
  by (rule converse_rtranclp_into_rtranclp) (simp_all add: solo_step_def)

lemma runs_trans: "runs api ti r x y \<Longrightarrow> runs api ti r y z \<Longrightarrow> runs api ti r x z"
  by (rule rtranclp_trans)

lemma phase_step_frame: "phase_step api ti t (r\<lparr>rd_phase := x\<rparr>) ph sh = phase_step api ti t r ph sh"
proof (cases ph)
  case (Planning off rem req calls)
  then show ?thesis by (cases sh; cases calls) auto
next
  case (Early ps)
  then show ?thesis by (cases sh; cases ps) auto
qed (cases sh; auto)+

section \<open>What a reader has left to do\<close>

text \<open>The part of \<open>FS::read\<close> that follows each phase: bytes read, buffer, session and buffer map.\<close>

definition after_fetch ::
  "'l lt_api \<Rightarrow> torrent_info \<Rightarrow> int \<Rightarrow> int \<Rightarrow> int \<Rightarrow> int \<Rightarrow> mem \<Rightarrow> mem \<Rightarrow> 'l \<times> cache \<Rightarrow> (int \<times> mem \<times> 'l \<times> cache) outcome" where
  "after_fetch api ti idx off rem rp temp buf s =
     (let p = chunk_piece ti idx off rem; n = read_chunk ti idx off rem in
      case snd s p of None \<Rightarrow> Some (Inl NullPointer)
      | Some pb \<Rightarrow>
        (case memcpy temp 0 (map Some pb) 0 (ti_piece_size ti p) of Inl f \<Rightarrow> Some (Inl f)
         | Inr temp' \<Rightarrow>
           (case memcpy buf rp temp' (chunk_start ti idx off rem) n of Inl f \<Rightarrow> Some (Inl f)
            | Inr buf' \<Rightarrow> copy_loop api ti idx (off + n) (rem - n) (rp + n) temp' buf' (fst s) (snd s))))"

definition after_wait ::
  "'l lt_api \<Rightarrow> torrent_info \<Rightarrow> int \<Rightarrow> int \<Rightarrow> int \<Rightarrow> int \<Rightarrow> mem \<Rightarrow> mem \<Rightarrow> 'l \<times> cache \<Rightarrow> (int \<times> mem \<times> 'l \<times> cache) outcome" where
  "after_wait api ti idx off rem rp temp buf s =
     Option.bind (fetch_piece_buffer api (chunk_piece ti idx off rem) (fst s) (snd s))
       (after_fetch api ti idx off rem rp temp buf)"

fun copying_rest ::
  "'l lt_api \<Rightarrow> torrent_info \<Rightarrow> int \<Rightarrow> stage \<Rightarrow> int \<Rightarrow> int \<Rightarrow> int \<Rightarrow> mem \<Rightarrow> mem \<Rightarrow> 'l \<Rightarrow> cache \<Rightarrow>
   (int \<times> mem \<times> 'l \<times> cache) outcome" where
  "copying_rest api ti idx Check off rem rp temp buf l m = copy_loop api ti idx off rem rp temp buf l m"
| "copying_rest api ti idx Recheck off rem rp temp buf l m =
     (case have_piece api l (chunk_piece ti idx off rem) of (h, l') \<Rightarrow>
        Option.bind (wait_loop api (chunk_piece ti idx off rem) h l' m) (after_wait api ti idx off rem rp temp buf))"
| "copying_rest api ti idx Poll off rem rp temp buf l m =
     Option.bind (wait_loop api (chunk_piece ti idx off rem) False l m) (after_wait api ti idx off rem rp temp buf)"
| "copying_rest api ti idx Seek off rem rp temp buf l m = after_wait api ti idx off rem rp temp buf (l, m)"
| "copying_rest api ti idx PollBuffer off rem rp temp buf l m =
     Option.bind (buffer_loop api (chunk_piece ti idx off rem) False l m) (after_fetch api ti idx off rem rp temp buf)"
| "copying_rest api ti idx Copy off rem rp temp buf l m = after_fetch api ti idx off rem rp temp buf (l, m)"

definition copy_all ::
  "'l lt_api \<Rightarrow> torrent_info \<Rightarrow> reader \<Rightarrow> 'l \<Rightarrow> cache \<Rightarrow> (int \<times> mem \<times> 'l \<times> cache) outcome" where
  "copy_all api ti r l m = copy_loop api ti (rd_file r) (rd_off r) (rd_len r) 0
     (replicate (nat (ti_piece_length ti)) None) (rd_buf r) l m"

fun rest :: "'l lt_api \<Rightarrow> torrent_info \<Rightarrow> reader \<Rightarrow> phase \<Rightarrow> 'l \<Rightarrow> cache \<Rightarrow> (int \<times> mem \<times> 'l \<times> cache) outcome" where
  "rest api ti r (Planning off rem req calls) l m =
     Option.bind (plan_loop api ti (rd_file r) off rem req (fold (\<lambda>(q, n) l. piece_priority api l q n) calls l))
       (\<lambda>(req', l'). copy_all api ti r (early_reads api (sorted_list_of_set req') l') m)"
| "rest api ti r (Locking req) l m = copy_all api ti r (early_reads api (sorted_list_of_set req) l) m"
| "rest api ti r (Early ps) l m = copy_all api ti r (early_reads api ps l) m"
| "rest api ti r (EarlyRead p ps) l m = copy_all api ti r (early_reads api ps (read_piece api l p)) m"
| "rest api ti r (Copying g off rem rp temp buf) l m = copying_rest api ti (rd_file r) g off rem rp temp buf l m"
| "rest api ti r (Unlocking rp buf) l m = Some (Inr (rp, buf, l, m))"
| "rest api ti r (Returned rp buf) l m = Some (Inr (rp, buf, l, m))"
| "rest api ti r (Crashed f) l m = Some (Inl f)"

text \<open>A round of the copying loop, taken apart.\<close>

lemma copy_loop_round:
  assumes "0 < rem"
  shows "copy_loop api ti idx off rem rp temp buf l m =
    Option.bind (wait_for_piece_download api (chunk_piece ti idx off rem) l m) (after_wait api ti idx off rem rp temp buf)"
  using assms
  by (subst copy_loop.simps)
    (auto simp: copy_round_def after_wait_def after_fetch_def Let_def bind_eq_None_conv
      split: option.splits sum.splits Option.bind_splits)

lemma wait_unfold:
  "wait_for_piece_download api p l m = (case have_piece api l p of (h, l1) \<Rightarrow>
     if h then Some (l1, m) else (case have_piece api l1 p of (h', l2) \<Rightarrow> wait_loop api p h' l2 m))"
  by (simp add: wait_for_piece_download_def Let_def split: prod.split)

text \<open>A step does not change what the whole comes to.\<close>

lemma copying_step_rest:
  assumes "copying_step api ti (rd_file r) g off rem rp temp buf l m = (ph, l', m')" "g \<noteq> Check \<longrightarrow> 0 < rem"
  shows "rest api ti r ph l' m' = copying_rest api ti (rd_file r) g off rem rp temp buf l m"
proof (cases g)
  case Check
  show ?thesis
  proof (cases "rem \<le> 0")
    case True
    then show ?thesis using assms(1) Check by (auto simp: copy_loop.simps)
  next
    case False
    then show ?thesis
      using assms(1) Check copy_loop_round [of rem api ti "rd_file r" off rp temp buf l m]
      by (auto simp: wait_unfold split: prod.splits if_splits)
  qed
next
  case Recheck
  then show ?thesis using assms(1) by (auto simp: wait_loop.simps [of _ _ True] split: prod.splits if_splits)
next
  case Poll
  then show ?thesis
    using assms(1) wait_loop.simps [of api "chunk_piece ti (rd_file r) off rem" False l m]
    by (auto split: prod.splits)
next
  case Seek
  then show ?thesis
    using assms(1) buffer_loop.simps [of api "chunk_piece ti (rd_file r) off rem" True l m]
    by (auto simp: after_wait_def fetch_piece_buffer_def split: if_splits)
next
  case PollBuffer
  then show ?thesis
    using assms(1) buffer_loop.simps [of api "chunk_piece ti (rd_file r) off rem" False l m]
    by (auto simp: buffer_loop.simps [of api _ True] split: prod.splits if_splits)
next
  case Copy
  then show ?thesis
    using assms(1) by (auto simp: after_fetch_def Let_def split: option.splits sum.splits)
qed

lemma holds_mutex_stage: "copying_step api ti idx g off rem rp temp buf l m = (ph, l', m') \<Longrightarrow>
    holds_mutex ph \<or> (\<exists>f. ph = Crashed f)"
  by (cases g) (auto simp: Let_def split: prod.splits if_splits option.splits sum.splits)

text \<open>
  The parts of a state that fit together: beyond the first test of a round something remains, and the
  mutex is held in the right phases. (A crash leaves it held.)
\<close>

fun solo_ok :: "phase \<Rightarrow> nat option \<Rightarrow> bool" where
  "solo_ok (Copying g off rem rp temp buf) k = ((g \<noteq> Check \<longrightarrow> 0 < rem) \<and> k = Some 0)"
| "solo_ok (Crashed f) k = True"
| "solo_ok ph k = (k = (if holds_mutex ph then Some 0 else None))"

lemma copying_step_solo_ok:
  assumes "copying_step api ti idx g off rem rp temp buf l m = (ph, l', m')" "g \<noteq> Check \<longrightarrow> 0 < rem"
  shows "solo_ok ph (Some 0)"
  using assms by (cases g) (auto simp: Let_def split: prod.splits if_splits option.splits sum.splits)

lemma solo_step_rest:
  assumes "phase_step api ti 0 r ph (l, m, k) = Some (ph', l', m', k')" "solo_ok ph k"
  shows "rest api ti r ph' l' m' = rest api ti r ph l m \<and> solo_ok ph' k'"
proof (cases ph)
  case (Planning off rem req calls)
  show ?thesis
  proof (cases calls)
    case Nil
    show ?thesis
    proof (cases "rem \<le> 0")
      case True
      then show ?thesis using assms Planning Nil by (auto simp: plan_loop.simps)
    next
      case False
      then show ?thesis
        using assms Planning Nil plan_loop.simps [of api ti "rd_file r" off rem req l]
        by (auto simp: Let_def plan_round_def raise_priorities_calls split: prod.splits if_splits)
    qed
  next
    case (Cons c calls')
    then show ?thesis using assms Planning by (cases c) auto
  qed
next
  case (Early ps)
  then show ?thesis
    using assms by (cases ps) (auto simp: copy_all_def Let_def split: prod.splits if_splits)
next
  case (Copying g off rem rp temp buf)
  obtain x l1 m1 where c: "copying_step api ti (rd_file r) g off rem rp temp buf l m = (x, l1, m1)"
    by (metis prod_cases3)
  have g: "g \<noteq> Check \<longrightarrow> 0 < rem" "k = Some 0" using assms(2) Copying by simp_all
  show ?thesis
    using assms(1) Copying c g copying_step_rest [OF c g(1)] copying_step_solo_ok [OF c g(1)] by auto
qed (use assms in \<open>auto split: if_splits\<close>)

lemma runs_rest:
  assumes "runs api ti r (ph, l, m, k) (ph', l', m', k')" "solo_ok ph k"
  shows "rest api ti r ph' l' m' = rest api ti r ph l m \<and> solo_ok ph' k'"
  using assms
proof (induction "(ph', l', m', k')" arbitrary: ph' l' m' k' rule: rtranclp_induct)
  case base
  then show ?case by simp
next
  case (step y)
  obtain p1 l1 m1 k1 where y: "y = (p1, l1, m1, k1)" by (metis prod_cases4)
  then show ?case
    using step.hyps(2) step.hyps(3) [OF y step.prems] solo_step_rest [of api ti r p1 l1 m1 k1 ph' l' m' k']
    by (simp add: solo_step_def)
qed

section \<open>The steps of a call that returns\<close>

lemma runs_calls:
  "runs api ti r (Planning off rem req calls, l, m, k)
     (Planning off rem req [], fold (\<lambda>(q, n) l. piece_priority api l q n) calls l, m, k)"
proof (induction calls arbitrary: l)
  case Nil
  then show ?case by simp
next
  case (Cons c calls)
  then show ?case by (cases c) (auto intro: runs_step)
qed

lemma runs_planning:
  "plan_loop api ti idx off rem req l = Some y \<Longrightarrow> idx = rd_file r \<Longrightarrow>
   runs api ti r (Planning off rem req [], l, m, k) (Locking (fst y), snd y, m, k)"
proof (induction arbitrary: m k rule: plan_loop.raw_induct [rotated, consumes 1, case_names step])
  case (step loop api ti idx off rem req l y)
  show ?case
  proof (cases "0 < rem")
    case False
    then show ?thesis using step(2) by (auto intro: runs_step)
  next
    case True
    let ?p = "chunk_piece ti idx off rem" and ?c = "read_chunk ti idx off rem"
    obtain h l0 where h: "have_piece api l ?p = (h, l0)" by fastforce
    let ?req = "if h then req else insert ?p req" and ?l = "if h then l0 else raise_priorities api ti ?p l0"
    have rd: "plan_round api ti idx off rem req l = (?req, ?l)"
      using h by (simp add: plan_round_def Let_def)
    then have "loop api ti idx (off + ?c) (rem - ?c) ?req ?l = Some y" using step(2) True by simp
    from step(1) [OF this step(3)]
    have more: "runs api ti r (Planning (off + ?c) (rem - ?c) ?req [], ?l, m, k) (Locking (fst y), snd y, m, k)" .
    let ?next = "if h then Planning (off + ?c) (rem - ?c) req []
      else Planning (off + ?c) (rem - ?c) (insert ?p req) (priority_calls ti ?p)"
    have "phase_step api ti 0 r (Planning off rem req []) (l, m, k) = Some (?next, l0, m, k)"
      using True h step(3) by (simp add: Let_def)
    moreover have "runs api ti r (?next, l0, m, k) (Planning (off + ?c) (rem - ?c) ?req [], ?l, m, k)"
      using runs_calls [of api ti r "off + ?c" "rem - ?c" "insert ?p req" "priority_calls ti ?p" l0 m k]
      by (simp add: raise_priorities_calls)
    ultimately show ?thesis using more by (blast intro: runs_step runs_trans)
  qed
qed

lemma runs_early: "runs api ti r (Early ps, l, m, k) (Early [], early_reads api ps l, m, k)"
proof (induction ps arbitrary: l)
  case Nil
  then show ?case by simp
next
  case (Cons p ps)
  obtain h l1 where h: "have_piece api l p = (h, l1)" by fastforce
  let ?l = "if h then read_piece api l1 p else l1"
  have "runs api ti r (Early (p # ps), l, m, k) (Early ps, ?l, m, k)"
    using h by (cases h) (auto intro!: runs_step)
  from runs_trans [OF this Cons.IH] show ?case using h by (simp add: Let_def)
qed

lemma runs_wait_loop:
  "wait_loop api p hve l m = Some y \<Longrightarrow> p = chunk_piece ti (rd_file r) off rem \<Longrightarrow>
   runs api ti r (Copying (if hve then Seek else Poll) off rem rp temp buf, l, m, k)
     (Copying Seek off rem rp temp buf, fst y, snd y, k)"
proof (induction rule: wait_loop.raw_induct [rotated, consumes 1, case_names step])
  case (step loop api p hve l m y)
  show ?case
  proof (cases hve)
    case True
    then show ?thesis using step(2) by auto
  next
    case False
    obtain l1 m1 where g: "get_piece_buffers api l m = (l1, m1)" by fastforce
    obtain h l2 where h: "have_piece api l1 p = (h, l2)" by fastforce
    have "loop api p h l2 m1 = Some y" using step(2) False g h by simp
    from step(1) [OF this step(3)]
    have more: "runs api ti r (Copying (if h then Seek else Poll) off rem rp temp buf, l2, m1, k)
        (Copying Seek off rem rp temp buf, fst y, snd y, k)" .
    have "phase_step api ti 0 r (Copying Poll off rem rp temp buf) (l, m, k) =
        Some (Copying Recheck off rem rp temp buf, l1, m1, k)"
      using g by simp
    moreover have "phase_step api ti 0 r (Copying Recheck off rem rp temp buf) (l1, m1, k) =
        Some (Copying (if h then Seek else Poll) off rem rp temp buf, l2, m1, k)"
      using h step(3) by simp
    ultimately show ?thesis using False more by (simp del: phase_step.simps) (blast intro: runs_step)
  qed
qed

lemma runs_wait:
  assumes "wait_for_piece_download api (chunk_piece ti (rd_file r) off rem) l m = Some (l', m')" "0 < rem"
  shows "runs api ti r (Copying Check off rem rp temp buf, l, m, k) (Copying Seek off rem rp temp buf, l', m', k)"
proof -
  let ?p = "chunk_piece ti (rd_file r) off rem"
  obtain h l1 where h: "have_piece api l ?p = (h, l1)" by fastforce
  obtain h2 l2 where h2: "have_piece api l1 ?p = (h2, l2)" by fastforce
  have 1: "phase_step api ti 0 r (Copying Check off rem rp temp buf) (l, m, k) =
      Some (Copying (if h then Seek else Recheck) off rem rp temp buf, l1, m, k)"
    using h assms(2) by simp
  show ?thesis
  proof (cases h)
    case True
    then have "(l', m') = (l1, m)" using assms(1) h by (simp add: wait_unfold)
    then show ?thesis using 1 True by (auto intro!: runs_step)
  next
    case False
    then have w: "wait_loop api ?p h2 l2 m = Some (l', m')" using assms(1) h h2 by (simp add: wait_unfold)
    have "phase_step api ti 0 r (Copying Recheck off rem rp temp buf) (l1, m, k) =
        Some (Copying (if h2 then Seek else Poll) off rem rp temp buf, l2, m, k)"
      using h2 by simp
    from runs_step [OF this runs_wait_loop [OF w refl]]
    have "runs api ti r (Copying Recheck off rem rp temp buf, l1, m, k) (Copying Seek off rem rp temp buf, l', m', k)"
      by simp
    then show ?thesis using runs_step [OF 1] False by simp
  qed
qed

lemma runs_buffer_loop:
  "buffer_loop api p hb l m = Some y \<Longrightarrow> p = chunk_piece ti (rd_file r) off rem \<Longrightarrow>
   runs api ti r (Copying (if hb then Copy else PollBuffer) off rem rp temp buf, l, m, k)
     (Copying Copy off rem rp temp buf, fst y, snd y, k)"
proof (induction rule: buffer_loop.raw_induct [rotated, consumes 1, case_names step])
  case (step loop api p hb l m y)
  show ?case
  proof (cases hb)
    case True
    then show ?thesis using step(2) by auto
  next
    case False
    obtain l1 m1 where g: "get_piece_buffers api l m = (l1, m1)" by fastforce
    have "loop api p (m1 p \<noteq> None) l1 m1 = Some y" using step(2) False g by simp
    from step(1) [OF this step(3)]
    have more: "runs api ti r (Copying (if m1 p \<noteq> None then Copy else PollBuffer) off rem rp temp buf, l1, m1, k)
        (Copying Copy off rem rp temp buf, fst y, snd y, k)" .
    have "phase_step api ti 0 r (Copying PollBuffer off rem rp temp buf) (l, m, k) =
        Some (Copying (if m1 p \<noteq> None then Copy else PollBuffer) off rem rp temp buf, l1, m1, k)"
      using g step(3) by simp
    then show ?thesis using False more by (simp del: phase_step.simps) (blast intro: runs_step)
  qed
qed

lemma runs_fetch:
  assumes "fetch_piece_buffer api (chunk_piece ti (rd_file r) off rem) l m = Some (l', m')"
  shows "runs api ti r (Copying Seek off rem rp temp buf, l, m, k) (Copying Copy off rem rp temp buf, l', m', k)"
proof -
  let ?p = "chunk_piece ti (rd_file r) off rem"
  let ?hb = "m ?p \<noteq> None"
  let ?l1 = "if \<not> ?hb then read_piece api l ?p else l"
  have "buffer_loop api ?p ?hb ?l1 m = Some (l', m')" using assms by (simp add: fetch_piece_buffer_def Let_def)
  from runs_buffer_loop [OF this refl]
  have "runs api ti r (Copying (if ?hb then Copy else PollBuffer) off rem rp temp buf, ?l1, m, k)
      (Copying Copy off rem rp temp buf, l', m', k)"
    by simp
  moreover have "phase_step api ti 0 r (Copying Seek off rem rp temp buf) (l, m, k) =
      Some (Copying (if ?hb then Copy else PollBuffer) off rem rp temp buf, ?l1, m, k)"
    by simp
  ultimately show ?thesis by (blast intro: runs_step)
qed

text \<open>Where a reader ends: before unlocking, or with a fault.\<close>

definition ended :: "phase \<Rightarrow> bool" where
  "ended ph \<longleftrightarrow> (\<exists>n b. ph = Unlocking n b) \<or> (\<exists>f. ph = Crashed f)"

lemma runs_copy_loop:
  "copy_loop api ti idx off rem rp temp buf l m = Some y \<Longrightarrow> idx = rd_file r \<Longrightarrow>
   \<exists>ph l' m'. runs api ti r (Copying Check off rem rp temp buf, l, m, k) (ph, l', m', k) \<and> ended ph"
proof (induction rule: copy_loop.raw_induct [rotated, consumes 1, case_names step])
  case (step loop api ti idx off rem rp temp buf l m y)
  show ?case
  proof (cases "0 < rem")
    case False
    then have "phase_step api ti 0 r (Copying Check off rem rp temp buf) (l, m, k) = Some (Unlocking rp buf, l, m, k)"
      by simp
    then show ?thesis by (meson ended_def rtranclp.rtrancl_refl runs_step)
  next
    case True
    let ?p = "chunk_piece ti idx off rem" and ?n = "read_chunk ti idx off rem"
    obtain res where cr: "copy_round api ti idx off rem rp temp buf l m = Some res"
      using step(2) True by (auto split: option.splits)
    then obtain l1 m1 l2 m2 where w: "wait_for_piece_download api ?p l m = Some (l1, m1)"
        and f: "fetch_piece_buffer api ?p l1 m1 = Some (l2, m2)"
      by (auto simp: copy_round_def Let_def split: option.splits)
    have there: "runs api ti r (Copying Check off rem rp temp buf, l, m, k) (Copying Copy off rem rp temp buf, l2, m2, k)"
      using runs_wait [of api ti r off rem l m l1 m1] runs_fetch [of api ti r off rem l1 m1 l2 m2] w f True step(3)
        runs_trans by metis
    show ?thesis
    proof (cases res)
      case (Inl e)
      then have "phase_step api ti 0 r (Copying Copy off rem rp temp buf) (l2, m2, k) = Some (Crashed e, l2, m2, k)"
        using cr w f step(3) by (auto simp: copy_round_def Let_def split: option.splits sum.splits)
      then show ?thesis using there by (meson ended_def rtranclp.rtrancl_refl runs_step runs_trans)
    next
      case (Inr x)
      then obtain temp' buf' where x: "x = (temp', buf', l2, m2)"
        using cr w f by (auto simp: copy_round_def Let_def split: option.splits sum.splits)
      then have st: "phase_step api ti 0 r (Copying Copy off rem rp temp buf) (l2, m2, k) =
          Some (Copying Check (off + ?n) (rem - ?n) (rp + ?n) temp' buf', l2, m2, k)"
        using cr w f step(3) Inr by (auto simp: copy_round_def Let_def split: option.splits sum.splits)
      have "loop api ti idx (off + ?n) (rem - ?n) (rp + ?n) temp' buf' l2 m2 = Some y"
        using step(2) True cr Inr x by simp
      from step(1) [OF this step(3)] show ?thesis
        using there st by (meson runs_step runs_trans)
    qed
  qed
qed

text \<open>So a call that comes to an end is a run that comes to an end.\<close>

lemma runs_to_end:
  assumes "rest api ti r (Planning off rem req []) l m \<noteq> None"
  shows "\<exists>ph sh. runs api ti r (Planning off rem req [], l, m, None) (ph, sh) \<and>
    ((\<exists>n b. ph = Returned n b) \<or> (\<exists>f. ph = Crashed f))"
proof -
  obtain req' l1 where p: "plan_loop api ti (rd_file r) off rem req l = Some (req', l1)"
    using assms by (cases "plan_loop api ti (rd_file r) off rem req l") auto
  let ?ps = "sorted_list_of_set req'" and ?temp = "replicate (nat (ti_piece_length ti)) (None :: byte option)"
  let ?l2 = "early_reads api ?ps l1"
  have "copy_all api ti r ?l2 m \<noteq> None" using assms p by simp
  then obtain y where y: "copy_loop api ti (rd_file r) (rd_off r) (rd_len r) 0 ?temp (rd_buf r) ?l2 m = Some y"
    by (auto simp: copy_all_def)
  have a: "runs api ti r (Planning off rem req [], l, m, None) (Locking req', l1, m, None)"
    using runs_planning [OF p refl] by simp
  have b: "phase_step api ti 0 r (Locking req') (l1, m, None) = Some (Early ?ps, l1, m, Some 0)" by simp
  have c: "phase_step api ti 0 r (Early []) (?l2, m, Some 0) =
      Some (Copying Check (rd_off r) (rd_len r) 0 ?temp (rd_buf r), ?l2, m, Some 0)"
    by simp
  obtain ph l3 m3 where d: "runs api ti r (Copying Check (rd_off r) (rd_len r) 0 ?temp (rd_buf r), ?l2, m, Some 0)
      (ph, l3, m3, Some 0)" "ended ph"
    using runs_copy_loop [OF y refl] by blast
  have all: "runs api ti r (Planning off rem req [], l, m, None) (ph, l3, m3, Some 0)"
    using a runs_step [OF b] runs_early [of api ti r ?ps l1 m "Some 0"] runs_step [OF c d(1)] runs_trans by metis
  show ?thesis
  proof (cases "\<exists>f. ph = Crashed f")
    case True
    then show ?thesis using all by blast
  next
    case False
    then obtain n b where "ph = Unlocking n b" using d(2) by (auto simp: ended_def)
    then have "phase_step api ti 0 r ph (l3, m3, Some 0) = Some (Returned n b, l3, m3, None)" by simp
    from runs_step [OF this rtranclp.rtrancl_refl] all runs_trans show ?thesis by metis
  qed
qed

section \<open>The system with one reader\<close>

lemma solo_reachable:
  "reachable api ti ([r], sh) s \<longleftrightarrow>
     (\<exists>ph sh'. s = ([r\<lparr>rd_phase := ph\<rparr>], sh') \<and> runs api ti r (rd_phase r, sh) (ph, sh'))"
proof
  assume "reachable api ti ([r], sh) s"
  then show "\<exists>ph sh'. s = ([r\<lparr>rd_phase := ph\<rparr>], sh') \<and> runs api ti r (rd_phase r, sh) (ph, sh')"
  proof (induction rule: reachable.induct)
    case start
    then show ?case by (intro exI [of _ "rd_phase r"] exI [of _ sh]) simp
  next
    case (move s s')
    then obtain ph sh1 where s: "s = ([r\<lparr>rd_phase := ph\<rparr>], sh1)" "runs api ti r (rd_phase r, sh) (ph, sh1)"
      by blast
    obtain ph' sh2 where "phase_step api ti 0 r ph sh1 = Some (ph', sh2)" "s' = ([r\<lparr>rd_phase := ph'\<rparr>], sh2)"
      using move.hyps(2) unfolding s(1) by (elim sys_stepE) (auto simp: phase_step_frame)
    moreover from this have "runs api ti r (rd_phase r, sh) (ph', sh2)"
      using s(2) by (intro rtranclp.rtrancl_into_rtrancl [OF s(2)]) (simp add: solo_step_def)
    ultimately show ?case by blast
  qed
next
  assume "\<exists>ph sh'. s = ([r\<lparr>rd_phase := ph\<rparr>], sh') \<and> runs api ti r (rd_phase r, sh) (ph, sh')"
  then obtain ph sh' where s: "s = ([r\<lparr>rd_phase := ph\<rparr>], sh')" "runs api ti r (rd_phase r, sh) (ph, sh')" by blast
  from s(2) have "reachable api ti ([r], sh) ([r\<lparr>rd_phase := ph\<rparr>], sh')"
  proof (induction "(ph, sh')" arbitrary: ph sh' rule: rtranclp_induct)
    case base
    then show ?case by (simp add: reachable.start)
  next
    case (step y)
    obtain p1 sh1 where y: "y = (p1, sh1)" by (cases y)
    have "sys_step api ti ([r\<lparr>rd_phase := p1\<rparr>], sh1)
        ([r\<lparr>rd_phase := p1\<rparr>] [0 := ([r\<lparr>rd_phase := p1\<rparr>] ! 0)\<lparr>rd_phase := ph\<rparr>], sh')"
      using step.hyps(2) by (intro sys_step.move) (simp_all add: y solo_step_def phase_step_frame)
    then show ?case using reachable.move [OF step.hyps(3) [OF y]] by simp
  qed
  then show "reachable api ti ([r], sh) s" by (simp add: s(1))
qed

lemma solo_stuck:
  "(\<nexists>s'. sys_step api ti ([r\<lparr>rd_phase := ph\<rparr>], sh) s') \<longleftrightarrow> phase_step api ti 0 r ph sh = None"
proof
  assume stuck: "\<nexists>s'. sys_step api ti ([r\<lparr>rd_phase := ph\<rparr>], sh) s'"
  show "phase_step api ti 0 r ph sh = None"
  proof (rule ccontr)
    assume "phase_step api ti 0 r ph sh \<noteq> None"
    then obtain ph' sh' where "phase_step api ti 0 r ph sh = Some (ph', sh')" by auto
    then have "sys_step api ti ([r\<lparr>rd_phase := ph\<rparr>], sh)
        ([r\<lparr>rd_phase := ph\<rparr>] [0 := ([r\<lparr>rd_phase := ph\<rparr>] ! 0)\<lparr>rd_phase := ph'\<rparr>], sh')"
      by (intro sys_step.move) (simp_all add: phase_step_frame)
    then show False using stuck by blast
  qed
next
  assume "phase_step api ti 0 r ph sh = None"
  then show "\<nexists>s'. sys_step api ti ([r\<lparr>rd_phase := ph\<rparr>], sh) s'"
    by (auto elim!: sys_stepE simp: phase_step_frame)
qed

text \<open>Where the system with one reader ends, and that it does when the reader has an end.\<close>

lemma solo_end:
  assumes "reachable api ti ([r], l0, m0, None) (rs, l, m, k)" "\<nexists>s'. sys_step api ti (rs, l, m, k) s'"
    and "solo_ok (rd_phase r) None"
  shows "(\<exists>c b. map rd_phase rs = [Returned c b] \<and> rest api ti r (rd_phase r) l0 m0 = Some (Inr (c, b, l, m)) \<and> k = None) \<or>
    (\<exists>f. map rd_phase rs = [Crashed f] \<and> rest api ti r (rd_phase r) l0 m0 = Some (Inl f))"
proof -
  obtain ph where ph: "rs = [r\<lparr>rd_phase := ph\<rparr>]" "runs api ti r (rd_phase r, l0, m0, None) (ph, l, m, k)"
    using assms(1) unfolding solo_reachable by auto
  note end_ok = runs_rest [OF ph(2) assms(3)]
  have "phase_step api ti 0 r ph (l, m, k) = None" using assms(2) unfolding ph(1) solo_stuck .
  from phase_moves [OF this] conjunct2 [OF end_ok]
  have "(\<exists>c b. ph = Returned c b) \<or> (\<exists>f. ph = Crashed f)" by auto
  then show ?thesis unfolding ph(1) conjunct1 [OF end_ok, symmetric] using conjunct2 [OF end_ok] by auto
qed

lemma solo_ends:
  assumes "rd_phase r = Planning off rem req []" "rest api ti r (rd_phase r) l m \<noteq> None"
  shows "\<exists>s. reachable api ti ([r], l, m, None) s \<and> (\<nexists>s'. sys_step api ti s s')"
proof -
  obtain ph sh where e: "runs api ti r (rd_phase r, l, m, None) (ph, sh)"
      "(\<exists>c b. ph = Returned c b) \<or> (\<exists>f. ph = Crashed f)"
    using runs_to_end [OF assms(2) [unfolded assms(1)]] unfolding assms(1) by blast
  then have "phase_step api ti 0 r ph sh = None" by (cases sh) auto
  then have "\<nexists>s'. sys_step api ti ([r\<lparr>rd_phase := ph\<rparr>], sh) s'" by (simp only: solo_stuck)
  moreover have "reachable api ti ([r], l, m, None) ([r\<lparr>rd_phase := ph\<rparr>], sh)"
    unfolding solo_reachable using e(1) by blast
  ultimately show ?thesis by blast
qed

text \<open>What \<open>fs_read\<close> does past its lookups is what a new reader has to do.\<close>

lemma fs_read_rest:
  assumes "mounted split ti st" "get_file_index path st = Inr i" "valid_file ti i" "0 \<le> ti_file_size ti i"
    and "ti_file_size ti i \<le> INT_MAX" "uint n \<le> INT_MAX" "0 \<le> sint off" "sint off < ti_file_size ti i"
    and "\<not> mutex_held st" "r = new_reader i (sint off) (min (uint n) (ti_file_size ti i - sint off)) buf"
  shows "fs_read api path buf n off st =
    (case rest api ti r (rd_phase r) (session st) (piece_buffer_map st) of
       None \<Rightarrow> None
     | Some (Inl f) \<Rightarrow> Some (Inl f)
     | Some (Inr (count, buf', l, m)) \<Rightarrow>
         Some (Inr (count, buf', set_mutex False ((set_mutex True st)\<lparr>session := l, piece_buffer_map := m\<rparr>))))"
proof -
  obtain tm where tm: "deref_tmeta st = Inr tm" "thandle tm = TorrentHandle ti"
    using assms(1) by (auto simp: mounted_def split: sum.splits)
  have unl: "\<not> fsmtx tm" using assms(9) tm by (simp add: mutex_held_def)
  have size: "get_file_size i st = Inr (ti_file_size ti i)"
    using mounted_ti [OF assms(1)] assms(3-5) by (simp add: get_file_size_def cast_simps)
  have "0 \<le> uint n" by simp
  then have c: "int_cast (uint n) = uint n" "int_cast (sint off) = sint off"
    using assms(5-8) by (intro int_cast_id; linarith)+
  show ?thesis
    using tm unl assms(2,8) size c
    by (simp add: fs_read_def Let_def assms(10) new_reader_def copy_all_def split: option.split)
qed

text \<open>
  C23: a reader that runs alone is a call of \<open>read\<close>. Take a read of a mounted file that starts before the
  file's end, and the system with one reader for the requested range, cut at the end of the file. The
  system has an execution that comes to an end exactly when \<open>fs_read\<close> returns or faults; and
  whenever it has come to an end, the reader has returned the same number of bytes and the same
  buffer, with the session and the buffer map that \<open>fs_read\<close> leaves and the mutex free, or it has crashed
  with the same fault. This holds for any session, also one that does not behave as documented.
\<close>

theorem reader_is_read:
  assumes "mounted split ti st" "get_file_index path st = Inr i" "valid_file ti i" "0 \<le> ti_file_size ti i"
    and "ti_file_size ti i \<le> INT_MAX" "uint n \<le> INT_MAX" "0 \<le> sint off" "sint off < ti_file_size ti i"
    and "\<not> mutex_held st"
    and "s0 = (start_readers [(i, sint off, min (uint n) (ti_file_size ti i - sint off), buf)],
      session st, piece_buffer_map st, None)"
  shows "((\<exists>s. reachable api ti s0 s \<and> (\<nexists>s'. sys_step api ti s s')) \<longleftrightarrow> fs_read api path buf n off st \<noteq> None) \<and>
    (\<forall>rs l m k. reachable api ti s0 (rs, l, m, k) \<and> (\<nexists>s'. sys_step api ti (rs, l, m, k) s') \<longrightarrow>
      (case fs_read api path buf n off st of
         None \<Rightarrow> False
       | Some (Inl f) \<Rightarrow> map rd_phase rs = [Crashed f]
       | Some (Inr (count, buf', st')) \<Rightarrow> map rd_phase rs = [Returned count buf'] \<and>
           l = session st' \<and> m = piece_buffer_map st' \<and> k = None))"
proof -
  define r where "r = new_reader i (sint off) (min (uint n) (ti_file_size ti i - sint off)) buf"
  have s0: "s0 = ([r], session st, piece_buffer_map st, None)"
    using assms(10) by (simp add: start_readers_def r_def)
  note read = fs_read_rest [OF assms(1-9) r_def, of api]
  have ok: "solo_ok (rd_phase r) None" by (simp add: r_def new_reader_def)
  have p: "rd_phase r = Planning (sint off) (min (uint n) (ti_file_size ti i - sint off)) {} []"
    by (simp add: r_def new_reader_def)
  have ending: "case fs_read api path buf n off st of
         None \<Rightarrow> False
       | Some (Inl f) \<Rightarrow> map rd_phase rs = [Crashed f]
       | Some (Inr (count, buf', st')) \<Rightarrow> map rd_phase rs = [Returned count buf'] \<and>
           l = session st' \<and> m = piece_buffer_map st' \<and> k = None"
    if "reachable api ti s0 (rs, l, m, k)" "\<nexists>s'. sys_step api ti (rs, l, m, k) s'" for rs l m k
    using solo_end [OF that(1) [unfolded s0] that(2) ok] unfolding read by auto
  have "\<exists>s. reachable api ti s0 s \<and> (\<nexists>s'. sys_step api ti s s')" if "fs_read api path buf n off st \<noteq> None"
    unfolding s0 by (rule solo_ends [OF p]) (use that in \<open>auto simp: read split: option.splits\<close>)
  moreover have "fs_read api path buf n off st \<noteq> None"
    if ends: "\<exists>s. reachable api ti s0 s \<and> (\<nexists>s'. sys_step api ti s s')"
  proof
    obtain s where s: "reachable api ti s0 s" "\<nexists>s'. sys_step api ti s s'" using ends by blast
    obtain rs l m k where "s = (rs, l, m, k)" by (cases s)
    note e = ending [OF s [unfolded this]]
    assume "fs_read api path buf n off st = None"
    with e show False by (simp only: option.case)
  qed
  ultimately show ?thesis using ending by blast
qed

theorem reader_is_read_witness:
  "\<exists>rs l m k. reachable demo_api demo_ti (start_readers [(1, 0, 2, [None, None])], sim_init, \<lambda>_. None, None) (rs, l, m, k) \<and>
     map rd_phase rs = [Returned 2 [Some 15, Some 16]] \<and> k = None"
proof -
  let ?s0 = "(start_readers [(1, 0, 2, [None, None :: byte option])], sim_init, \<lambda>_. None :: byte list option, None :: nat option)"
  have n: "uint (2 :: 64 word) \<le> INT_MAX" "0 \<le> sint (0 :: 64 word)" "sint (0 :: 64 word) < ti_file_size demo_ti 1"
      "int (length [None, None :: byte option]) = uint (2 :: 64 word)" "0 \<le> ti_file_size demo_ti 1"
    by (simp_all add: INT_MAX_def demo_index(3))
  have "?s0 = (start_readers [(1, sint (0 :: 64 word), min (uint (2 :: 64 word)) (ti_file_size demo_ti 1 - sint (0 :: 64 word)),
      [None, None])], session demo_mount, piece_buffer_map demo_mount, None)"
    by (simp add: demo_index(3) demo_mount_def mk_mounted_def)
  note same = reader_is_read [OF demo_mounted(1) demo_index(1,2) n(5) demo_index(4) n(1-3) demo_mounted(2) this, of demo_api]
  have "requested demo_ti demo_content 1 0 2 = [15, 16]" by code_simp
  then obtain st' where f: "fs_read demo_api ''/a/c'' [None, None] 2 0 demo_mount = Some (Inr (2, [Some 15, Some 16], st'))"
    using fs_read_delivers [OF demo_mounted(1) split_slash_ok demo_ok(2,1) demo_content_ok
        sim_ok [of "piece_data demo_ti demo_content", folded demo_api_def] sim_inv demo_cache(1)
        demo_mounted(2) demo_index(1,2,4) n(1,2,4)] by auto
  then obtain rs l m k where r: "reachable demo_api demo_ti ?s0 (rs, l, m, k)"
      and e: "\<nexists>s'. sys_step demo_api demo_ti (rs, l, m, k) s'"
    using conjunct1 [OF same] by (metis option.distinct(1) prod_cases4)
  then have "map rd_phase rs = [Returned 2 [Some 15, Some 16]] \<and> k = None"
    using conjunct2 [OF same] f by fastforce
  with r show ?thesis by (intro exI conjI) auto
qed

end
