(* ===== verification/BtWire.thy ===== *)
theory BtWire
  imports Prelude
begin

text \<open>
  The BitTorrent experiment in \<open>btclient/bt_lib.c\<close>: sizes of pieces, the messages it sends, the
  handshake, and the download of one piece in blocks over a TCP socket. The socket is a
  parameter. The peer list is at the end; reading the metainfo file is in \<open>Metainfo_File\<close>,
  connecting and the listener in \<open>Bt_Client\<close>.
\<close>

section \<open>Metainfo\<close>

text \<open>The fields of \<open>metainfo_info_t\<close> the functions below use.\<close>

record metainfo =
  mi_infohash :: "byte list"
  mi_piece_length :: int
  mi_file_length :: int
  mi_num_pieces :: int

definition c_min :: "int \<Rightarrow> int \<Rightarrow> int" where
  "c_min a b = (if a > b then b else a)"

definition piece_size :: "int \<Rightarrow> metainfo \<Rightarrow> int" where
  "piece_size piece mi =
     (if piece \<ge> mi_num_pieces mi then - 1
      else c_min (int_cast (mi_file_length mi - int_cast (mi_piece_length mi * piece))) (mi_piece_length mi))"

text \<open>
  \<open>ceil((double) file_length / (double) piece_length)\<close>: two \<open>int\<close> values and their quotient are
  exact enough in a double for the ceiling to be that of the fraction.
\<close>

definition count_pieces :: "int \<Rightarrow> int \<Rightarrow> int" where
  "count_pieces file_length piece_length = - ((- file_length) div piece_length)"

section \<open>The socket\<close>

text \<open>
  \<open>write\<close> gives its return value; \<open>read\<close> gives its return value and the bytes it stores.
\<close>

record 's sock_api =
  sk_write :: "'s \<Rightarrow> byte list \<Rightarrow> int \<times> 's"
  sk_read :: "'s \<Rightarrow> int \<Rightarrow> int \<times> byte list \<times> 's"

definition tcp_send :: "'s sock_api \<Rightarrow> 's \<Rightarrow> byte list \<Rightarrow> int \<times> 's" where
  "tcp_send api s bs = (case sk_write api s bs of (n, s') \<Rightarrow> (if n < 0 then - 1 else n, s'))"

text \<open>Receive up to \<open>len\<close> bytes to position \<open>off\<close> of \<open>buf\<close>.\<close>

definition tcp_recv :: "'s sock_api \<Rightarrow> 's \<Rightarrow> mem \<Rightarrow> int \<Rightarrow> int \<Rightarrow> fault + (int \<times> mem \<times> 's)" where
  "tcp_recv api s buf off len =
     (case sk_read api s len of (n, bs, s') \<Rightarrow>
        if n < 0 then Inr (- 1, buf, s')
        else if n = 0 then Inr (0, buf, s')
        else (case memcpy buf off (map Some bs) 0 n of Inl f \<Rightarrow> Inl f | Inr buf' \<Rightarrow> Inr (n, buf', s')))"

section \<open>Messages\<close>

text \<open>\<open>htonl\<close> on a little-endian machine, as the four bytes in memory.\<close>

definition be32 :: "int \<Rightarrow> byte list" where
  "be32 x = (let w = word_of_int x :: 32 word in
     [ucast (drop_bit 24 w), ucast (drop_bit 16 w), ucast (drop_bit 8 w), ucast w])"

datatype message_type = KEEP_ALIVE | CHOKE | UNCHOKE | INTERESTED | NOT_INTERESTED | HAVE | BITFIELD | REQUEST

text \<open>A message of a type byte only: sent, and returned in a zeroed buffer of 16 bytes.\<close>

definition short_message :: "'s sock_api \<Rightarrow> byte \<Rightarrow> 's \<Rightarrow> mem \<times> 's" where
  "short_message api ty s =
     (let msg = be32 1 @ [ty] in (map Some (msg @ replicate 11 0), snd (tcp_send api s msg)))"

definition bt_choke :: "'s sock_api \<Rightarrow> 's \<Rightarrow> mem \<times> 's" where
  "bt_choke api s = short_message api 0 s"

definition bt_unchoke :: "'s sock_api \<Rightarrow> 's \<Rightarrow> mem \<times> 's" where
  "bt_unchoke api s = short_message api 1 s"

definition bt_interested :: "'s sock_api \<Rightarrow> 's \<Rightarrow> mem \<times> 's" where
  "bt_interested api s = short_message api 2 s"

definition bt_send_message :: "'s sock_api \<Rightarrow> message_type \<Rightarrow> 's \<Rightarrow> mem option \<times> 's" where
  "bt_send_message api ty s =
     (case ty of
        CHOKE \<Rightarrow> apfst Some (bt_choke api s)
      | UNCHOKE \<Rightarrow> apfst Some (bt_unchoke api s)
      | INTERESTED \<Rightarrow> apfst Some (bt_interested api s)
      | _ \<Rightarrow> (None, s))"

text \<open>A string literal as bytes.\<close>

definition bytes_of :: "string \<Rightarrow> byte list" where
  "bytes_of s = map (\<lambda>c. of_nat (of_char c)) s"

definition handshake_request :: "byte list \<Rightarrow> byte list" where
  "handshake_request infohash =
     [0x13] @ bytes_of ''BitTorrent protocol'' @ replicate 8 0 @ take 20 infohash @
     bytes_of ''-LT112-1234567898765''"

text \<open>\<open>memcpy\<close> of 20 bytes of the hash needs them to be there. The reply overwrites the request.\<close>

definition bt_handshake :: "'s sock_api \<Rightarrow> metainfo \<Rightarrow> 's \<Rightarrow> fault + (mem \<times> 's)" where
  "bt_handshake api mi s =
     (if length (mi_infohash mi) < 20 then Inl OutOfBounds
      else let request = handshake_request (mi_infohash mi);
               mbuf = map Some request @ replicate 60 (Some 0);
               s1 = snd (tcp_send api s request)
           in case tcp_recv api s1 mbuf 0 68 of Inl f \<Rightarrow> Inl f | Inr (n, mbuf', s2) \<Rightarrow> Inr (mbuf', s2))"

section \<open>Blocks and pieces\<close>

partial_function (option) get_block_loop ::
  "'s sock_api \<Rightarrow> int \<Rightarrow> int \<Rightarrow> mem \<Rightarrow> 's \<Rightarrow> (mem \<times> 's) outcome" where
  "get_block_loop api remaining offset buf s =
     (if remaining > 0 then
        case tcp_recv api s buf offset remaining of Inl f \<Rightarrow> Some (Inl f)
        | Inr x \<Rightarrow> (case x of (nread, buf', s') \<Rightarrow>
            get_block_loop api (remaining - nread) (offset + nread) buf' s')
      else Some (Inr (buf, s)))"

definition get_block :: "'s sock_api \<Rightarrow> int \<Rightarrow> 's \<Rightarrow> (mem \<times> 's) outcome" where
  "get_block api sz s = get_block_loop api sz 0 (replicate (nat (sz + 128)) None) s"

definition request_msg :: "int \<Rightarrow> int \<Rightarrow> int \<Rightarrow> byte list" where
  "request_msg piece offset n = be32 0xd @ [6] @ be32 piece @ be32 offset @ be32 n"

partial_function (option) get_piece_loop ::
  "'s sock_api \<Rightarrow> int \<Rightarrow> int \<Rightarrow> int \<Rightarrow> mem \<Rightarrow> 's \<Rightarrow> (mem \<times> 's) outcome" where
  "get_piece_loop api piece remaining offset piece_buf s =
     (if remaining > 0 then
        case get_block api (c_min remaining 16384 + 13)
            (snd (tcp_send api s (request_msg piece offset (c_min remaining 16384)))) of
          None \<Rightarrow> None
        | Some res \<Rightarrow> (case res of Inl f \<Rightarrow> Some (Inl f)
          | Inr x \<Rightarrow> (case x of (blk, s') \<Rightarrow>
             (case memcpy piece_buf offset blk 13 (c_min remaining 16384) of Inl f \<Rightarrow> Some (Inl f)
              | Inr piece_buf' \<Rightarrow>
                  get_piece_loop api piece (remaining - c_min remaining 16384)
                    (offset + c_min remaining 16384) piece_buf' s')))
      else Some (Inr (piece_buf, s)))"

definition get_piece :: "'s sock_api \<Rightarrow> int \<Rightarrow> metainfo \<Rightarrow> 's \<Rightarrow> (mem \<times> 's) outcome" where
  "get_piece api piece mi s =
     get_piece_loop api piece (piece_size piece mi) 0 (replicate (nat (mi_piece_length mi)) None) s"

section \<open>Sizes of pieces\<close>

text \<open>Metainfo as a well-formed torrent has it, with the count \<open>parse_metainfo\<close> computes.\<close>

definition mi_ok :: "metainfo \<Rightarrow> bool" where
  "mi_ok mi \<longleftrightarrow> 0 < mi_piece_length mi \<and> 0 < mi_file_length mi \<and> mi_file_length mi \<le> INT_MAX \<and>
     mi_piece_length mi \<le> INT_MAX \<and> mi_num_pieces mi = count_pieces (mi_file_length mi) (mi_piece_length mi)"

lemma count_pieces_bounds:
  assumes "0 < pl" "0 \<le> p" "p < count_pieces fl pl"
  shows "pl * p < fl"
proof (rule ccontr)
  assume "\<not> pl * p < fl"
  then have "- p * pl \<le> - fl" by (simp add: mult.commute)
  then have "- p \<le> (- fl) div pl" using assms(1) by (metis nonzero_mult_div_cancel_right order_less_irrefl zdiv_mono1)
  then show False using assms(3) by (simp add: count_pieces_def)
qed

lemma piece_size_eq:
  assumes "mi_ok mi" "0 \<le> p" "p < mi_num_pieces mi"
  shows "piece_size p mi = min (mi_piece_length mi) (mi_file_length mi - mi_piece_length mi * p)"
    and "0 < piece_size p mi"
proof -
  have b: "mi_piece_length mi * p < mi_file_length mi"
    using assms count_pieces_bounds by (simp add: mi_ok_def)
  have pl: "0 < mi_piece_length mi" "mi_file_length mi \<le> INT_MAX" using assms(1) by (simp_all add: mi_ok_def)
  have z: "0 \<le> mi_piece_length mi * p" using pl assms(2) by simp
  have "int_cast (mi_piece_length mi * p) = mi_piece_length mi * p"
    using b z pl by (intro int_cast_id) linarith+
  moreover have "int_cast (mi_file_length mi - mi_piece_length mi * p) = mi_file_length mi - mi_piece_length mi * p"
    using b z pl by (intro int_cast_id) linarith+
  ultimately show "piece_size p mi = min (mi_piece_length mi) (mi_file_length mi - mi_piece_length mi * p)"
    using assms(3) by (simp add: piece_size_def c_min_def min_def)
  then show "0 < piece_size p mi" using b pl by simp
qed

lemma piece_sizes_sum:
  assumes "mi_ok mi" "int n \<le> mi_num_pieces mi"
  shows "(\<Sum>p<n. piece_size (int p) mi) = min (mi_piece_length mi * int n) (mi_file_length mi)"
  using assms(2)
proof (induction n)
  case 0
  then show ?case using assms(1) by (simp add: mi_ok_def)
next
  case (Suc n)
  have lt: "int n < mi_num_pieces mi" using Suc.prems by simp
  have "mi_piece_length mi * int n < mi_file_length mi"
    using assms(1) count_pieces_bounds [of _ "int n"] lt by (simp add: mi_ok_def)
  then show ?case
    using Suc.IH lt piece_size_eq(1) [OF assms(1) _ lt] by (simp add: distrib_left min_def)
qed

lemma count_pieces_enough:
  assumes "0 < pl"
  shows "fl \<le> pl * count_pieces fl pl"
proof -
  have "pl * ((- fl) div pl) \<le> - fl"
    using assms pos_mod_sign [OF assms, of "- fl"] mult_div_mod_eq [of pl "- fl"] by linarith
  then show ?thesis by (simp add: count_pieces_def)
qed

section \<open>Receiving a block\<close>

text \<open>
  What is still to be received on a connection, as ghost state. TCP delivers it in order and in
  portions of its own choice: \<open>read\<close> of \<open>n\<close> bytes gives between one byte and \<open>n\<close>.
\<close>

record 's peer_view =
  pv_inv :: "'s \<Rightarrow> bool"
  pv_pending :: "'s \<Rightarrow> byte list"

definition stream_ok :: "'s sock_api \<Rightarrow> 's peer_view \<Rightarrow> bool" where
  "stream_ok api v \<longleftrightarrow>
     (\<forall>s n. pv_inv v s \<longrightarrow> 0 < n \<longrightarrow> pv_pending v s \<noteq> [] \<longrightarrow>
        (\<exists>k s'. 0 < k \<and> k \<le> n \<and> k \<le> int (length (pv_pending v s)) \<and>
           sk_read api s n = (k, take (nat k) (pv_pending v s), s') \<and>
           pv_inv v s' \<and> pv_pending v s' = drop (nat k) (pv_pending v s)))"

lemma get_block_loop_reads:
  assumes "stream_ok api v"
  shows "pv_inv v s \<Longrightarrow> 0 \<le> rem \<Longrightarrow> rem \<le> int (length (pv_pending v s)) \<Longrightarrow> 0 \<le> off \<Longrightarrow>
    off + rem \<le> int (length buf) \<Longrightarrow>
    \<exists>s'. get_block_loop api rem off buf s = Some (Inr (take (nat off) buf @
        map Some (take (nat rem) (pv_pending v s)) @ drop (nat (off + rem)) buf, s')) \<and>
      pv_inv v s' \<and> pv_pending v s' = drop (nat rem) (pv_pending v s)"
proof (induction "nat rem" arbitrary: rem off buf s rule: less_induct)
  case less
  let ?xs = "pv_pending v s"
  show ?case
  proof (cases "rem = 0")
    case True
    then show ?thesis using less.prems by (simp add: get_block_loop.simps)
  next
    case False
    then have pos: "0 < rem" using less.prems by simp
    then have "?xs \<noteq> []" using less.prems(3) by auto
    then obtain k s1 where k: "0 < k" "k \<le> rem" "k \<le> int (length ?xs)"
        and rd: "sk_read api s rem = (k, take (nat k) ?xs, s1)"
        and s1: "pv_inv v s1" "pv_pending v s1 = drop (nat k) ?xs"
      using assms less.prems(1) pos unfolding stream_ok_def by meson
    define buf1 where "buf1 = take (nat off) buf @ map Some (take (nat k) ?xs) @ drop (nat (off + k)) buf"
    have mc: "memcpy buf off (map Some (take (nat k) ?xs)) 0 k = Inr buf1"
      unfolding buf1_def using k less.prems(4,5) by (subst memcpy_Inr) auto
    have lA: "length (take (nat off) buf @ map Some (take (nat k) ?xs)) = nat (off + k)"
      using k less.prems(4,5) by simp
    have b1: "length buf1 = length buf" "take (nat (off + k)) buf1 = take (nat off) buf @ map Some (take (nat k) ?xs)"
    proof -
      show "length buf1 = length buf" using memcpy_length [OF mc] .
      show "take (nat (off + k)) buf1 = take (nat off) buf @ map Some (take (nat k) ?xs)"
        unfolding buf1_def append_assoc [symmetric] using lA by (metis append_eq_conv_conj)
    qed
    have dr: "drop (nat (off + rem)) buf1 = drop (nat (off + rem)) buf"
    proof -
      have e: "nat (off + rem) = nat (off + k) + nat (rem - k)" using k less.prems(4) by linarith
      show ?thesis unfolding buf1_def append_assoc [symmetric] e by (rule drop_past) (use lA in simp)
    qed
    have pre: "nat (rem - k) < nat rem" "0 \<le> rem - k" "rem - k \<le> int (length (pv_pending v s1))"
        "0 \<le> off + k" "off + k + (rem - k) \<le> int (length buf1)"
      using k pos less.prems(3-5) b1(1) by (simp_all add: s1(2))
    obtain s2 where s2: "get_block_loop api (rem - k) (off + k) buf1 s1 = Some (Inr (take (nat (off + k)) buf1 @
          map Some (take (nat (rem - k)) (drop (nat k) ?xs)) @ drop (nat (off + k + (rem - k))) buf1, s2))"
        "pv_inv v s2" "pv_pending v s2 = drop (nat (rem - k)) (drop (nat k) ?xs)"
      using less.hyps [OF pre(1) s1(1) pre(2-5)] s1(2) by auto
    have j: "nat k + nat (rem - k) = nat rem" using k by linarith
    have "take (nat k) ?xs @ take (nat (rem - k)) (drop (nat k) ?xs) = take (nat rem) ?xs"
      using take_drop_join [of "nat k" 0 ?xs "nat (rem - k)"] j by simp
    then have "map Some (take (nat k) ?xs) @ map Some (take (nat (rem - k)) (drop (nat k) ?xs)) =
        map Some (take (nat rem) ?xs)"
      by (metis map_append)
    then have "take (nat (off + k)) buf1 @ map Some (take (nat (rem - k)) (drop (nat k) ?xs)) @
        drop (nat (off + k + (rem - k))) buf1 =
      take (nat off) buf @ map Some (take (nat rem) ?xs) @ drop (nat (off + rem)) buf"
      unfolding b1(2) using dr by simp
    moreover have "get_block_loop api rem off buf s = get_block_loop api (rem - k) (off + k) buf1 s1"
      using pos rd mc k(1) by (subst get_block_loop.simps) (simp add: tcp_recv_def)
    moreover have "pv_pending v s2 = drop (nat rem) ?xs" using s2(3) j by (simp add: add.commute)
    ultimately show ?thesis using s2(1,2) by auto
  qed
qed

lemma get_block_reads:
  assumes "stream_ok api v" "pv_inv v s" "0 \<le> n" "n \<le> int (length (pv_pending v s))"
  shows "\<exists>s'. get_block api n s = Some (Inr (map Some (take (nat n) (pv_pending v s)) @ replicate 128 None, s')) \<and>
    pv_inv v s' \<and> pv_pending v s' = drop (nat n) (pv_pending v s)"
  using get_block_loop_reads [OF assms(1,2,3,4), of 0 "replicate (nat (n + 128)) None"] assms(3)
  by (auto simp: get_block_def nat_add_distrib)

text \<open>When the connection is closed, \<open>read\<close> gives 0 for ever, and so the loop does not end.\<close>

lemma get_block_loop_closed:
  assumes "\<And>n. sk_read api s n = (0, [], s)" "0 < rem"
  shows "get_block_loop api rem off buf s = None"
proof -
  have "get_block_loop api' rem' off' buf' s' = Some r \<Longrightarrow>
      api' = api \<Longrightarrow> s' = s \<Longrightarrow> 0 < rem' \<Longrightarrow> False" for api' rem' off' buf' s' r
  proof (induction rule: get_block_loop.raw_induct [rotated, consumes 1, case_names step])
    case (step loop api' rem' off' buf' s' r)
    then show ?case by (auto simp: tcp_recv_def assms(1))
  qed
  then have "get_block_loop api rem off buf s \<noteq> Some r" for r using assms(2) by blast
  then show ?thesis by (metis not_None_eq)
qed

section \<open>Receiving a piece\<close>

text \<open>The blocks of a piece: at most 16384 bytes each.\<close>

interpretation blocks: chunk_loop "\<lambda>_ :: int. True" "\<lambda>limit. limit" "\<lambda>_ off rem. c_min rem 16384"
  by unfold_locales (auto simp: c_min_def)

definition piece_msg :: "int \<Rightarrow> int \<Rightarrow> byte list \<Rightarrow> byte list" where
  "piece_msg p off bs = be32 (9 + int (length bs)) @ [7] @ be32 p @ be32 off @ bs"

text \<open>A peer that answers every request for a block of a piece it has, and sends nothing else.\<close>

definition peer_answers :: "'s sock_api \<Rightarrow> 's peer_view \<Rightarrow> (int \<Rightarrow> byte list) \<Rightarrow> metainfo \<Rightarrow> bool" where
  "peer_answers api v D mi \<longleftrightarrow>
     (\<forall>s p off n. pv_inv v s \<longrightarrow> 0 \<le> p \<longrightarrow> p < mi_num_pieces mi \<longrightarrow> 0 \<le> off \<longrightarrow> 0 < n \<longrightarrow> n \<le> 16384 \<longrightarrow>
        off + n \<le> int (length (D p)) \<longrightarrow>
        pv_inv v (snd (sk_write api s (request_msg p off n))) \<and>
        pv_pending v (snd (sk_write api s (request_msg p off n))) =
          pv_pending v s @ piece_msg p off (take (nat n) (drop (nat off) (D p))))"

definition content_fits :: "(int \<Rightarrow> byte list) \<Rightarrow> metainfo \<Rightarrow> bool" where
  "content_fits D mi \<longleftrightarrow> (\<forall>p. 0 \<le> p \<longrightarrow> p < mi_num_pieces mi \<longrightarrow> int (length (D p)) = piece_size p mi)"

lemma be32_length [simp]: "length (be32 x) = 4"
  by (simp add: be32_def Let_def)

lemma tcp_send_state [simp]: "snd (tcp_send api s bs) = snd (sk_write api s bs)"
  by (simp add: tcp_send_def split: prod.splits)

text \<open>One request and its answer, when \<open>pre\<close> was already on its way.\<close>

lemma get_block_answer:
  assumes "stream_ok api v" "peer_answers api v D mi" "pv_inv v s" "0 \<le> p" "p < mi_num_pieces mi"
    and "0 \<le> off" "0 < n" "n \<le> 16384" "off + n \<le> int (length (D p))"
  shows "\<exists>s'. get_block api (n + 13) (snd (tcp_send api s (request_msg p off n))) = Some (Inr
      (map Some (take (nat (n + 13)) (pv_pending v s @ piece_msg p off (take (nat n) (drop (nat off) (D p))))) @
        replicate 128 None, s')) \<and> pv_inv v s' \<and>
    pv_pending v s' = drop (nat (n + 13)) (pv_pending v s @ piece_msg p off (take (nat n) (drop (nat off) (D p))))"
proof -
  let ?s1 = "snd (sk_write api s (request_msg p off n))"
  let ?msg = "piece_msg p off (take (nat n) (drop (nat off) (D p)))"
  have s1: "pv_inv v ?s1" "pv_pending v ?s1 = pv_pending v s @ ?msg"
    using assms(2-9) by (simp_all add: peer_answers_def)
  have "nat n \<le> length (D p) - nat off" using assms(6,7,9) by linarith
  then have "int (length ?msg) = n + 13" using assms(7) by (simp add: piece_msg_def)
  then have "n + 13 \<le> int (length (pv_pending v ?s1))" by (simp add: s1(2))
  then show ?thesis using get_block_reads [OF assms(1) s1(1), of "n + 13"] assms(7) by (simp add: s1(2))
qed

text \<open>
  What the loop takes for the bytes of a piece when \<open>k\<close> bytes were on their way before the first answer:
  of each block's answer, not what follows its header of 13 bytes but what starts \<open>k\<close> bytes earlier.
\<close>

function received :: "nat \<Rightarrow> int \<Rightarrow> int \<Rightarrow> byte list \<Rightarrow> byte list" where
  "received k p off bs =
     (if bs = [] then []
      else take (length (take 16384 bs)) (drop (13 - k) (piece_msg p off (take 16384 bs))) @
        received k p (off + int (length (take 16384 bs))) (drop 16384 bs))"
  by pat_completeness auto
termination
  by (relation "measure (\<lambda>(k, p, off, bs). length bs)") auto

declare received.simps [simp del]

lemma piece_msg_length [simp]: "length (piece_msg p off bs) = 13 + length bs"
  by (simp add: piece_msg_def)

lemma piece_msg_body: "drop 13 (piece_msg p off bs) = bs"
  by (simp add: piece_msg_def be32_def Let_def numeral_eq_Suc)

text \<open>Nothing before the answers, nothing wrong.\<close>

lemma received_all: "received 0 p off bs = bs"
proof (induction "0 :: nat" p off bs rule: received.induct)
  case (1 p off bs)
  then show ?case by (subst received.simps) (cases "length bs \<le> 16384", simp_all add: piece_msg_body)
qed

lemma received_block:
  assumes "0 < rem" "0 \<le> off" "off + rem \<le> int (length F)"
  defines "n \<equiv> c_min rem 16384"
  shows "received k p off (take (nat rem) (drop (nat off) F)) =
    take (nat n) (drop (13 - k) (piece_msg p off (take (nat n) (drop (nat off) F)))) @
    received k p (off + n) (take (nat (rem - n)) (drop (nat (off + n)) F))"
proof -
  let ?bs = "take (nat rem) (drop (nat off) F)"
  have n: "0 < n" "n \<le> rem" "n \<le> 16384" "nat n = min 16384 (nat rem)"
    using assms(1) by (auto simp: n_def c_min_def)
  have len: "length ?bs = nat rem" using assms(1-3) by simp
  have b: "take 16384 ?bs = take (nat n) (drop (nat off) F)" using n(4) by simp
  moreover have "length (take 16384 ?bs) = nat n" unfolding length_take [of 16384] len n(4) by (rule min.commute)
  moreover have "drop 16384 ?bs = take (nat (rem - n)) (drop (nat (off + n)) F)"
  proof (cases "rem \<le> 16384")
    case True
    then show ?thesis using len by (simp add: n_def c_min_def)
  next
    case False
    then have "n = 16384" by (simp add: n_def c_min_def)
    then show ?thesis using False assms(2) by (simp add: drop_take nat_add_distrib nat_diff_distrib add.commute)
  qed
  moreover have "?bs \<noteq> []" using len assms(1) by auto
  ultimately show ?thesis using n(1) by (subst received.simps) simp
qed

lemma get_piece_loop_receives:
  assumes "stream_ok api v" "peer_answers api v D mi" "0 \<le> p" "p < mi_num_pieces mi" "k \<le> 13"
    and "0 \<le> off" "off + rem = int (length (D p))" "0 \<le> rem" "off + rem \<le> int (length buf)"
    and "pv_inv v s" "length (pv_pending v s) = k"
  shows "\<exists>s'. get_piece_loop api p rem off buf s = Some (Inr (take (nat off) buf @
      map Some (received k p off (take (nat rem) (drop (nat off) (D p)))) @ drop (nat (off + rem)) buf, s')) \<and>
    pv_inv v s' \<and> length (pv_pending v s') = k"
proof -
  have lim: "off + rem \<le> int (length (D p))" using assms(7) by simp
  show ?thesis using TrueI assms(6) lim assms(7-11)
  proof (induction off rem arbitrary: buf s rule: blocks.loop_induct)
    case (stop off rem)
    then show ?case by (simp add: get_piece_loop.simps received.simps)
  next
    case (more off rem)
    let ?n = "c_min rem 16384" and ?F = "D p"
    have n: "0 < ?n" "?n \<le> rem" "?n \<le> 16384" using more.hyps(2) by (simp_all add: c_min_def)
    have fits: "off + ?n \<le> int (length ?F)" using n more.prems(1) by simp
    let ?bs = "take (nat ?n) (drop (nat off) ?F)"
    let ?msg = "piece_msg p off ?bs"
    let ?got = "take (nat ?n) (drop (13 - k) ?msg)"
    have lbs: "length ?bs = nat ?n" using fits n(1) more.hyps(1) by simp
    let ?blk = "map Some (take (nat (?n + 13)) (pv_pending v s @ ?msg)) @ replicate 128 (None :: byte option)"
    obtain s1 where g: "get_block api (?n + 13) (snd (tcp_send api s (request_msg p off ?n))) = Some (Inr (?blk, s1))"
        "pv_inv v s1" "pv_pending v s1 = drop (nat (?n + 13)) (pv_pending v s @ ?msg)"
      using get_block_answer [OF assms(1,2) more.prems(4) assms(3,4) more.hyps(1) n(1,3) fits] by blast
    have n13: "nat (?n + 13) = nat ?n + 13" using n(1) by simp
    have lp: "length (pv_pending v s1) = k"
      unfolding g(3) n13 using more.prems(5) assms(5) lbs by simp
    have lgot: "length ?got = nat ?n" using lbs by simp
    have sl: "take (nat ?n) (drop 13 ?blk) = map Some ?got"
      unfolding n13 using more.prems(5) assms(5) lbs by (simp add: drop_map take_map drop_take)
    define buf1 where "buf1 = take (nat off) buf @ map Some ?got @ drop (nat (off + ?n)) buf"
    have mc: "memcpy buf off ?blk 13 ?n = Inr buf1"
    proof -
      have l: "13 + ?n \<le> int (length ?blk)" using lbs n(1) more.prems(5) by simp
      have e: "0 \<le> ?n" "off + ?n \<le> int (length buf)" using n more.prems(3) by linarith+
      have "memcpy buf off ?blk 13 ?n =
          Inr (take (nat off) buf @ take (nat ?n) (drop (nat 13) ?blk) @ drop (nat (off + ?n)) buf)"
        using more.hyps(1) _ e(1,2) l by (rule memcpy_Inr) simp
      then show ?thesis using sl by (simp only: buf1_def nat_numeral)
    qed
    have lA: "length (take (nat off) buf @ map Some ?got) = nat (off + ?n)"
    proof -
      have "nat off \<le> length buf" "nat (off + ?n) = nat off + nat ?n" using more.hyps(1) more.prems(3) n by linarith+
      then show ?thesis using lgot by simp
    qed
    have b1: "length buf1 = length buf" using memcpy_length [OF mc] .
    have tk: "take (nat (off + ?n)) buf1 = take (nat off) buf @ map Some ?got"
      unfolding buf1_def append_assoc [symmetric] using lA by (metis append_eq_conv_conj)
    have dr: "drop (nat (off + rem)) buf1 = drop (nat (off + rem)) buf"
    proof -
      have e: "nat (off + rem) = nat (off + ?n) + nat (rem - ?n)" using n more.hyps(1) by linarith
      show ?thesis unfolding buf1_def append_assoc [symmetric] e by (rule drop_past) (rule lA)
    qed
    obtain s2 where r: "get_piece_loop api p (rem - ?n) (off + ?n) buf1 s1 = Some (Inr (take (nat (off + ?n)) buf1 @
        map Some (received k p (off + ?n) (take (nat (rem - ?n)) (drop (nat (off + ?n)) ?F))) @
        drop (nat (off + ?n + (rem - ?n))) buf1, s2))"
        "pv_inv v s2" "length (pv_pending v s2) = k"
      using more.IH [of buf1 s1] more.prems(1-3) n b1 g(2) lp by auto
    have "off + rem \<le> int (length ?F)" using more.prems(1) by simp
    note rc = received_block [OF more.hyps(2,1) this, of k p]
    have "get_piece_loop api p rem off buf s = get_piece_loop api p (rem - ?n) (off + ?n) buf1 s1"
      using more.hyps(2) g(1) mc by (subst get_piece_loop.simps) simp
    then show ?case using r unfolding tk rc by (simp add: dr)
  qed
qed

lemma get_piece_reads:
  assumes "mi_ok mi" "stream_ok api v" "peer_answers api v D mi" "content_fits D mi"
    and "0 \<le> p" "p < mi_num_pieces mi" "pv_inv v s" "pv_pending v s = []"
  shows "\<exists>s'. get_piece api p mi s = Some (Inr (map Some (D p) @
      replicate (nat (mi_piece_length mi - piece_size p mi)) None, s')) \<and> pv_inv v s' \<and> pv_pending v s' = []"
proof -
  note ps = piece_size_eq [OF assms(1,5,6)]
  have len: "0 + piece_size p mi = int (length (D p))" using assms(4-6) by (simp add: content_fits_def)
  have "piece_size p mi \<le> mi_piece_length mi" using ps(1) by simp
  then have fit: "0 + piece_size p mi \<le> int (length (replicate (nat (mi_piece_length mi)) (None :: byte option)))"
    using ps(2) by simp
  have d: "nat (mi_piece_length mi) - nat (piece_size p mi) = nat (mi_piece_length mi - piece_size p mi)"
    using ps(2) by (simp add: nat_diff_distrib')
  have "take (nat (piece_size p mi)) (D p) = D p" using len by simp
  then show ?thesis
    using get_piece_loop_receives [OF assms(2,3,5,6) _ _ len _ fit assms(7), of 0] assms(8) ps(2)
    by (simp add: get_piece_def d received_all)
qed

section \<open>The list of peers\<close>

text \<open>
  Reading one line of the file \<open>peerlist\<close> into \<open>buf\<close>, byte by byte. The code reads each byte into an
  \<open>int\<close> it did not initialise, so the byte is the low one of four; \<open>g\<close> is what the upper three
  happen to hold. The result is the line, the rest of the file, and whether its end was met.
\<close>

fun read_line :: "int \<Rightarrow> byte list \<Rightarrow> byte list \<Rightarrow> fault + (byte list \<times> byte list \<times> bool)" where
  "read_line g [] buf = (if length buf < 1024 then Inr (buf, [], True) else Inl OutOfBounds)"
| "read_line g (b # bs) buf =
     (if length buf \<ge> 1024 then Inl OutOfBounds
      else if g * 256 + uint b = 10 then Inr (buf, bs, False)
      else read_line g bs (buf @ [b]))"

text \<open>\<open>strncpy(dst, src, n)\<close> into the block \<open>dst\<close>; \<open>src\<close> holds at least \<open>n\<close> bytes.\<close>

definition strncpy_fresh :: "mem \<Rightarrow> byte list \<Rightarrow> nat \<Rightarrow> fault + mem" where
  "strncpy_fresh dst src n =
     (if n \<le> length dst then
        let cs = takeWhile (\<lambda>b. b \<noteq> 0) (take n src)
        in Inr (map Some (cs @ replicate (n - length cs) 0) @ drop n dst)
      else Inl OutOfBounds)"

text \<open>
  The outer loop with \<open>k\<close> of the 50 slots free; \<open>fresh\<close> is the block \<open>malloc(64)\<close> returns, with what
  it happens to hold.
\<close>

fun peers_loop :: "int \<Rightarrow> mem \<Rightarrow> nat \<Rightarrow> byte list \<Rightarrow> fault + mem list" where
  "peers_loop g fresh 0 file = (case read_line g file [] of Inl f \<Rightarrow> Inl f | Inr x \<Rightarrow> Inr [])"
| "peers_loop g fresh (Suc k) file =
     (case read_line g file [] of Inl f \<Rightarrow> Inl f
      | Inr (line, rest, eof) \<Rightarrow>
        if eof then Inr []
        else (case strncpy_fresh fresh line (length line) of Inl f \<Rightarrow> Inl f
          | Inr url \<Rightarrow> (case peers_loop g fresh k rest of Inl f \<Rightarrow> Inl f | Inr urls \<Rightarrow> Inr (url # urls))))"

definition get_peer_list :: "int \<Rightarrow> mem \<Rightarrow> byte list \<Rightarrow> fault + mem list" where
  "get_peer_list g fresh file = peers_loop g fresh 50 file"

lemma read_line_ends:
  "10 \<notin> set xs \<Longrightarrow> length buf + length xs < 1024 \<Longrightarrow>
   read_line 0 (xs @ 10 # rest) buf = Inr (buf @ xs, rest, False)"
proof (induction xs arbitrary: buf)
  case Nil
  then show ?case by simp
next
  case (Cons x xs)
  have "x \<noteq> 10" using Cons.prems by auto
  then have "uint x \<noteq> 10" using word_uint_eq_iff [of x 10] by simp
  then show ?case using Cons.IH [of "buf @ [x]"] Cons.prems by simp
qed

lemma read_line_garbage:
  "g \<noteq> 0 \<Longrightarrow> length buf + length xs < 1024 \<Longrightarrow> read_line g xs buf = Inr (buf @ xs, [], True)"
proof (induction xs arbitrary: buf)
  case Nil
  then show ?case by simp
next
  case (Cons x xs)
  have "0 \<le> uint x" "uint x < 256" using uint_lt2p [of x] by simp_all
  moreover have "1 \<le> g \<or> g \<le> - 1" using Cons.prems(1) by linarith
  ultimately have "g * 256 + uint x \<noteq> 10" by linarith
  then show ?case using Cons.IH [of "buf @ [x]"] Cons.prems by simp
qed

text \<open>A line that fits: none of its bytes is a line feed or zero.\<close>

definition line_ok :: "byte list \<Rightarrow> bool" where
  "line_ok l \<longleftrightarrow> length l \<le> 64 \<and> 10 \<notin> set l \<and> 0 \<notin> set l"

lemma strncpy_line:
  assumes "line_ok l" "64 \<le> length fresh"
  shows "strncpy_fresh fresh l (length l) = Inr (map Some l @ drop (length l) fresh)"
proof -
  have "takeWhile (\<lambda>b. b \<noteq> 0) l = l"
    using assms(1) by (intro takeWhile_eq_all_conv [THEN iffD2]) (auto simp: line_ok_def)
  then have "takeWhile (\<lambda>b. b \<noteq> 0) (take (length l) l) = l" by simp
  then show ?thesis using assms unfolding strncpy_fresh_def Let_def by (simp only:) (simp add: line_ok_def)
qed

lemma peers_loop_lines:
  "\<forall>l\<in>set ls. line_ok l \<Longrightarrow> 64 \<le> length fresh \<Longrightarrow> length ls \<le> k \<Longrightarrow>
   peers_loop 0 fresh k (concat (map (\<lambda>l. l @ [10]) ls)) = Inr (map (\<lambda>l. map Some l @ drop (length l) fresh) ls)"
proof (induction ls arbitrary: k)
  case Nil
  then show ?case by (cases k) simp_all
next
  case (Cons l ls)
  then obtain j where k: "k = Suc j" by (cases k) auto
  have l: "line_ok l" using Cons.prems by simp
  have "read_line 0 (l @ 10 # concat (map (\<lambda>l. l @ [10]) ls)) [] = Inr (l, concat (map (\<lambda>l. l @ [10]) ls), False)"
    using l read_line_ends [of l "[]"] by (simp add: line_ok_def)
  then show ?case
    using Cons.IH [of j] Cons.prems strncpy_line [OF l Cons.prems(2)] by (simp add: k)
qed

section \<open>A small peer\<close>

text \<open>
  Reading a big-endian number back, and a peer that decodes requests and answers them, on a
  connection that delivers at most five bytes at a time. It shows that the hypotheses on
  socket and peer can hold.
\<close>

definition de32 :: "byte list \<Rightarrow> int" where
  "de32 bs = uint (bs ! 0) * 2 ^ 24 + uint (bs ! 1) * 2 ^ 16 + uint (bs ! 2) * 2 ^ 8 + uint (bs ! 3)"

lemma de32_four: "de32 [a, b, c, d] = uint a * 2 ^ 24 + uint b * 2 ^ 16 + uint c * 2 ^ 8 + uint d"
  by (simp add: de32_def numeral_2_eq_2 numeral_3_eq_3)

lemma base_256:
  "x = 256 * y1 + r0 \<Longrightarrow> y1 = 256 * y2 + r1 \<Longrightarrow> y2 = 256 * y3 + r2 \<Longrightarrow>
   y3 * 2 ^ 24 + r2 * 2 ^ 16 + r1 * 2 ^ 8 + r0 = x" for x :: int
  by simp

lemma be_byte:
  assumes "0 \<le> x" "x < 2 ^ 32"
  shows "ucast (drop_bit k (word_of_int x :: 32 word)) = (word_of_int (x div 2 ^ k) :: byte)"
proof -
  let ?w = "word_of_int x :: 32 word"
  have uw: "uint ?w = x" using assms by (simp add: uint_word_of_int)
  have t: "take_bit 32 (uint ?w) = x" unfolding uw using assms by (simp add: take_bit_eq_mod)
  have "uint (drop_bit k ?w) = drop_bit k (take_bit 32 (uint ?w))" by (simp add: unsigned_drop_bit_eq)
  then have "uint (drop_bit k ?w) = x div 2 ^ k" by (simp only: t drop_bit_eq_div)
  then show ?thesis by (metis ucast_eq)
qed

lemma be32_de32:
  assumes "0 \<le> x" "x < 2 ^ 32"
  shows "de32 (be32 x) = x"
proof -
  have b: "be32 x = [word_of_int (x div 2 ^ 24), word_of_int (x div 2 ^ 16), word_of_int (x div 2 ^ 8), word_of_int x]"
    using be_byte [OF assms, of 24] be_byte [OF assms, of 16] be_byte [OF assms, of 8] be_byte [OF assms, of 0]
    by (simp add: be32_def Let_def)
  have "x div 2 ^ 24 mod 256 = x div 2 ^ 24" using assms by (intro mod_pos_pos_trivial) auto
  then have u: "uint (word_of_int (x div 2 ^ 24) :: byte) = x div 2 ^ 24"
      "uint (word_of_int (x div 2 ^ 16) :: byte) = x div 2 ^ 16 mod 256"
      "uint (word_of_int (x div 2 ^ 8) :: byte) = x div 2 ^ 8 mod 256"
      "uint (word_of_int x :: byte) = x mod 256"
    by (simp_all add: uint_word_of_int)
  define y1 where "y1 = x div 2 ^ 8"
  define y2 where "y2 = x div 2 ^ 16"
  define y3 where "y3 = x div 2 ^ 24"
  have d: "y1 = x div 256" "y2 = y1 div 256" "y3 = y2 div 256"
    unfolding y1_def y2_def y3_def by (simp_all add: zdiv_zmult2_eq [symmetric])
  have m: "x = 256 * y1 + x mod 256" "y1 = 256 * y2 + y1 mod 256" "y2 = 256 * y3 + y2 mod 256"
    unfolding d by simp_all
  have "de32 (be32 x) = y3 * 2 ^ 24 + (y2 mod 256) * 2 ^ 16 + (y1 mod 256) * 2 ^ 8 + x mod 256"
    unfolding b de32_four y1_def y2_def y3_def by (simp only: u)
  also have "\<dots> = x" using m by (rule base_256)
  finally show ?thesis .
qed

text \<open>The fields of a request, as the other side reads them.\<close>

definition request_fields :: "byte list \<Rightarrow> (int \<times> int \<times> int) option" where
  "request_fields bs =
     (if length bs = 17 \<and> de32 bs = 13 \<and> bs ! 4 = 6
      then Some (de32 (drop 5 bs), de32 (drop 9 bs), de32 (drop 13 bs)) else None)"

lemma de32_append: "length xs = 4 \<Longrightarrow> de32 (xs @ ys) = de32 xs"
  by (simp add: de32_def nth_append)

lemma request_fields_msg:
  assumes "0 \<le> p" "p < 2 ^ 32" "0 \<le> off" "off < 2 ^ 32" "0 \<le> n" "n < 2 ^ 32"
  shows "request_fields (request_msg p off n) = Some (p, off, n)"
proof -
  have d: "de32 (request_msg p off n) = 13" "request_msg p off n ! 4 = 6" "length (request_msg p off n) = 17"
    using be32_de32 [of 13] by (simp_all add: request_msg_def de32_append nth_append)
  have "drop 5 (request_msg p off n) = be32 p @ be32 off @ be32 n"
    "drop 9 (request_msg p off n) = be32 off @ be32 n" "drop 13 (request_msg p off n) = be32 n"
    by (simp_all add: request_msg_def be32_def Let_def numeral_eq_Suc)
  then show ?thesis
    using d assms by (simp add: request_fields_def de32_append be32_de32)
qed

definition sim_peer :: "(int \<Rightarrow> byte list) \<Rightarrow> byte list sock_api" where
  "sim_peer D =
     \<lparr>sk_write = (\<lambda>s bs. (int (length bs), case request_fields bs of None \<Rightarrow> s
        | Some (p, off, n) \<Rightarrow> s @ piece_msg p off (take (nat n) (drop (nat off) (D p))))),
      sk_read = (\<lambda>s n. let k = min (min n 5) (int (length s)) in (k, take (nat k) s, drop (nat k) s))\<rparr>"

definition sim_peer_view :: "byte list peer_view" where
  "sim_peer_view = \<lparr>pv_inv = (\<lambda>s. True), pv_pending = (\<lambda>s. s)\<rparr>"

lemma sim_stream_ok: "stream_ok (sim_peer D) sim_peer_view"
  unfolding stream_ok_def
proof (intro allI impI)
  fix s and n :: int
  assume a: "0 < n" "pv_pending sim_peer_view s \<noteq> []"
  let ?k = "min (min n 5) (int (length s))"
  have "0 < ?k" "?k \<le> n" "?k \<le> int (length s)" using a by (auto simp: sim_peer_view_def)
  then show "\<exists>k s'. 0 < k \<and> k \<le> n \<and> k \<le> int (length (pv_pending sim_peer_view s)) \<and>
      sk_read (sim_peer D) s n = (k, take (nat k) (pv_pending sim_peer_view s), s') \<and>
      pv_inv sim_peer_view s' \<and> pv_pending sim_peer_view s' = drop (nat k) (pv_pending sim_peer_view s)"
    by (intro exI [of _ ?k] exI [of _ "drop (nat ?k) s"]) (simp add: sim_peer_view_def sim_peer_def Let_def)
qed

lemma sim_peer_answers:
  assumes "mi_num_pieces mi \<le> INT_MAX" "\<And>p. int (length (D p)) \<le> INT_MAX"
  shows "peer_answers (sim_peer D) sim_peer_view D mi"
  unfolding peer_answers_def
proof (intro allI impI)
  fix s p off n
  assume a: "0 \<le> p" "p < mi_num_pieces mi" "0 \<le> off" "0 < n" "n \<le> 16384" "off + n \<le> int (length (D p))"
  have "INT_MAX < 2 ^ 32" by (simp add: INT_MAX_def)
  then have "p < 2 ^ 32" "off < 2 ^ 32" "n < 2 ^ 32" using a assms(1) assms(2) [of p] by linarith+
  then have "request_fields (request_msg p off n) = Some (p, off, n)"
    using a by (intro request_fields_msg) simp_all
  then show "pv_inv sim_peer_view (snd (sk_write (sim_peer D) s (request_msg p off n))) \<and>
      pv_pending sim_peer_view (snd (sk_write (sim_peer D) s (request_msg p off n))) =
        pv_pending sim_peer_view s @ piece_msg p off (take (nat n) (drop (nat off) (D p)))"
    by (simp add: sim_peer_def sim_peer_view_def)
qed

definition demo_mi :: metainfo where
  "demo_mi = \<lparr>mi_infohash = replicate 20 7, mi_piece_length = 4, mi_file_length = 6, mi_num_pieces = 2\<rparr>"

definition demo_pieces :: "int \<Rightarrow> byte list" where
  "demo_pieces p = (if p = 0 then [1, 2, 3, 4] else [5, 6])"

lemma demo_mi:
  "mi_ok demo_mi" "content_fits demo_pieces demo_mi" "peer_answers (sim_peer demo_pieces) sim_peer_view demo_pieces demo_mi"
proof -
  show ok: "mi_ok demo_mi" by (simp add: mi_ok_def demo_mi_def count_pieces_def INT_MAX_def)
  have "p = 0 \<or> p = 1" if "0 \<le> p" "p < 2" for p :: int using that by linarith
  then show "content_fits demo_pieces demo_mi"
    using piece_size_eq(1) [OF ok, of 0] piece_size_eq(1) [OF ok, of 1]
    by (auto simp: content_fits_def demo_pieces_def demo_mi_def)
  show "peer_answers (sim_peer demo_pieces) sim_peer_view demo_pieces demo_mi"
    by (rule sim_peer_answers) (simp_all add: demo_mi_def demo_pieces_def INT_MAX_def)
qed

text \<open>The reply of a handshake is read over the request.\<close>

lemma handshake_request_length: "length infohash = 20 \<Longrightarrow> length (handshake_request infohash) = 68"
  by (simp add: handshake_request_def bytes_of_def)

lemma handshake_fields:
  assumes "length infohash = 20"
  shows "take 20 (handshake_request infohash) =
      [19, 66, 105, 116, 84, 111, 114, 114, 101, 110, 116, 32, 112, 114, 111, 116, 111, 99, 111, 108]"
    and "take 8 (drop 20 (handshake_request infohash)) = replicate 8 0"
    and "take 20 (drop 28 (handshake_request infohash)) = infohash"
    and "drop 48 (handshake_request infohash) =
      [45, 76, 84, 49, 49, 50, 45, 49, 50, 51, 52, 53, 54, 55, 56, 57, 56, 55, 54, 53]"
proof -
  let ?name = "[19, 66, 105, 116, 84, 111, 114, 114, 101, 110, 116, 32, 112, 114, 111, 116, 111, 99, 111, 108] :: byte list"
  let ?id = "[45, 76, 84, 49, 49, 50, 45, 49, 50, 51, 52, 53, 54, 55, 56, 57, 56, 55, 54, 53] :: byte list"
  have "0x13 # bytes_of ''BitTorrent protocol'' = ?name" "bytes_of ''-LT112-1234567898765'' = ?id"
    by code_simp+
  then have r: "handshake_request infohash = ?name @ replicate 8 0 @ infohash @ ?id"
    using assms by (simp add: handshake_request_def)
  have l: "length ?name = 20" "length (?name @ replicate 8 0) = 28" "length (?name @ replicate 8 0 @ infohash) = 48"
    using assms by simp_all
  have "take 20 (?name @ xs) = ?name" "drop 20 (?name @ xs) = xs" for xs using l(1) by simp_all
  then show "take 20 (handshake_request infohash) = ?name" "take 8 (drop 20 (handshake_request infohash)) = replicate 8 0"
    unfolding r by simp_all
  have "drop 28 ((?name @ replicate 8 0) @ xs) = xs" for xs using l(2) by simp
  then show "take 20 (drop 28 (handshake_request infohash)) = infohash"
    unfolding r using assms by simp
  have "drop 48 ((?name @ replicate 8 0 @ infohash) @ xs) = xs" for xs using l(3) by simp
  then show "drop 48 (handshake_request infohash) = ?id"
    unfolding r by simp
qed

lemma handshake_reply:
  assumes "length (mi_infohash mi) = 20"
    and "sk_read api (snd (sk_write api s (handshake_request (mi_infohash mi)))) 68 = (k, bs, s')"
    and "k \<le> 68" "0 < k \<longrightarrow> length bs = nat k"
  shows "\<exists>mbuf. bt_handshake api mi s = Inr (mbuf, s') \<and>
    take 68 mbuf = map Some (take (nat k) bs @ drop (nat k) (handshake_request (mi_infohash mi)))"
proof -
  define req where "req = handshake_request (mi_infohash mi)"
  have len: "length req = 68" using assms(1) handshake_request_length by (simp add: req_def)
  let ?mbuf = "map Some req @ replicate 60 (Some 0) :: mem"
  have "\<exists>mbuf. bt_handshake api mi s = Inr (mbuf, s') \<and> take 68 mbuf = map Some (take (nat k) bs @ drop (nat k) req)"
  proof (cases "0 < k")
    case False
    then show ?thesis
      using assms(1,2) len unfolding req_def [symmetric]
      by (auto simp: bt_handshake_def tcp_recv_def Let_def req_def [symmetric])
  next
    case True
    then have lb: "length bs = nat k" "nat k \<le> 68" using assms(3,4) by simp_all
    let ?new = "map Some bs @ drop (nat k) ?mbuf"
    have "memcpy ?mbuf 0 (map Some bs) 0 k = Inr (take (nat 0) ?mbuf @ take (nat k) (drop (nat 0) (map Some bs)) @
        drop (nat (0 + k)) ?mbuf)"
      by (rule memcpy_Inr) (use True assms(3) lb len in auto)
    then have "memcpy ?mbuf 0 (map Some bs) 0 k = Inr ?new" using lb by simp
    then have "bt_handshake api mi s = Inr (?new, s')"
      using assms(1,2) True by (simp add: bt_handshake_def tcp_recv_def Let_def req_def)
    moreover have "take 68 ?new = map Some (take (nat k) bs @ drop (nat k) req)"
      using lb len by (simp add: drop_map)
    ultimately show ?thesis by blast
  qed
  then show ?thesis by (simp add: req_def)
qed

section \<open>Properties\<close>

text \<open>
  C22: \<open>get_piece\<close> downloads a piece. From a peer that answers requests and sends nothing else,
  over a connection that cuts the stream into portions as it likes, it returns a buffer of the
  piece length with exactly the bytes of the piece at the front; the rest of the buffer, for a
  last piece that is shorter, was never written. Nothing of the stream is left over.
\<close>

theorem get_piece_correct:
  assumes "mi_ok mi" "stream_ok api v" "peer_answers api v D mi" "content_fits D mi"
    and "0 \<le> p" "p < mi_num_pieces mi" "pv_inv v s" "pv_pending v s = []"
  shows "\<exists>s'. get_piece api p mi s = Some (Inr (map Some (D p) @
      replicate (nat (mi_piece_length mi - piece_size p mi)) None, s')) \<and> pv_inv v s' \<and> pv_pending v s' = []"
  using assms by (rule get_piece_reads)

theorem get_piece_correct_witness:
  "get_piece (sim_peer demo_pieces) 1 demo_mi [] = Some (Inr ([Some 5, Some 6, None, None], []))"
proof -
  have "pv_inv sim_peer_view []" "pv_pending sim_peer_view [] = []" "(1::int) < mi_num_pieces demo_mi"
    by (simp_all add: sim_peer_view_def demo_mi_def)
  note piece = get_piece_correct [OF demo_mi(1) sim_stream_ok demo_mi(3,2) _ this(3,1,2)]
  have "piece_size 1 demo_mi = 2" by code_simp
  with piece show ?thesis by (auto simp: sim_peer_view_def demo_pieces_def demo_mi_def numeral_2_eq_2)
qed

text \<open>
  C24: \<open>get_piece\<close> does not look at the headers of what it receives. When up to 13 bytes are still on
  their way, such as the five of the peer's \<open>unchoke\<close>, every block of the piece comes out shifted
  by as many: it starts with the last bytes of its answer's header and lacks its own last ones
  (for \<open>unchoke\<close>, it starts with the low byte of the piece number and the four of the offset). As many
  bytes stay behind on the connection, so the next piece comes out shifted as well.
\<close>

theorem unsolicited_message_shifts:
  assumes "mi_ok mi" "stream_ok api v" "peer_answers api v D mi" "content_fits D mi"
    and "0 \<le> p" "p < mi_num_pieces mi" "pv_inv v s" "length (pv_pending v s) = k" "k \<le> 13"
  shows "\<exists>s'. get_piece api p mi s = Some (Inr (map Some (received k p 0 (D p)) @
      replicate (nat (mi_piece_length mi - piece_size p mi)) None, s')) \<and>
    pv_inv v s' \<and> length (pv_pending v s') = k"
proof -
  note ps = piece_size_eq [OF assms(1,5,6)]
  have len: "0 + piece_size p mi = int (length (D p))" using assms(4-6) by (simp add: content_fits_def)
  have fit: "0 + piece_size p mi \<le> int (length (replicate (nat (mi_piece_length mi)) (None :: byte option)))"
    using ps by simp
  have "nat (mi_piece_length mi) - nat (piece_size p mi) = nat (mi_piece_length mi - piece_size p mi)"
    using ps(2) by (simp add: nat_diff_distrib')
  moreover have "take (nat (piece_size p mi)) (D p) = D p" using len by simp
  ultimately show ?thesis
    using get_piece_loop_receives [OF assms(2,3,5,6,9) _ len _ fit assms(7,8)] ps(2) by (simp add: get_piece_def)
qed

definition demo2_mi :: metainfo where
  "demo2_mi = \<lparr>mi_infohash = replicate 20 7, mi_piece_length = 8, mi_file_length = 6, mi_num_pieces = 1\<rparr>"

definition demo2_pieces :: "int \<Rightarrow> byte list" where
  "demo2_pieces p = [1, 2, 3, 4, 5, 6]"

theorem unsolicited_message_shifts_witness:
  "\<exists>s'. get_piece (sim_peer demo2_pieces) 0 demo2_mi (be32 1 @ [1]) =
     Some (Inr (map Some [0, 0, 0, 0, 0, 1] @ [None, None], s')) \<and> length s' = 5"
proof -
  have ok: "mi_ok demo2_mi" by (simp add: mi_ok_def demo2_mi_def count_pieces_def INT_MAX_def)
  have sz: "piece_size 0 demo2_mi = 6" by code_simp
  have fits: "content_fits demo2_pieces demo2_mi"
    unfolding content_fits_def
  proof (intro allI impI)
    fix p
    assume "0 \<le> p" "p < mi_num_pieces demo2_mi"
    then have "p = 0" by (simp add: demo2_mi_def)
    then show "int (length (demo2_pieces p)) = piece_size p demo2_mi" using sz by (simp add: demo2_pieces_def)
  qed
  have ans: "peer_answers (sim_peer demo2_pieces) sim_peer_view demo2_pieces demo2_mi"
    by (rule sim_peer_answers) (simp_all add: demo2_mi_def demo2_pieces_def INT_MAX_def)
  have st: "pv_inv sim_peer_view (be32 1 @ [1])" "length (pv_pending sim_peer_view (be32 1 @ [1])) = 5"
      "0 < mi_num_pieces demo2_mi"
    by (simp_all add: sim_peer_view_def demo2_mi_def)
  have "drop 8 (piece_msg 0 0 [1, 2, 3, 4, 5, 6]) = [0, 0, 0, 0, 0, 1, 2, 3, 4, 5, 6]" by code_simp
  then have r: "received 5 0 0 (demo2_pieces 0) = [0, 0, 0, 0, 0, 1]"
    by (subst received.simps) (simp add: demo2_pieces_def received.simps [of 5 0 _ "[]"])
  have "nat (mi_piece_length demo2_mi - piece_size 0 demo2_mi) = 2" using sz by (simp add: demo2_mi_def)
  with unsolicited_message_shifts [OF ok sim_stream_ok ans fits order_refl st(3,1,2)]
  show ?thesis unfolding r by (simp add: sim_peer_view_def numeral_2_eq_2)
qed

text \<open>
  C25: the sizes of the pieces. Each piece of a well-formed torrent has between one byte and the piece
  length, all but the last have exactly the piece length, and together they are the file;
  for a number beyond the last the result is -1.
\<close>

theorem piece_sizes_partition:
  assumes "mi_ok mi"
  shows "(\<Sum>p<nat (mi_num_pieces mi). piece_size (int p) mi) = mi_file_length mi \<and>
    (\<forall>p. 0 \<le> p \<and> p < mi_num_pieces mi \<longrightarrow> 0 < piece_size p mi \<and> piece_size p mi \<le> mi_piece_length mi) \<and>
    (\<forall>p. 0 \<le> p \<and> p + 1 < mi_num_pieces mi \<longrightarrow> piece_size p mi = mi_piece_length mi) \<and>
    (\<forall>p \<ge> mi_num_pieces mi. piece_size p mi = - 1)"
proof (intro conjI)
  let ?n = "mi_num_pieces mi" and ?pl = "mi_piece_length mi" and ?fl = "mi_file_length mi"
  have b: "0 < ?pl" "?n = count_pieces ?fl ?pl" "0 < ?fl" using assms by (simp_all add: mi_ok_def)
  have le: "?fl \<le> ?pl * ?n" using count_pieces_enough [OF b(1)] b(2) by simp
  then have n: "0 \<le> ?n" using b by (metis mult_less_0_iff not_less order_less_le_trans order_less_trans)
  then show "(\<Sum>p<nat ?n. piece_size (int p) mi) = ?fl"
    using piece_sizes_sum [OF assms, of "nat ?n"] le by simp
  have "piece_size p mi \<le> ?pl" if "0 \<le> p" "p < ?n" for p
    unfolding piece_size_eq(1) [OF assms that] by simp
  then show "\<forall>p. 0 \<le> p \<and> p < ?n \<longrightarrow> 0 < piece_size p mi \<and> piece_size p mi \<le> ?pl"
    using piece_size_eq(2) [OF assms] by blast
  show "\<forall>p. 0 \<le> p \<and> p + 1 < ?n \<longrightarrow> piece_size p mi = ?pl"
  proof (intro allI impI)
    fix p
    assume p: "0 \<le> p \<and> p + 1 < ?n"
    then have "?pl * (p + 1) < ?fl" using count_pieces_bounds [OF b(1)] b(2) by simp
    then have "?pl \<le> ?fl - ?pl * p" by (simp add: distrib_left)
    then show "piece_size p mi = ?pl" using p piece_size_eq(1) [OF assms, of p] by simp
  qed
  show "\<forall>p \<ge> ?n. piece_size p mi = - 1" by (simp add: piece_size_def)
qed

theorem piece_sizes_partition_witness:
  "(\<Sum>p<2. piece_size (int p) demo_mi) = 6 \<and> piece_size 0 demo_mi = 4 \<and> piece_size 2 demo_mi = - 1"
  using piece_sizes_partition [OF demo_mi(1)] by (simp add: demo_mi_def)

text \<open>
  C26: every message sent is framed as the protocol asks: the first four bytes are the big-endian length
  of what follows, and the request carries piece, offset and length so that the other side
  reads back the numbers it was made from. Of the message types only choke, unchoke and
  interested are sent; the others send nothing and return null.
\<close>

theorem messages_framed:
  assumes "0 \<le> p" "p < 2 ^ 31" "0 \<le> off" "off < 2 ^ 31" "0 \<le> n" "n < 2 ^ 31"
  shows "request_fields (request_msg p off n) = Some (p, off, n) \<and>
    de32 (request_msg p off n) = int (length (request_msg p off n)) - 4 \<and>
    bt_send_message api ty s =
      (case ty of CHOKE \<Rightarrow> (Some (map Some ([0, 0, 0, 1, 0] @ replicate 11 0)), snd (sk_write api s [0, 0, 0, 1, 0]))
       | UNCHOKE \<Rightarrow> (Some (map Some ([0, 0, 0, 1, 1] @ replicate 11 0)), snd (sk_write api s [0, 0, 0, 1, 1]))
       | INTERESTED \<Rightarrow> (Some (map Some ([0, 0, 0, 1, 2] @ replicate 11 0)), snd (sk_write api s [0, 0, 0, 1, 2]))
       | _ \<Rightarrow> (None, s))"
proof -
  have "de32 (request_msg p off n) = 13"
    using be32_de32 [of 13] by (simp add: request_msg_def de32_append)
  moreover have "length (request_msg p off n) = 17" by (simp add: request_msg_def)
  moreover have "be32 1 = [0, 0, 0, 1]" by code_simp
  moreover have "request_fields (request_msg p off n) = Some (p, off, n)"
    using assms by (intro request_fields_msg) simp_all
  ultimately show ?thesis
    by (cases ty) (simp_all add: bt_send_message_def bt_choke_def bt_unchoke_def bt_interested_def
        short_message_def Let_def)
qed

theorem messages_framed_witness:
  "request_fields (request_msg 3 16384 100) = Some (3, 16384, 100)"
  using conjunct1 [OF messages_framed [of 3 16384 100]] by simp

text \<open>
  C27: \<open>get_block\<close> does not handle the two ways a connection ends. When the peer has closed it,
  \<open>read\<close> gives 0 and the loop waits for ever. When \<open>read\<close> fails, its -1 is subtracted and added
  like a count, so the next bytes are written in front of the buffer.
\<close>

theorem get_block_connection_loss:
  assumes "0 < n"
  shows "((\<forall>k. sk_read api s k = (0, [], s)) \<longrightarrow> get_block api n s = None) \<and>
    (sk_read api s n = (- 1, [], s1) \<and> sk_read api s1 (n + 1) = (int (length bs), bs, s2) \<and> bs \<noteq> [] \<longrightarrow>
      get_block api n s = Some (Inl OutOfBounds))"
proof
  show "(\<forall>k. sk_read api s k = (0, [], s)) \<longrightarrow> get_block api n s = None"
    by (auto simp: get_block_def intro!: get_block_loop_closed assms)
  show "sk_read api s n = (- 1, [], s1) \<and> sk_read api s1 (n + 1) = (int (length bs), bs, s2) \<and> bs \<noteq> [] \<longrightarrow>
      get_block api n s = Some (Inl OutOfBounds)"
  proof
    assume a: "sk_read api s n = (- 1, [], s1) \<and> sk_read api s1 (n + 1) = (int (length bs), bs, s2) \<and> bs \<noteq> []"
    have "get_block_loop api n 0 buf s = get_block_loop api (n + 1) (- 1) buf s1" for buf
      using a assms by (subst get_block_loop.simps) (simp add: tcp_recv_def)
    moreover have "get_block_loop api (n + 1) (- 1) buf s1 = Some (Inl OutOfBounds)" for buf
      using a assms by (subst get_block_loop.simps) (simp add: tcp_recv_def memcpy_def)
    ultimately show "get_block api n s = Some (Inl OutOfBounds)" by (simp add: get_block_def)
  qed
qed

definition closed_socket :: "unit sock_api" where
  "closed_socket = \<lparr>sk_write = (\<lambda>s bs. (- 1, s)), sk_read = (\<lambda>s n. (0, [], s))\<rparr>"

theorem get_block_connection_loss_witness:
  "get_block closed_socket 16 () = None"
  using get_block_connection_loss [of 16 closed_socket "()" "()" "[]" "()"] by (simp add: closed_socket_def)

text \<open>
  C28: the handshake. What is sent is the protocol's handshake of 68 bytes: the length 19, the 19
  characters of its name in ASCII, eight reserved zeros, the info hash, and a peer id of 20
  characters. The reply is read over the request in the same buffer, without a look at how much
  came: after a reply of \<open>k\<close> bytes, and after none, the rest of the returned handshake is the
  request itself, so a peer that hangs up seems to answer with the program's own info hash and
  peer id.
\<close>

theorem handshake_echo:
  assumes "length (mi_infohash mi) = 20"
    and "sk_read api (snd (sk_write api s (handshake_request (mi_infohash mi)))) 68 = (k, bs, s')"
    and "k \<le> 68" "0 < k \<longrightarrow> length bs = nat k"
  shows "length (handshake_request (mi_infohash mi)) = 68 \<and>
    take 20 (handshake_request (mi_infohash mi)) =
      [19, 66, 105, 116, 84, 111, 114, 114, 101, 110, 116, 32, 112, 114, 111, 116, 111, 99, 111, 108] \<and>
    take 8 (drop 20 (handshake_request (mi_infohash mi))) = replicate 8 0 \<and>
    take 20 (drop 28 (handshake_request (mi_infohash mi))) = mi_infohash mi \<and>
    drop 48 (handshake_request (mi_infohash mi)) =
      [45, 76, 84, 49, 49, 50, 45, 49, 50, 51, 52, 53, 54, 55, 56, 57, 56, 55, 54, 53] \<and>
    (\<exists>mbuf. bt_handshake api mi s = Inr (mbuf, s') \<and>
      take 68 mbuf = map Some (take (nat k) bs @ drop (nat k) (handshake_request (mi_infohash mi))))"
  using handshake_reply [OF assms] handshake_request_length [OF assms(1)] handshake_fields [OF assms(1)] by blast

theorem handshake_echo_witness:
  "\<exists>mbuf. bt_handshake closed_socket demo_mi () = Inr (mbuf, ()) \<and>
     take 68 mbuf = map Some (handshake_request (replicate 20 7))"
  using handshake_echo [of demo_mi closed_socket "()" 0 "[]" "()"] by (simp add: closed_socket_def demo_mi_def)



end
