(* ===== verification/C_Loop.thy ===== *)
theory C_Loop
  imports Prelude
begin

text \<open>
  Sequencing of statements that may fault, and the \<open>while\<close> loop of C whose body may return from
  the function: rules for its termination, its invariants and its independence of the fuel
  of what it calls.
\<close>

section \<open>Sequencing\<close>

definition res_bind :: "fault + 'a \<Rightarrow> ('a \<Rightarrow> fault + 'b) \<Rightarrow> fault + 'b" where
  "res_bind x f = (case x of Inl e \<Rightarrow> Inl e | Inr a \<Rightarrow> f a)"

lemma res_bind_simps [simp]:
  "res_bind (Inl e) f = Inl e"
  "res_bind (Inr a) f = f a"
  by (simp_all add: res_bind_def)

lemma res_bind_Inr: "res_bind x f = Inr b \<longleftrightarrow> (\<exists>a. x = Inr a \<and> f a = Inr b)"
  by (cases x) simp_all

definition out_bind :: "'a outcome \<Rightarrow> ('a \<Rightarrow> 'b outcome) \<Rightarrow> 'b outcome" where
  "out_bind x f = (case x of None \<Rightarrow> None | Some r \<Rightarrow> (case r of Inl e \<Rightarrow> Some (Inl e) | Inr a \<Rightarrow> f a))"

lemma out_bind_simps [simp]:
  "out_bind None f = None"
  "out_bind (Some (Inl e)) f = Some (Inl e)"
  "out_bind (Some (Inr a)) f = f a"
  by (simp_all add: out_bind_def)

lemma out_bind_Some:
  "out_bind x f = Some r \<longleftrightarrow> (\<exists>e. x = Some (Inl e) \<and> r = Inl e) \<or> (\<exists>a. x = Some (Inr a) \<and> f a = Some r)"
  by (auto simp: out_bind_def split: option.splits sum.splits)

lemma out_bind_Inr: "out_bind x f = Some (Inr b) \<longleftrightarrow> (\<exists>a. x = Some (Inr a) \<and> f a = Some (Inr b))"
  by (auto simp: out_bind_Some)

lemma out_bind_None: "out_bind x f = None \<longleftrightarrow> x = None \<or> (\<exists>a. x = Some (Inr a) \<and> f a = None)"
  by (auto simp: out_bind_def split: option.splits sum.splits)

section \<open>Loops\<close>

text \<open>
  \<open>while (c) b\<close>: the condition may change the state; the body ends with \<^term>\<open>Inl r\<close> when it
  returns \<open>r\<close> from the function, and with \<^term>\<open>Inr s\<close> when the loop goes on in state \<open>s\<close>.
\<close>

partial_function (option) while_loop ::
  "('s \<Rightarrow> fault + (bool \<times> 's)) \<Rightarrow> ('s \<Rightarrow> ('r + 's) outcome) \<Rightarrow> 's \<Rightarrow> ('r + 's) outcome" where
  "while_loop c b s =
     (case c s of
        Inl e \<Rightarrow> Some (Inl e)
      | Inr x \<Rightarrow> (case x of (go, s1) \<Rightarrow>
          if \<not> go then Some (Inr (Inr s1))
          else (case b s1 of
              None \<Rightarrow> None
            | Some y \<Rightarrow> (case y of
                Inl e \<Rightarrow> Some (Inl e)
              | Inr z \<Rightarrow> (case z of
                  Inl r \<Rightarrow> Some (Inr (Inl r))
                | Inr s2 \<Rightarrow> while_loop c b s2)))))"

declare while_loop.simps [code]

lemma while_loop_stop: "c s = Inr (False, s1) \<Longrightarrow> while_loop c b s = Some (Inr (Inr s1))"
  by (simp add: while_loop.simps)

lemma while_loop_step:
  "c s = Inr (True, s1) \<Longrightarrow> b s1 = Some (Inr (Inr s2)) \<Longrightarrow> while_loop c b s = while_loop c b s2"
  by (simp add: while_loop.simps [of _ _ s])

lemma while_loop_return:
  "c s = Inr (True, s1) \<Longrightarrow> b s1 = Some (Inr (Inl r)) \<Longrightarrow> while_loop c b s = Some (Inr (Inl r))"
  by (simp add: while_loop.simps)

lemma while_loop_fault:
  "c s = Inr (True, s1) \<Longrightarrow> b s1 = Some (Inl e) \<Longrightarrow> while_loop c b s = Some (Inl e)"
  by (simp add: while_loop.simps)

lemma while_loop_cond_fault: "c s = Inl e \<Longrightarrow> while_loop c b s = Some (Inl e)"
  by (simp add: while_loop.simps)

text \<open>When the body of one loop does whatever the body of another does, so do the loops.\<close>

lemma while_loop_mono:
  assumes "while_loop c b s = Some r" and "\<And>s r. b s = Some r \<Longrightarrow> b' s = Some r"
  shows "while_loop c b' s = Some r"
proof -
  have "while_loop c b s = Some r \<Longrightarrow> (\<And>s r. b s = Some r \<Longrightarrow> b' s = Some r) \<Longrightarrow> while_loop c b' s = Some r"
    for c b s r b'
  proof (induction rule: while_loop.raw_induct [rotated, consumes 1, case_names step])
    case (step loop c b s r)
    show ?case
    proof (cases "c s")
      case (Inl e)
      then show ?thesis using step(2) by (simp add: while_loop_cond_fault)
    next
      case (Inr x)
      obtain go s1 where x: "x = (go, s1)" by (cases x)
      show ?thesis
      proof (cases go)
        case False
        then show ?thesis using Inr x step(2) by (simp add: while_loop_stop)
      next
        case True
        then have c: "c s = Inr (True, s1)" using Inr x by simp
        then obtain y where y: "b s1 = Some y" using step(2) by (auto split: option.splits)
        then have b': "b' s1 = Some y" by (rule step(3))
        show ?thesis
        proof (cases y)
          case (Inl e)
          then have "while_loop c b' s = Some (Inl e)" using c b' by (intro while_loop_fault) simp_all
          then show ?thesis using step(2) c y Inl by simp
        next
          case (Inr z)
          show ?thesis
          proof (cases z)
            case (Inl q)
            then have "while_loop c b' s = Some (Inr (Inl q))"
              using c b' \<open>y = Inr z\<close> by (intro while_loop_return) simp_all
            then show ?thesis using step(2) c y Inl \<open>y = Inr z\<close> by simp
          next
            case z: (Inr s2)
            then have "loop c b s2 = Some r" using step(2) c y Inr by simp
            then have "while_loop c b' s2 = Some r" using step(3) by (rule step(1))
            then show ?thesis using c b' Inr z by (simp add: while_loop_step)
          qed
        qed
      qed
    qed
  qed
  from this [OF assms] show ?thesis .
qed

text \<open>A loop ends when every round that goes on lowers a measure.\<close>

lemma while_loop_total:
  assumes "\<And>s s1. I s \<Longrightarrow> c s = Inr (True, s1) \<Longrightarrow> b s1 \<noteq> None"
    and "\<And>s s1 s2. I s \<Longrightarrow> c s = Inr (True, s1) \<Longrightarrow> b s1 = Some (Inr (Inr s2)) \<Longrightarrow> I s2 \<and> m s2 < (m s :: nat)"
    and "I s"
  shows "while_loop c b s \<noteq> None"
  using \<open>I s\<close>
proof (induction "m s" arbitrary: s rule: less_induct)
  case less
  show ?case
  proof (cases "c s")
    case (Inl e)
    then show ?thesis by (simp add: while_loop_cond_fault)
  next
    case (Inr x)
    obtain go s1 where x: "x = (go, s1)" by (cases x)
    show ?thesis
    proof (cases go)
      case False
      then show ?thesis using Inr x by (simp add: while_loop_stop)
    next
      case True
      then have c: "c s = Inr (True, s1)" using Inr x by simp
      then obtain y where y: "b s1 = Some y" using assms(1) less.prems by blast
      show ?thesis
      proof (cases y)
        case (Inl e)
        then show ?thesis using c y while_loop_fault by fastforce
      next
        case (Inr z)
        show ?thesis
        proof (cases z)
          case (Inl r)
          then show ?thesis using Inr c y while_loop_return by fastforce
        next
          case z: (Inr s2)
          then have b: "b s1 = Some (Inr (Inr s2))" using Inr y by simp
          then show ?thesis using while_loop_step [of c s s1 b s2] c less assms(2) [OF less.prems c b] by simp
        qed
      qed
    qed
  qed
qed

text \<open>Invariants, and what holds when the loop ends in one of its two ways.\<close>

lemma while_loop_inv:
  assumes "while_loop c b s = Some (Inr x)" and "I s"
    and "\<And>s s1 s2. I s \<Longrightarrow> c s = Inr (True, s1) \<Longrightarrow> b s1 = Some (Inr (Inr s2)) \<Longrightarrow> I s2"
    and "\<And>s s1. I s \<Longrightarrow> c s = Inr (False, s1) \<Longrightarrow> Q s1"
    and "\<And>s s1 r. I s \<Longrightarrow> c s = Inr (True, s1) \<Longrightarrow> b s1 = Some (Inr (Inl r)) \<Longrightarrow> R r"
  shows "case x of Inl r \<Rightarrow> R r | Inr s1 \<Rightarrow> Q s1"
proof -
  have "while_loop c b s = Some y \<Longrightarrow> y = Inr x \<Longrightarrow> I s \<Longrightarrow>
      (\<And>s s1 s2. I s \<Longrightarrow> c s = Inr (True, s1) \<Longrightarrow> b s1 = Some (Inr (Inr s2)) \<Longrightarrow> I s2) \<Longrightarrow>
      (\<And>s s1. I s \<Longrightarrow> c s = Inr (False, s1) \<Longrightarrow> Q s1) \<Longrightarrow>
      (\<And>s s1 r. I s \<Longrightarrow> c s = Inr (True, s1) \<Longrightarrow> b s1 = Some (Inr (Inl r)) \<Longrightarrow> R r) \<Longrightarrow>
      case x of Inl r \<Rightarrow> R r | Inr s1 \<Rightarrow> Q s1" for c b s y
  proof (induction rule: while_loop.raw_induct [rotated, consumes 1, case_names step])
    case (step loop c b s y)
    obtain go s1 where c: "c s = Inr (go, s1)" using step(2,3) by (cases "c s") auto
    show ?case
    proof (cases go)
      case False
      then show ?thesis using c step(2-4) step(6) by auto
    next
      case True
      then have c: "c s = Inr (True, s1)" using c by simp
      then obtain z where z: "b s1 = Some (Inr z)"
        using step(2,3) by (auto split: option.splits sum.splits)
      show ?thesis
      proof (cases z)
        case (Inl r)
        then show ?thesis using step(2,3) c z step(7) [OF step(4) c] by auto
      next
        case (Inr s2)
        then have b: "b s1 = Some (Inr (Inr s2))" using z by simp
        then have "loop c b s2 = Some y" using step(2) c by simp
        then show ?thesis using step(3) step(5) [OF step(4) c b] step(5-7) by (rule step(1))
      qed
    qed
  qed
  from this [OF assms(1) refl assms(2-5)] show ?thesis .
qed

lemma while_loop_end:
  assumes "while_loop c b s = Some (Inr (Inr s'))" and "I s"
    and "\<And>s s1 s2. I s \<Longrightarrow> c s = Inr (True, s1) \<Longrightarrow> b s1 = Some (Inr (Inr s2)) \<Longrightarrow> I s2"
    and "\<And>s s1. I s \<Longrightarrow> c s = Inr (False, s1) \<Longrightarrow> Q s1"
  shows "Q s'"
  using while_loop_inv [where I = I and Q = Q and R = "\<lambda>_. True", OF assms] by simp

end
