(* ===== verification/Bencode.thy ===== *)
theory Bencode
  imports C_Loop
begin

text \<open>
  The reader of bencoded text in \<open>btclient/bencode/bencode.c\<close>: cursors over a buffer, the readers
  of numbers and strings, the iterators over dictionaries and lists, and the validator; with
  the proof that every function returns or faults, and never moves a cursor backwards.

  A pointer into the buffer is its position. Reading at a position outside the buffer is a
  fault, as is a failed \<open>assert\<close>. Arithmetic on \<open>int\<close> and \<open>long\<close> that overflows wraps around.
\<close>

section \<open>Characters and numbers\<close>

definition is_digit :: "char \<Rightarrow> bool" where
  "is_digit c \<longleftrightarrow> 48 \<le> (of_char c :: nat) \<and> (of_char c :: nat) \<le> 57"

definition digit_val :: "char \<Rightarrow> int" where
  "digit_val c = int (of_char c) - 48"

definition peek :: "string \<Rightarrow> int \<Rightarrow> fault + char" where
  "peek buf p = (if 0 \<le> p \<and> p < int (length buf) then Inr (buf ! nat p) else Inl OutOfBounds)"

definition long_cast :: "int \<Rightarrow> int" where
  "long_cast x = (x + 9223372036854775808) mod 18446744073709551616 - 9223372036854775808"

text \<open>The loop over the digits of a number; \<open>cast\<close> wraps to the type of the accumulator.\<close>

function digits_loop :: "(int \<Rightarrow> int) \<Rightarrow> string \<Rightarrow> int \<Rightarrow> int \<Rightarrow> fault + (int \<times> int)" where
  "digits_loop cast buf sp acc =
     (case peek buf sp of
        Inl e \<Rightarrow> Inl e
      | Inr c \<Rightarrow> if is_digit c then digits_loop cast buf (sp + 1) (cast (cast (acc * 10) + digit_val c))
          else Inr (sp, acc))"
  by pat_completeness auto
termination
  by (relation "measure (\<lambda>(cast, buf, sp, acc). nat (int (length buf) - sp))")
    (auto simp: peek_def split: if_splits)

declare digits_loop.simps [simp del]

text \<open>\<open>__read_string_int\<close>: \<^term>\<open>None\<close> when it returns 0, else the end and the value.\<close>

definition read_string_int :: "string \<Rightarrow> int \<Rightarrow> fault + (int \<times> int) option" where
  "read_string_int buf sp =
     res_bind (peek buf sp) (\<lambda>c.
       let sign = (if c = CHR ''-'' then - 1 else 1);
           sp = (if c = CHR ''-'' then sp + 1 else sp)
       in res_bind (peek buf sp) (\<lambda>c.
         if \<not> is_digit c then Inr None
         else res_bind (digits_loop long_cast buf sp 0) (\<lambda>(end, val).
           Inr (Some (end, long_cast (val * sign))))))"

text \<open>\<open>__read_string_len\<close>: \<^term>\<open>None\<close> when it returns null, else the start of the string and its length.\<close>

definition read_string_len :: "string \<Rightarrow> int \<Rightarrow> fault + (int \<times> int) option" where
  "read_string_len buf sp =
     res_bind (peek buf sp) (\<lambda>c.
       if \<not> is_digit c then Inr None
       else res_bind (digits_loop int_cast buf sp 0) (\<lambda>(sp, slen).
         res_bind (peek buf sp) (\<lambda>c.
           if c \<noteq> CHR '':'' then Inl AssertFailed
           else if slen < 0 then Inl AssertFailed
           else Inr (Some (sp + 1, slen)))))"

section \<open>Cursors\<close>

text \<open>The fields of \<open>bencode_t\<close> in use; \<open>str\<close> may become null.\<close>

record bencode =
  be_str :: "int option"
  be_start :: int
  be_len :: int

definition bencode_init :: "int \<Rightarrow> int \<Rightarrow> bencode" where
  "bencode_init str len = \<lparr>be_str = Some str, be_start = str, be_len = len\<rparr>"

lemma bencode_init_simps [simp]:
  "be_str (bencode_init s l) = Some s" "be_start (bencode_init s l) = s" "be_len (bencode_init s l) = l"
  by (simp_all add: bencode_init_def)

definition bencode_clone :: "bencode \<Rightarrow> bencode" where
  "bencode_clone be = be"

definition carry_length :: "bencode \<Rightarrow> int \<Rightarrow> fault + int" where
  "carry_length be pos =
     (if 0 < be_len be
      then (case be_str be of
          None \<Rightarrow> Inl NullPointer
        | Some s \<Rightarrow> Inr (int_cast (be_len be - (pos - s))))
      else Inl AssertFailed)"

definition starts_with :: "string \<Rightarrow> bencode \<Rightarrow> char \<Rightarrow> fault + bool" where
  "starts_with buf be c =
     (case be_str be of None \<Rightarrow> Inr False | Some s \<Rightarrow> res_bind (peek buf s) (\<lambda>x. Inr (x = c)))"

definition bencode_is_dict :: "string \<Rightarrow> bencode \<Rightarrow> fault + bool" where
  "bencode_is_dict buf be = starts_with buf be (CHR ''d'')"

definition bencode_is_int :: "string \<Rightarrow> bencode \<Rightarrow> fault + bool" where
  "bencode_is_int buf be = starts_with buf be (CHR ''i'')"

definition bencode_is_list :: "string \<Rightarrow> bencode \<Rightarrow> fault + bool" where
  "bencode_is_list buf be = starts_with buf be (CHR ''l'')"

definition bencode_is_string :: "string \<Rightarrow> bencode \<Rightarrow> fault + bool" where
  "bencode_is_string buf be =
     (case be_str be of
        None \<Rightarrow> Inl AssertFailed
      | Some sp \<Rightarrow> res_bind (peek buf sp) (\<lambda>c.
          if \<not> is_digit c then Inr False
          else res_bind (digits_loop int_cast buf sp 0) (\<lambda>(sp, val).
            res_bind (peek buf sp) (\<lambda>c. Inr (c = CHR '':'')))))"

text \<open>The value of an integer: return value and \<open>val\<close>.\<close>

definition bencode_int_value :: "string \<Rightarrow> bencode \<Rightarrow> fault + (int \<times> int)" where
  "bencode_int_value buf be =
     (case be_str be of
        None \<Rightarrow> Inl NullPointer
      | Some s \<Rightarrow> res_bind (read_string_int buf (s + 1)) (\<lambda>r.
          case r of
            None \<Rightarrow> Inr (0, 0)
          | Some (end, val) \<Rightarrow> res_bind (peek buf end) (\<lambda>c.
              if c = CHR ''e'' then Inr (1, val) else Inl AssertFailed)))"

text \<open>The value of a string: \<open>str\<close>, which is null when 0 is returned, and \<open>slen\<close>.\<close>

definition bencode_string_value :: "string \<Rightarrow> bencode \<Rightarrow> fault + (int option \<times> int)" where
  "bencode_string_value buf be =
     res_bind (bencode_is_string buf be) (\<lambda>ok.
       if \<not> ok then Inl AssertFailed
       else case be_str be of
          None \<Rightarrow> Inl NullPointer
        | Some s \<Rightarrow> res_bind (read_string_len buf s) (\<lambda>r.
            case r of
              None \<Rightarrow> Inl AssertFailed
            | Some (sp, slen) \<Rightarrow>
                if be_len be \<le> 0 then Inl AssertFailed
                else if sp + slen > be_start be + be_len be then Inr (None, slen)
                else Inr (Some sp, slen)))"

section \<open>Iterators\<close>

definition bencode_dict_has_next :: "string \<Rightarrow> bencode \<Rightarrow> fault + bool" where
  "bencode_dict_has_next buf be =
     (case be_str be of
        None \<Rightarrow> Inr False
      | Some sp \<Rightarrow> res_bind (peek buf sp) (\<lambda>c.
          if c = CHR ''e'' \<or> c = CHR 0x00 \<or> c = CHR 0x0D then Inr False
          else res_bind (if c = CHR ''d'' then peek buf (sp + 1) else Inr (CHR 0x00)) (\<lambda>c1.
            if c = CHR ''d'' \<and> c1 = CHR ''e'' then Inr False
            else Inr (\<not> sp \<ge> be_start be + be_len be - 1))))"

text \<open>
  What a \<open>get_next\<close> gives: its return value, the cursor it advanced, and through pointers the
  item, the key and its length; \<^term>\<open>None\<close> for what was not assigned.
\<close>

record next_item =
  ni_ret :: int
  ni_be :: bencode
  ni_item :: "bencode option"
  ni_key :: "int option"
  ni_klen :: "int option"

text \<open>
  \<open>get_next\<close> calls \<open>__iterate_to_next_string_pos\<close>, which calls \<open>get_next\<close>; here the former gets the
  latter as an argument. A key that does not start with a digit makes \<open>keyin\<close> null; the null
  pointer then fails the assertion of \<open>bencode_is_string\<close>. The item is computed whether the
  caller asked for it or not: the calls it needs are made in any case.
\<close>

definition dict_get_next_by ::
  "(bencode \<Rightarrow> int \<Rightarrow> int option outcome) \<Rightarrow> string \<Rightarrow> bencode \<Rightarrow> next_item outcome" where
  "dict_get_next_by iterate buf be =
     (case be_str be of
        None \<Rightarrow> Some (Inl NullPointer)
      | Some sp \<Rightarrow> out_bind (Some (peek buf sp)) (\<lambda>c.
          if c = CHR ''e'' then Some (Inl AssertFailed)
          else let sp = (if c = CHR ''d'' then sp + 1 else sp)
          in out_bind (Some (peek buf sp)) (\<lambda>c.
            if c = CHR ''e'' then Some (Inr \<lparr>ni_ret = 0, ni_be = be, ni_item = None, ni_key = None, ni_klen = None\<rparr>)
            else out_bind (Some (read_string_len buf sp)) (\<lambda>r.
              case r of
                None \<Rightarrow> Some (Inl AssertFailed)
              | Some (keyin, len) \<Rightarrow>
                  out_bind (Some (carry_length be (keyin + len))) (\<lambda>l.
                    out_bind (iterate be (keyin + len)) (\<lambda>q.
                      Some (Inr \<lparr>ni_ret = (if q = None then 0 else 1), ni_be = be\<lparr>be_str := q\<rparr>,
                        ni_item = Some (bencode_init (keyin + len) l),
                        ni_key = (if q = None then None else Some keyin), ni_klen = Some len\<rparr>)))))))"

definition bencode_list_has_next :: "string \<Rightarrow> bencode \<Rightarrow> fault + (bool \<times> bencode)" where
  "bencode_list_has_next buf be =
     (case be_str be of
        None \<Rightarrow> Inl NullPointer
      | Some sp \<Rightarrow> res_bind (peek buf sp) (\<lambda>c.
          res_bind (if c = CHR ''l'' \<and> sp = be_start be then peek buf (sp + 1) else Inr (CHR 0x00)) (\<lambda>c1.
            if c = CHR ''l'' \<and> sp = be_start be \<and> c1 = CHR ''e'' then Inr (False, be\<lparr>be_str := Some (sp + 1)\<rparr>)
            else if c = CHR ''e'' then Inr (False, be)
            else Inr (True, be))))"

definition list_get_next_by ::
  "(bencode \<Rightarrow> int \<Rightarrow> int option outcome) \<Rightarrow> string \<Rightarrow> bencode \<Rightarrow> next_item outcome" where
  "list_get_next_by iterate buf be =
     (let none = \<lambda>be. \<lparr>ni_ret = 0, ni_be = be, ni_item = None, ni_key = None, ni_klen = None\<rparr>
      in case be_str be of
        None \<Rightarrow> Some (Inr (none be))
      | Some sp \<Rightarrow> out_bind (Some (peek buf sp)) (\<lambda>c.
          if c = CHR ''e'' then Some (Inr (none be))
          else let sp = (if c = CHR ''l'' \<and> be_start be = sp then sp + 1 else sp)
          in out_bind (Some (peek buf sp)) (\<lambda>c.
            if c = CHR ''e'' then Some (Inr (none (be\<lparr>be_str := Some sp\<rparr>)))
            else out_bind (Some (carry_length be sp)) (\<lambda>l.
              out_bind (iterate be sp) (\<lambda>q.
                Some (Inr \<lparr>ni_ret = (if q = None then - 1 else 1), ni_be = be\<lparr>be_str := q\<rparr>,
                  ni_item = Some (bencode_init sp l), ni_key = None, ni_klen = None\<rparr>))))))"

text \<open>\<open>while (bencode_dict_has_next(&it))\<close>, and the same for lists, with any body.\<close>

definition dict_loop :: "string \<Rightarrow> (bencode \<Rightarrow> ('r + bencode) outcome) \<Rightarrow> bencode \<Rightarrow> ('r + bencode) outcome" where
  "dict_loop buf body = while_loop (\<lambda>it. res_bind (bencode_dict_has_next buf it) (\<lambda>go. Inr (go, it))) body"

definition list_loop :: "string \<Rightarrow> (bencode \<Rightarrow> ('r + bencode) outcome) \<Rightarrow> bencode \<Rightarrow> ('r + bencode) outcome" where
  "list_loop buf body = while_loop (bencode_list_has_next buf) body"

section \<open>Moving past a value\<close>

text \<open>The branches of \<open>__iterate_to_next_string_pos\<close> on the cursor \<open>iter\<close>; \<^term>\<open>None\<close> is null.\<close>

definition dict_end :: "(bencode \<Rightarrow> int \<Rightarrow> int option outcome) \<Rightarrow> string \<Rightarrow> bencode \<Rightarrow> int option outcome" where
  "dict_end iterate buf iter =
     out_bind (dict_loop buf (\<lambda>it. out_bind (dict_get_next_by iterate buf it) (\<lambda>x.
         Some (Inr (if ni_ret x = 0 then Inl () else Inr (ni_be x))))) iter)
       (\<lambda>y. case y of
          Inl _ \<Rightarrow> Some (Inr None)
        | Inr it \<Rightarrow> (case be_str it of
            None \<Rightarrow> Some (Inl NullPointer)
          | Some s \<Rightarrow> Some (res_bind (peek buf s) (\<lambda>c.
              res_bind (if c = CHR ''d'' then peek buf (s + 1) else Inr (CHR 0x00)) (\<lambda>c1.
                Inr (Some (if c = CHR ''d'' \<and> c1 = CHR ''e'' then s + 2 else s + 1)))))))"

definition list_end :: "(bencode \<Rightarrow> int \<Rightarrow> int option outcome) \<Rightarrow> string \<Rightarrow> bencode \<Rightarrow> int option outcome" where
  "list_end iterate buf iter =
     out_bind (list_loop buf (\<lambda>it. out_bind (list_get_next_by iterate buf it) (\<lambda>x.
         Some (Inr (if ni_ret x = - 1 then Inl () else Inr (ni_be x))))) iter)
       (\<lambda>y. case y of
          Inl _ \<Rightarrow> Some (Inr None)
        | Inr it \<Rightarrow> (case be_str it of None \<Rightarrow> Some (Inl NullPointer) | Some s \<Rightarrow> Some (Inr (Some (s + 1)))))"

definition string_end :: "string \<Rightarrow> bencode \<Rightarrow> fault + int option" where
  "string_end buf iter =
     res_bind (bencode_string_value buf iter) (\<lambda>(str, len).
       case str of None \<Rightarrow> Inr None | Some s \<Rightarrow> Inr (Some (s + len)))"

definition int_end :: "string \<Rightarrow> bencode \<Rightarrow> fault + int option" where
  "int_end buf iter =
     (case be_str iter of
        None \<Rightarrow> Inl NullPointer
      | Some s \<Rightarrow> res_bind (read_string_int buf (s + 1)) (\<lambda>r.
          case r of
            None \<Rightarrow> Inr None
          | Some (end, val) \<Rightarrow> res_bind (peek buf end) (\<lambda>c.
              if c = CHR ''e'' then Inr (Some (end + 1)) else Inl AssertFailed)))"

definition value_end :: "(bencode \<Rightarrow> int \<Rightarrow> int option outcome) \<Rightarrow> string \<Rightarrow> bencode \<Rightarrow> int option outcome" where
  "value_end iterate buf iter =
     out_bind (Some (bencode_is_dict buf iter)) (\<lambda>d.
       if d then dict_end iterate buf iter
       else out_bind (Some (bencode_is_list buf iter)) (\<lambda>l.
         if l then list_end iterate buf iter
         else out_bind (Some (bencode_is_string buf iter)) (\<lambda>s.
           if s then Some (string_end buf iter)
           else out_bind (Some (bencode_is_int buf iter)) (\<lambda>i.
             if i then Some (int_end buf iter) else Some (Inr None)))))"

text \<open>The recursion, for \<open>n\<close> levels of nesting; \<^term>\<open>None\<close> when they are not enough.\<close>

primrec iterate_fuel :: "nat \<Rightarrow> string \<Rightarrow> bencode \<Rightarrow> int \<Rightarrow> int option outcome" where
  "iterate_fuel 0 buf = (\<lambda>be sp. None)"
| "iterate_fuel (Suc n) buf = (\<lambda>be sp.
     out_bind (Some (carry_length be sp)) (\<lambda>l. value_end (iterate_fuel n buf) buf (bencode_init sp l)))"

text \<open>Every level is at a position of its own in the buffer, so there are not more levels than characters.\<close>

definition iterate_to_next :: "string \<Rightarrow> bencode \<Rightarrow> int \<Rightarrow> int option outcome" where
  "iterate_to_next buf = iterate_fuel (length buf + 1) buf"

definition bencode_dict_get_next :: "string \<Rightarrow> bencode \<Rightarrow> next_item outcome" where
  "bencode_dict_get_next buf = dict_get_next_by (iterate_to_next buf) buf"

definition bencode_list_get_next :: "string \<Rightarrow> bencode \<Rightarrow> next_item outcome" where
  "bencode_list_get_next buf = list_get_next_by (iterate_to_next buf) buf"

text \<open>Start and length of a dictionary. The return value of \<open>get_next\<close> is ignored.\<close>

definition bencode_dict_get_start_and_len :: "string \<Rightarrow> bencode \<Rightarrow> (int \<times> int) outcome" where
  "bencode_dict_get_start_and_len buf be =
     (case be_str (bencode_clone be) of
        None \<Rightarrow> Some (Inl NullPointer)
      | Some start \<Rightarrow>
          out_bind (dict_loop buf (\<lambda>it. out_bind (bencode_dict_get_next buf it) (\<lambda>x.
              Some (Inr (Inr (ni_be x) :: unit + bencode)))) (bencode_clone be))
            (\<lambda>y. case y of
               Inl _ \<Rightarrow> None
             | Inr ben \<Rightarrow> (case be_str ben of
                 None \<Rightarrow> Some (Inl NullPointer)
               | Some s \<Rightarrow> Some (Inr (start, int_cast (s - start + 1))))))"

section \<open>The validator\<close>

text \<open>The bodies of the loops of \<open>__validate\<close>, after \<open>get_next\<close>.\<close>

definition validate_item :: "(bencode \<Rightarrow> int outcome) \<Rightarrow> int \<Rightarrow> next_item \<Rightarrow> (int + bencode) outcome" where
  "validate_item validate failed x =
     (if ni_ret x = failed then Some (Inr (Inl (- 1)))
      else case ni_item x of
          None \<Rightarrow> Some (Inl Uninitialised)
        | Some it \<Rightarrow> out_bind (validate it) (\<lambda>r. Some (Inr (if r \<noteq> 0 then Inl r else Inr (ni_be x)))))"

definition validate_result :: "int + bencode \<Rightarrow> int" where
  "validate_result y = (case y of Inl r \<Rightarrow> r | Inr _ \<Rightarrow> 0)"

definition validate_by :: "(bencode \<Rightarrow> int outcome) \<Rightarrow> string \<Rightarrow> bencode \<Rightarrow> int outcome" where
  "validate_by validate buf ben =
     out_bind (Some (bencode_is_dict buf ben)) (\<lambda>d.
       if d then out_bind (dict_loop buf (\<lambda>it. out_bind (bencode_dict_get_next buf it) (validate_item validate 0)) ben)
         (\<lambda>y. Some (Inr (validate_result y)))
       else out_bind (Some (bencode_is_list buf ben)) (\<lambda>l.
         if l then out_bind (list_loop buf (\<lambda>it. out_bind (bencode_list_get_next buf it) (validate_item validate (- 1))) ben)
           (\<lambda>y. Some (Inr (validate_result y)))
         else out_bind (Some (bencode_is_string buf ben)) (\<lambda>s.
           if s then out_bind (Some (bencode_string_value buf ben)) (\<lambda>(str, len).
               Some (Inr (if str = None then - 1 else 0)))
           else out_bind (Some (bencode_is_int buf ben)) (\<lambda>i.
             if i then out_bind (Some (bencode_int_value buf ben)) (\<lambda>(ret, val).
                 Some (Inr (if ret = 0 then - 1 else 0)))
             else Some (Inr (- 1))))))"

primrec validate_fuel :: "nat \<Rightarrow> string \<Rightarrow> bencode \<Rightarrow> int outcome" where
  "validate_fuel 0 buf = (\<lambda>ben. None)"
| "validate_fuel (Suc n) buf = validate_by (validate_fuel n buf) buf"

definition validate_cursor :: "string \<Rightarrow> bencode \<Rightarrow> int outcome" where
  "validate_cursor buf = validate_fuel (length buf + 1) buf"

definition bencode_validate :: "string \<Rightarrow> int \<Rightarrow> int outcome" where
  "bencode_validate buf len =
     (if len = 0 then Some (Inr 0) else validate_cursor buf (bencode_init 0 len))"

section \<open>Progress\<close>

lemma peek_Inr: "peek buf p = Inr c \<longleftrightarrow> 0 \<le> p \<and> p < int (length buf) \<and> c = buf ! nat p"
  by (auto simp: peek_def)

lemma digits_loop_forward:
  "digits_loop cast buf sp acc = Inr (q, v) \<Longrightarrow> sp \<le> q"
proof (induction cast buf sp acc rule: digits_loop.induct)
  case (1 cast buf sp acc)
  show ?case
  proof (cases "peek buf sp")
    case (Inl e)
    then show ?thesis using "1.prems" by (simp add: digits_loop.simps [of _ _ sp])
  next
    case (Inr c)
    then show ?thesis
      using "1.prems" "1.IH" [OF Inr]
      by (cases "is_digit c") (simp_all add: digits_loop.simps [of _ _ sp])
  qed
qed

lemma digits_loop_first:
  assumes "peek buf sp = Inr c" "is_digit c" "digits_loop cast buf sp acc = Inr (q, v)"
  shows "sp < q"
  using assms by (auto simp: digits_loop.simps [of _ _ sp] dest!: digits_loop_forward)

lemma read_string_len_forward:
  assumes "read_string_len buf sp = Inr (Some (k, n))"
  shows "sp + 1 < k" "0 \<le> n" "0 \<le> sp"
  using assms
  by (auto simp: read_string_len_def res_bind_Inr peek_Inr split: if_splits dest!: digits_loop_first [rotated 2])

lemma read_string_int_forward:
  assumes "read_string_int buf sp = Inr (Some (k, n))"
  shows "sp < k" "0 \<le> sp"
proof -
  obtain c where c: "peek buf sp = Inr c" using assms by (auto simp: read_string_int_def res_bind_Inr)
  then show "0 \<le> sp" by (simp add: peek_Inr)
  let ?sp = "if c = CHR ''-'' then sp + 1 else sp"
  have "\<exists>d v. peek buf ?sp = Inr d \<and> is_digit d \<and> digits_loop long_cast buf ?sp 0 = Inr (k, v)"
    using assms c by (auto simp: read_string_int_def res_bind_Inr Let_def split: if_splits)
  then have "?sp < k" using digits_loop_first by blast
  then show "sp < k" by (simp split: if_splits)
qed

text \<open>A way to move past a value goes forward.\<close>

definition forward :: "(bencode \<Rightarrow> int \<Rightarrow> int option outcome) \<Rightarrow> bool" where
  "forward f \<longleftrightarrow> (\<forall>be sp q. f be sp = Some (Inr (Some q)) \<longrightarrow> sp < q)"

lemma dict_get_next_by_cases:
  assumes "dict_get_next_by f buf be = Some (Inr x)"
  obtains (none) s where "be_str be = Some s" "ni_ret x = 0" "ni_item x = None" "ni_be x = be"
  | (item) s c k n l q where "be_str be = Some s" "peek buf s = Inr c" "c \<noteq> CHR ''e''"
      "read_string_len buf (if c = CHR ''d'' then s + 1 else s) = Inr (Some (k, n))"
      "carry_length be (k + n) = Inr l" "f be (k + n) = Some (Inr q)"
      "x = \<lparr>ni_ret = (if q = None then 0 else 1), ni_be = be\<lparr>be_str := q\<rparr>,
        ni_item = Some (bencode_init (k + n) l),
        ni_key = (if q = None then None else Some k), ni_klen = Some n\<rparr>"
  using assms
  by (fastforce simp: dict_get_next_by_def Let_def out_bind_Inr split: option.splits if_splits)

lemma list_get_next_by_cases:
  assumes "list_get_next_by f buf be = Some (Inr x)"
  obtains (null) "be_str be = None" "ni_ret x = 0" "ni_item x = None" "ni_be x = be"
  | (none) s where "be_str be = Some s" "ni_ret x = 0" "ni_item x = None"
      "ni_be x = be\<lparr>be_str := Some s\<rparr> \<or> ni_be x = be\<lparr>be_str := Some (s + 1)\<rparr>"
  | (item) s c l q where "be_str be = Some s" "peek buf s = Inr c" "c \<noteq> CHR ''e''"
      "carry_length be (if c = CHR ''l'' \<and> be_start be = s then s + 1 else s) = Inr l"
      "f be (if c = CHR ''l'' \<and> be_start be = s then s + 1 else s) = Some (Inr q)"
      "x = \<lparr>ni_ret = (if q = None then - 1 else 1), ni_be = be\<lparr>be_str := q\<rparr>,
        ni_item = Some (bencode_init (if c = CHR ''l'' \<and> be_start be = s then s + 1 else s) l),
        ni_key = None, ni_klen = None\<rparr>"
proof (cases "be_str be")
  case None
  then show ?thesis using assms null by (auto simp: list_get_next_by_def Let_def)
next
  case (Some s)
  have same: "be\<lparr>be_str := Some s\<rparr> = be" using Some by (cases be) simp
  obtain c where c: "peek buf s = Inr c"
    using assms Some by (auto simp: list_get_next_by_def Let_def out_bind_Inr)
  show ?thesis
  proof (cases "c = CHR ''e''")
    case True
    then show ?thesis using assms Some c none same by (auto simp: list_get_next_by_def Let_def out_bind_Inr)
  next
    case False
    let ?sp = "if c = CHR ''l'' \<and> be_start be = s then s + 1 else s"
    obtain c1 where c1: "peek buf ?sp = Inr c1"
      using assms Some c False by (auto simp: list_get_next_by_def Let_def out_bind_Inr)
    show ?thesis
    proof (cases "c1 = CHR ''e''")
      case True
      then have "x = \<lparr>ni_ret = 0, ni_be = be\<lparr>be_str := Some ?sp\<rparr>, ni_item = None, ni_key = None, ni_klen = None\<rparr>"
        using assms Some c c1 False by (simp add: list_get_next_by_def Let_def)
      then show ?thesis using none [OF Some] by (simp split: if_splits)
    next
      case c1': False
      have "out_bind (Some (carry_length be ?sp)) (\<lambda>l. out_bind (f be ?sp) (\<lambda>q.
          Some (Inr \<lparr>ni_ret = (if q = None then - 1 else 1), ni_be = be\<lparr>be_str := q\<rparr>,
            ni_item = Some (bencode_init ?sp l), ni_key = None, ni_klen = None\<rparr>))) = Some (Inr x)"
        using assms Some c c1 False c1' by (simp add: list_get_next_by_def Let_def)
      then obtain l q where "carry_length be ?sp = Inr l" "f be ?sp = Some (Inr q)"
          "x = \<lparr>ni_ret = (if q = None then - 1 else 1), ni_be = be\<lparr>be_str := q\<rparr>,
            ni_item = Some (bencode_init ?sp l), ni_key = None, ni_klen = None\<rparr>"
        by (auto simp: out_bind_Inr)
      then show ?thesis using item [OF Some c False] by blast
    qed
  qed
qed

lemma string_value_cases:
  assumes "bencode_string_value buf be = Inr (r, n)"
  obtains s k where "be_str be = Some s" "read_string_len buf s = Inr (Some (k, n))" "0 < be_len be"
    "r = (if k + n > be_start be + be_len be then None else Some k)"
proof -
  obtain s where s: "be_str be = Some s"
    using assms by (auto simp: bencode_string_value_def bencode_is_string_def split: option.splits)
  then obtain y where y: "read_string_len buf s = Inr y"
    using assms by (auto simp: bencode_string_value_def res_bind_Inr split: if_splits)
  then obtain k m where km: "read_string_len buf s = Inr (Some (k, m))"
    using assms s by (cases y) (auto simp: bencode_string_value_def res_bind_Inr split: if_splits)
  then show ?thesis
    using assms s that [OF s] by (auto simp: bencode_string_value_def res_bind_Inr split: if_splits)
qed

lemma string_value_forward:
  assumes "bencode_string_value buf be = Inr (Some p, n)"
  obtains s where "be_str be = Some s" "s + 1 < p" "0 \<le> n"
  using assms(1) by (cases rule: string_value_cases) (use that in \<open>auto split: if_splits dest: read_string_len_forward\<close>)

section \<open>Iterators as an interface\<close>

text \<open>
  A cursor in a container that starts at \<open>be_start\<close>: it has become null, is past the start, or is
  still at the start, where the character must be one that \<open>opens\<close> allows.
\<close>

definition inside :: "(char \<Rightarrow> bool) \<Rightarrow> string \<Rightarrow> bencode \<Rightarrow> bool" where
  "inside opens buf it \<longleftrightarrow>
     (\<forall>t. be_str it = Some t \<longrightarrow> be_start it \<le> t \<and> (t = be_start it \<longrightarrow> (\<forall>c. peek buf t = Inr c \<longrightarrow> opens c)))"

abbreviation in_dict :: "string \<Rightarrow> bencode \<Rightarrow> bool" where
  "in_dict \<equiv> inside (\<lambda>c. True)"

abbreviation in_list :: "string \<Rightarrow> bencode \<Rightarrow> bool" where
  "in_list \<equiv> inside (\<lambda>c. c = CHR ''l'')"

lemma inside_init [simp]:
  "inside opens buf (bencode_init p l) \<longleftrightarrow> (\<forall>c. peek buf p = Inr c \<longrightarrow> opens c)"
  by (auto simp: inside_def)

definition extends :: "(bencode \<Rightarrow> int \<Rightarrow> 'a outcome) \<Rightarrow> (bencode \<Rightarrow> int \<Rightarrow> 'a outcome) \<Rightarrow> bool" where
  "extends f g \<longleftrightarrow> (\<forall>be sp r. f be sp = Some r \<longrightarrow> g be sp = Some r)"

text \<open>
  What the iterators over dictionaries and over lists have in common: when there is a next item,
  it starts behind the container's start, and the cursor moves behind it or becomes null.
\<close>

locale container_iterator =
  fixes opens :: "char \<Rightarrow> bool"
    and has_next :: "string \<Rightarrow> bencode \<Rightarrow> fault + (bool \<times> bencode)"
    and next_by :: "(bencode \<Rightarrow> int \<Rightarrow> int option outcome) \<Rightarrow> string \<Rightarrow> bencode \<Rightarrow> next_item outcome"
  assumes has_next_true: "has_next buf it = Inr (True, it1) \<Longrightarrow>
      it1 = it \<and> (\<exists>t. be_str it = Some t \<and> t < int (length buf))"
    and has_next_inside: "inside opens buf it \<Longrightarrow> has_next buf it = Inr (go, it1) \<Longrightarrow>
      inside opens buf it1 \<and> be_start it1 = be_start it"
    and next_item: "forward f \<Longrightarrow> inside opens buf it \<Longrightarrow> has_next buf it = Inr (True, it) \<Longrightarrow>
      next_by f buf it = Some (Inr x) \<Longrightarrow>
      \<exists>p l. ni_item x = Some (bencode_init p l) \<and> be_start it < p \<and> be_start (ni_be x) = be_start it \<and>
        be_len (ni_be x) = be_len it \<and>
        (\<forall>q. be_str (ni_be x) = Some q \<longrightarrow> p < q \<and> (\<exists>t. be_str it = Some t \<and> t < q))"
    and next_total: "inside opens buf it \<Longrightarrow> has_next buf it = Inr (True, it) \<Longrightarrow>
      (\<And>be p. be_start it < p \<Longrightarrow> f be p \<noteq> None) \<Longrightarrow> next_by f buf it \<noteq> None"
    and next_extends: "extends f g \<Longrightarrow> next_by f buf it = Some r \<Longrightarrow> next_by g buf it = Some r"
begin

lemma next_inside:
  assumes "forward f" "inside opens buf it" "has_next buf it = Inr (True, it)" "next_by f buf it = Some (Inr x)"
  shows "inside opens buf (ni_be x)"
  using next_item [OF assms] assms(2) by (force simp: inside_def)

text \<open>A loop over the items whose body goes on with the cursor \<open>get_next\<close> left behind.\<close>

lemma loop_total:
  assumes f: "forward f" and it: "inside opens buf it"
    and ft: "\<And>be p. be_start it < p \<Longrightarrow> f be p \<noteq> None"
    and gt: "\<And>x p l. ni_item x = Some (bencode_init p l) \<Longrightarrow> be_start it < p \<Longrightarrow> g x \<noteq> None"
    and gn: "\<And>x it2. g x = Some (Inr (Inr it2)) \<Longrightarrow> it2 = ni_be x"
  shows "while_loop (has_next buf) (\<lambda>it. out_bind (next_by f buf it) g) it \<noteq> None"
proof (rule while_loop_total [where I = "\<lambda>it'. inside opens buf it' \<and> be_start it' = be_start it"
      and m = "\<lambda>it. case be_str it of None \<Rightarrow> 0 | Some t \<Rightarrow> Suc (nat (int (length buf) - t))"])
  show "inside opens buf it \<and> be_start it = be_start it" using it by simp
  fix it' it1
  assume it': "inside opens buf it' \<and> be_start it' = be_start it" and "has_next buf it' = Inr (True, it1)"
  then have h: "has_next buf it' = Inr (True, it')" "it1 = it'"
    and t: "\<exists>t. be_str it' = Some t \<and> t < int (length buf)" using has_next_true by auto
  have ft': "f be p \<noteq> None" if "be_start it' < p" for be p using ft it' that by simp
  have nt: "next_by f buf it' \<noteq> None" by (rule next_total [OF conjunct1 [OF it'] h(1)]) (rule ft')
  show "out_bind (next_by f buf it1) g \<noteq> None"
  proof
    assume "out_bind (next_by f buf it1) g = None"
    then obtain x where x: "next_by f buf it' = Some (Inr x)" "g x = None"
      using nt h(2) by (auto simp: out_bind_None)
    obtain p l where "ni_item x = Some (bencode_init p l)" "be_start it < p"
      using next_item [OF f conjunct1 [OF it'] h(1) x(1)] it' by auto
    then show False using gt x(2) by blast
  qed
  fix it2
  assume "out_bind (next_by f buf it1) g = Some (Inr (Inr it2))"
  then obtain x where x: "next_by f buf it' = Some (Inr x)" "it2 = ni_be x"
    using h(2) gn by (auto simp: out_bind_Inr)
  show "(inside opens buf it2 \<and> be_start it2 = be_start it) \<and>
      (case be_str it2 of None \<Rightarrow> 0 | Some t \<Rightarrow> Suc (nat (int (length buf) - t))) <
      (case be_str it' of None \<Rightarrow> 0 | Some t \<Rightarrow> Suc (nat (int (length buf) - t)))"
    using next_item [OF f conjunct1 [OF it'] h(1) x(1)] next_inside [OF f conjunct1 [OF it'] h(1) x(1)] it' t x(2)
    by (auto split: option.split)
qed

lemma loop_extends:
  assumes "extends f f'" "\<And>x r. g x = Some r \<Longrightarrow> g' x = Some r"
    and "while_loop (has_next buf) (\<lambda>it. out_bind (next_by f buf it) g) it = Some r"
  shows "while_loop (has_next buf) (\<lambda>it. out_bind (next_by f' buf it) g') it = Some r"
  using assms(3)
proof (rule while_loop_mono)
  fix it r
  assume "out_bind (next_by f buf it) g = Some r"
  then show "out_bind (next_by f' buf it) g' = Some r"
    using next_extends [OF assms(1)] assms(2) by (fastforce simp: out_bind_Some)
qed

lemma loop_inside:
  assumes f: "forward f" and it: "inside opens buf it"
    and gn: "\<And>x it2. g x = Some (Inr (Inr it2)) \<Longrightarrow> it2 = ni_be x"
    and y: "while_loop (has_next buf) (\<lambda>it. out_bind (next_by f buf it) g) it = Some (Inr (Inr it1))"
  shows "inside opens buf it1 \<and> be_start it1 = be_start it"
proof (rule while_loop_end [OF y, where I = "\<lambda>it'. inside opens buf it' \<and> be_start it' = be_start it"])
  show "inside opens buf it \<and> be_start it = be_start it" using it by simp
  fix it' it1
  assume it': "inside opens buf it' \<and> be_start it' = be_start it"
  show "inside opens buf it1 \<and> be_start it1 = be_start it" if "has_next buf it' = Inr (False, it1)"
    using has_next_inside [OF conjunct1 [OF it'] that] it' by simp
  show "inside opens buf it2 \<and> be_start it2 = be_start it"
    if h: "has_next buf it' = Inr (True, it1)" and o: "out_bind (next_by f buf it1) g = Some (Inr (Inr it2))" for it2
  proof -
    have h: "has_next buf it' = Inr (True, it')" "it1 = it'" using has_next_true h by auto
    obtain x where x: "next_by f buf it' = Some (Inr x)" "it2 = ni_be x"
      using o h(2) gn by (auto simp: out_bind_Inr)
    show ?thesis
      using next_item [OF f conjunct1 [OF it'] h(1) x(1)] next_inside [OF f conjunct1 [OF it'] h(1) x(1)] it' x(2)
      by auto
  qed
qed

end


lemma dict_cond:
  "res_bind (bencode_dict_has_next buf it) (\<lambda>go. Inr (go, it)) = Inr (go, it1) \<longleftrightarrow>
   bencode_dict_has_next buf it = Inr go \<and> it1 = it"
  by (auto simp: res_bind_Inr)

lemma dict_has_next_cases:
  assumes "bencode_dict_has_next buf it = Inr True"
  obtains t c where "be_str it = Some t" "peek buf t = Inr c" "c \<noteq> CHR ''e''"
    "c = CHR ''d'' \<longrightarrow> (\<exists>c1. peek buf (t + 1) = Inr c1 \<and> c1 \<noteq> CHR ''e'')"
  using assms by (fastforce simp: bencode_dict_has_next_def res_bind_Inr split: option.splits if_splits)

lemma list_has_next_cases:
  assumes "bencode_list_has_next buf it = Inr (True, it1)"
  obtains t c where "it1 = it" "be_str it = Some t" "peek buf t = Inr c" "c \<noteq> CHR ''e''"
    "c = CHR ''l'' \<and> be_start it = t \<longrightarrow> (\<exists>c1. peek buf (t + 1) = Inr c1 \<and> c1 \<noteq> CHR ''e'')"
  using assms by (fastforce simp: bencode_list_has_next_def res_bind_Inr split: option.splits if_splits)

text \<open>After \<open>has_next\<close>, a dictionary's \<open>get_next\<close> gives an item, or faults.\<close>

lemma dict_next_item:
  assumes "bencode_dict_has_next buf it = Inr True" "dict_get_next_by f buf it = Some (Inr x)"
  obtains s c k n l q where "be_str it = Some s" "peek buf s = Inr c"
      "read_string_len buf (if c = CHR ''d'' then s + 1 else s) = Inr (Some (k, n))"
      "carry_length it (k + n) = Inr l" "f it (k + n) = Some (Inr q)"
      "x = \<lparr>ni_ret = (if q = None then 0 else 1), ni_be = it\<lparr>be_str := q\<rparr>,
        ni_item = Some (bencode_init (k + n) l),
        ni_key = (if q = None then None else Some k), ni_klen = Some n\<rparr>"
proof -
  obtain t c where t: "be_str it = Some t" "peek buf t = Inr c" "c \<noteq> CHR ''e''"
    "c = CHR ''d'' \<longrightarrow> (\<exists>c1. peek buf (t + 1) = Inr c1 \<and> c1 \<noteq> CHR ''e'')"
    using assms(1) by (rule dict_has_next_cases)
  then have "ni_item x \<noteq> None"
    using assms(2) by (auto simp: dict_get_next_by_def Let_def out_bind_Inr split: option.splits if_splits)
  with assms(2) show ?thesis by (cases rule: dict_get_next_by_cases) (auto intro: that)
qed

lemma list_next_item:
  assumes "bencode_list_has_next buf it = Inr (True, it)" "list_get_next_by f buf it = Some (Inr x)"
  obtains s c p l q where "be_str it = Some s" "peek buf s = Inr c"
      "p = (if c = CHR ''l'' \<and> be_start it = s then s + 1 else s)"
      "carry_length it p = Inr l" "f it p = Some (Inr q)"
      "x = \<lparr>ni_ret = (if q = None then - 1 else 1), ni_be = it\<lparr>be_str := q\<rparr>,
        ni_item = Some (bencode_init p l), ni_key = None, ni_klen = None\<rparr>"
proof -
  obtain t c where t: "be_str it = Some t" "peek buf t = Inr c" "c \<noteq> CHR ''e''"
    "c = CHR ''l'' \<and> be_start it = t \<longrightarrow> (\<exists>c1. peek buf (t + 1) = Inr c1 \<and> c1 \<noteq> CHR ''e'')"
    using assms(1) by (rule list_has_next_cases)
  then have "ni_item x \<noteq> None"
    using assms(2) by (auto simp: list_get_next_by_def Let_def out_bind_Inr split: option.splits if_splits)
  with assms(2) show ?thesis by (cases rule: list_get_next_by_cases) (auto intro: that)
qed

text \<open>Where the functions call the one they are given: at the end, and once.\<close>

lemma dict_next_split:
  obtains (fixed) r where "\<And>f. dict_get_next_by f buf be = Some r"
  | (item) s c k n l where "be_str be = Some s" "peek buf s = Inr c"
      "read_string_len buf (if c = CHR ''d'' then s + 1 else s) = Inr (Some (k, n))"
      "\<And>f. dict_get_next_by f buf be = out_bind (f be (k + n)) (\<lambda>q.
        Some (Inr \<lparr>ni_ret = (if q = None then 0 else 1), ni_be = be\<lparr>be_str := q\<rparr>,
          ni_item = Some (bencode_init (k + n) l),
          ni_key = (if q = None then None else Some k), ni_klen = Some n\<rparr>))"
proof (cases "be_str be")
  case None
  then show ?thesis using fixed by (simp add: dict_get_next_by_def)
next
  case (Some s)
  show ?thesis
  proof (cases "peek buf s")
    case (Inl e)
    then show ?thesis using fixed Some by (simp add: dict_get_next_by_def)
  next
    case c: (Inr c)
    define sp where "sp = (if c = CHR ''d'' then s + 1 else s)"
    note eqs = dict_get_next_by_def Let_def Some c sp_def [symmetric]
    consider "c = CHR ''e''" | e where "c \<noteq> CHR ''e''" "peek buf sp = Inl e"
      | "c \<noteq> CHR ''e''" "peek buf sp = Inr (CHR ''e'')"
      | c1 where "peek buf sp = Inr c1" "c \<noteq> CHR ''e''" "c1 \<noteq> CHR ''e''"
      by (cases "peek buf sp") auto
    then show ?thesis
    proof cases
      case (4 c1)
      note c1 = this
      consider (bad) e where "read_string_len buf sp = Inl e" | (null) "read_string_len buf sp = Inr None"
        | (len) k n where "read_string_len buf sp = Inr (Some (k, n))"
        by (metis not_None_eq obj_sumE surj_pair)
      then show ?thesis
      proof cases
        case (bad e)
        then show ?thesis using fixed c1 by (simp add: eqs)
      next
        case null
        then show ?thesis using fixed c1 by (simp add: eqs)
      next
        case (len k n)
        show ?thesis
        proof (cases "carry_length be (k + n)")
          case (Inl e)
          then show ?thesis using fixed c1 len Inl by (simp add: eqs)
        next
          case (Inr l)
          then show ?thesis
            using item [OF Some c len [unfolded sp_def], of l] c1 len by (simp add: eqs)
        qed
      qed
    qed (use fixed in \<open>simp_all add: eqs\<close>)
  qed
qed

lemma list_next_split:
  obtains (fixed) r where "\<And>f. list_get_next_by f buf be = Some r"
  | (item) s c p l where "be_str be = Some s" "peek buf s = Inr c"
      "p = (if c = CHR ''l'' \<and> be_start be = s then s + 1 else s)"
      "\<And>f. list_get_next_by f buf be = out_bind (f be p) (\<lambda>q.
        Some (Inr \<lparr>ni_ret = (if q = None then - 1 else 1), ni_be = be\<lparr>be_str := q\<rparr>,
          ni_item = Some (bencode_init p l), ni_key = None, ni_klen = None\<rparr>))"
proof (cases "be_str be")
  case None
  then show ?thesis using fixed by (simp add: list_get_next_by_def)
next
  case (Some s)
  show ?thesis
  proof (cases "peek buf s")
    case (Inl e)
    then show ?thesis using fixed Some by (simp add: list_get_next_by_def)
  next
    case c: (Inr c)
    define sp where "sp = (if c = CHR ''l'' \<and> be_start be = s then s + 1 else s)"
    note eqs = list_get_next_by_def Let_def Some c sp_def [symmetric]
    consider "c = CHR ''e''" | e where "c \<noteq> CHR ''e''" "peek buf sp = Inl e"
      | "c \<noteq> CHR ''e''" "peek buf sp = Inr (CHR ''e'')"
      | c1 where "peek buf sp = Inr c1" "c \<noteq> CHR ''e''" "c1 \<noteq> CHR ''e''"
      by (cases "peek buf sp") auto
    then show ?thesis
    proof cases
      case (4 c1)
      note c1 = this
      show ?thesis
      proof (cases "carry_length be sp")
        case (Inl e)
        then show ?thesis using fixed c1 by (simp add: eqs)
      next
        case (Inr l)
        then show ?thesis
          using item [OF Some c sp_def, of l] c1 by (simp add: eqs)
      qed
    qed (use fixed in \<open>simp_all add: eqs\<close>)
  qed
qed

lemma dict_get_next_by_total:
  assumes "be_str be = Some s" "\<And>b p. s < p \<Longrightarrow> f b p \<noteq> None"
  shows "dict_get_next_by f buf be \<noteq> None"
proof (cases rule: dict_next_split [of buf be])
  case (fixed r)
  then show ?thesis by simp
next
  case (item s' c k n l)
  then have "s < k + n"
    using assms(1) read_string_len_forward [OF item(3)] by (simp split: if_splits)
  then show ?thesis using assms(2) item(4) by (simp add: out_bind_None)
qed

interpretation dict_it: container_iterator "\<lambda>c. True"
  "\<lambda>buf it. res_bind (bencode_dict_has_next buf it) (\<lambda>go. Inr (go, it))" dict_get_next_by
proof unfold_locales
  show "it1 = it \<and> (\<exists>t. be_str it = Some t \<and> t < int (length buf))"
    if "res_bind (bencode_dict_has_next buf it) (\<lambda>go. Inr (go, it)) = Inr (True, it1)" for buf it it1
    using that by (auto simp: dict_cond peek_Inr elim!: dict_has_next_cases)
  show "in_dict buf it1 \<and> be_start it1 = be_start it"
    if "in_dict buf it" "res_bind (bencode_dict_has_next buf it) (\<lambda>go. Inr (go, it)) = Inr (go, it1)"
    for buf it go it1
    using that by (simp add: dict_cond)
  show "\<exists>p l. ni_item x = Some (bencode_init p l) \<and> be_start it < p \<and> be_start (ni_be x) = be_start it \<and>
      be_len (ni_be x) = be_len it \<and>
      (\<forall>q. be_str (ni_be x) = Some q \<longrightarrow> p < q \<and> (\<exists>t. be_str it = Some t \<and> t < q))"
    if f: "forward f" "in_dict buf it"
      "res_bind (bencode_dict_has_next buf it) (\<lambda>go. Inr (go, it)) = Inr (True, it)"
      "dict_get_next_by f buf it = Some (Inr x)" for f buf it x
  proof -
    have "bencode_dict_has_next buf it = Inr True" using f(3) by (simp add: dict_cond)
    then obtain s c k n l q where x: "be_str it = Some s"
      "read_string_len buf (if c = CHR ''d'' then s + 1 else s) = Inr (Some (k, n))"
      "f it (k + n) = Some (Inr q)" "ni_be x = it\<lparr>be_str := q\<rparr>" "ni_item x = Some (bencode_init (k + n) l)"
      using f(4) by (rule dict_next_item) auto
    moreover have "be_start it \<le> s" using f(2) x(1) by (simp add: inside_def)
    moreover have "s < k + n" using read_string_len_forward [OF x(2)] by (simp split: if_splits)
    moreover have "k + n < q'" if "q = Some q'" for q' using f(1) x(3) that by (auto simp: forward_def)
    ultimately show ?thesis by (intro exI [of _ "k + n"] exI [of _ l]) fastforce
  qed
  show "dict_get_next_by f buf it \<noteq> None"
    if it: "in_dict buf it" "res_bind (bencode_dict_has_next buf it) (\<lambda>go. Inr (go, it)) = Inr (True, it)"
      "\<And>be p. be_start it < p \<Longrightarrow> f be p \<noteq> None" for buf it f
  proof -
    obtain s where s: "be_str it = Some s" using it(2) by (auto simp: dict_cond elim: dict_has_next_cases)
    then have "be_start it \<le> s" using it(1) by (simp add: inside_def)
    then show ?thesis using dict_get_next_by_total [OF s] it(3) by simp
  qed
  show "dict_get_next_by g buf it = Some r" if "extends f g" "dict_get_next_by f buf it = Some r" for f g buf it r
    using that by (cases rule: dict_next_split [of buf it]) (auto simp: out_bind_Some extends_def)
qed

lemma list_item_pos:
  assumes "in_list buf it" "be_str it = Some s" "peek buf s = Inr c"
    and "p = (if c = CHR ''l'' \<and> be_start it = s then s + 1 else s)"
  shows "be_start it < p"
  using assms by (cases "s = be_start it") (auto simp: inside_def)

interpretation list_it: container_iterator "\<lambda>c. c = CHR ''l''" bencode_list_has_next list_get_next_by
proof unfold_locales
  show "it1 = it \<and> (\<exists>t. be_str it = Some t \<and> t < int (length buf))"
    if "bencode_list_has_next buf it = Inr (True, it1)" for buf it it1
    using that by (auto simp: peek_Inr elim!: list_has_next_cases)
  show "in_list buf it1 \<and> be_start it1 = be_start it"
    if "in_list buf it" "bencode_list_has_next buf it = Inr (go, it1)" for buf it go it1
    using that by (auto simp: bencode_list_has_next_def inside_def res_bind_Inr split: option.splits if_splits)
  show "\<exists>p l. ni_item x = Some (bencode_init p l) \<and> be_start it < p \<and> be_start (ni_be x) = be_start it \<and>
      be_len (ni_be x) = be_len it \<and>
      (\<forall>q. be_str (ni_be x) = Some q \<longrightarrow> p < q \<and> (\<exists>t. be_str it = Some t \<and> t < q))"
    if f: "forward f" "in_list buf it" "bencode_list_has_next buf it = Inr (True, it)"
      "list_get_next_by f buf it = Some (Inr x)" for f buf it x
  proof -
    obtain s c p l q where x: "be_str it = Some s" "peek buf s = Inr c"
      "p = (if c = CHR ''l'' \<and> be_start it = s then s + 1 else s)"
      "f it p = Some (Inr q)" "ni_be x = it\<lparr>be_str := q\<rparr>" "ni_item x = Some (bencode_init p l)"
      using f(3,4) by (rule list_next_item) auto
    moreover have "be_start it < p" using list_item_pos [OF f(2) x(1-3)] .
    moreover have "s \<le> p" using x(3) by (simp split: if_splits)
    moreover have "p < q'" if "q = Some q'" for q' using f(1) x(4) that by (auto simp: forward_def)
    ultimately show ?thesis by (intro exI [of _ p] exI [of _ l]) fastforce
  qed
  show "list_get_next_by f buf it \<noteq> None"
    if it: "in_list buf it" "bencode_list_has_next buf it = Inr (True, it)"
      "\<And>be p. be_start it < p \<Longrightarrow> f be p \<noteq> None" for buf it f
  proof (cases rule: list_next_split [of buf it])
    case (item s c p l)
    then show ?thesis using list_item_pos [OF it(1) item(1-3)] it(3) by (simp add: out_bind_None)
  qed simp
  show "list_get_next_by g buf it = Some r" if "extends f g" "list_get_next_by f buf it = Some r" for f g buf it r
    using that by (cases rule: list_next_split [of buf it]) (auto simp: out_bind_Some extends_def)
qed

section \<open>Every value has an end\<close>

lemma starts_withD:
  assumes "starts_with buf (bencode_init s l) c = Inr True"
  shows "inside (\<lambda>x. x = c) buf (bencode_init s l)"
  using assms by (auto simp: starts_with_def res_bind_Inr peek_Inr)

text \<open>What moves past a value is called only for dictionaries and lists.\<close>

lemma value_end_split:
  obtains (fixed) r where "\<And>f. value_end f buf it = Some r"
      "\<And>q. r = Inr (Some q) \<Longrightarrow> string_end buf it = Inr (Some q) \<or> int_end buf it = Inr (Some q)"
  | (dict) "bencode_is_dict buf it = Inr True" "\<And>f. value_end f buf it = dict_end f buf it"
  | (list) "bencode_is_list buf it = Inr True" "\<And>f. value_end f buf it = list_end f buf it"
proof -
  consider e where "bencode_is_dict buf it = Inl e" | "bencode_is_dict buf it = Inr True"
    | e where "bencode_is_dict buf it = Inr False" "bencode_is_list buf it = Inl e"
    | "bencode_is_dict buf it = Inr False" "bencode_is_list buf it = Inr True"
    | "bencode_is_dict buf it = Inr False" "bencode_is_list buf it = Inr False"
    by (metis obj_sumE)
  then show ?thesis
  proof cases
    case 1
    then show ?thesis using fixed by (simp add: value_end_def)
  next
    case 2
    then show ?thesis using dict by (simp add: value_end_def)
  next
    case 3
    then show ?thesis using fixed by (simp add: value_end_def)
  next
    case 4
    then show ?thesis using list by (simp add: value_end_def)
  next
    case 5
    note eqs = value_end_def 5
    consider e where "bencode_is_string buf it = Inl e" | "bencode_is_string buf it = Inr True"
      | e where "bencode_is_string buf it = Inr False" "bencode_is_int buf it = Inl e"
      | "bencode_is_string buf it = Inr False" "bencode_is_int buf it = Inr True"
      | "bencode_is_string buf it = Inr False" "bencode_is_int buf it = Inr False"
      by (metis obj_sumE)
    then show ?thesis by cases (use fixed in \<open>simp_all add: eqs\<close>)
  qed
qed

lemma value_end_forward:
  assumes "forward f" "value_end f buf (bencode_init s l) = Some (Inr (Some q))"
  shows "s < q"
proof -
  let ?it = "bencode_init s l"
  have d: "s < q" if kd: "bencode_is_dict buf ?it = Inr True" "dict_end f buf ?it = Some (Inr (Some q))"
  proof -
    obtain y where y: "dict_loop buf (\<lambda>it. out_bind (dict_get_next_by f buf it) (\<lambda>x.
        Some (Inr (if ni_ret x = 0 then Inl () else Inr (ni_be x))))) ?it = Some (Inr y)"
      using kd(2) by (auto simp: dict_end_def out_bind_Inr)
    then obtain it t where it: "y = Inr it" "be_str it = Some t" "t < q"
      using kd(2) by (auto simp: dict_end_def res_bind_Inr split: sum.splits option.splits if_splits)
    have "in_dict buf it \<and> be_start it = be_start ?it"
      using kd(1) y unfolding dict_loop_def it(1)
      by (intro dict_it.loop_inside [OF assms(1)]) (auto simp: bencode_is_dict_def split: if_splits)
    then show ?thesis using it by (auto simp: inside_def)
  qed
  have l: "s < q" if kd: "bencode_is_list buf ?it = Inr True" "list_end f buf ?it = Some (Inr (Some q))"
  proof -
    obtain y where y: "list_loop buf (\<lambda>it. out_bind (list_get_next_by f buf it) (\<lambda>x.
        Some (Inr (if ni_ret x = - 1 then Inl () else Inr (ni_be x))))) ?it = Some (Inr y)"
      using kd(2) by (auto simp: list_end_def out_bind_Inr)
    then obtain it t where it: "y = Inr it" "be_str it = Some t" "t < q"
      using kd(2) by (auto simp: list_end_def split: sum.splits option.splits if_splits)
    have "in_list buf it \<and> be_start it = be_start ?it"
      using kd(1) y unfolding list_loop_def it(1)
      by (intro list_it.loop_inside [OF assms(1) starts_withD]) (auto simp: bencode_is_list_def split: if_splits)
    then show ?thesis using it by (auto simp: inside_def)
  qed
  have st: "s < q" if "string_end buf ?it = Inr (Some q)"
    using that by (auto simp: string_end_def res_bind_Inr split: option.splits elim!: string_value_forward)
  have i: "s < q" if "int_end buf ?it = Inr (Some q)"
    using that by (auto simp: int_end_def res_bind_Inr split: option.splits if_splits
        dest!: read_string_int_forward(1))
  show ?thesis using assms(2) d l st i by (cases rule: value_end_split [of buf ?it]) auto
qed

lemma value_end_extends:
  assumes "extends f g" "value_end f buf it = Some r"
  shows "value_end g buf it = Some r"
proof -
  have d: "dict_end g buf it = Some r" if "dict_end f buf it = Some r" for r
    using that dict_it.loop_extends [OF assms(1)]
    unfolding dict_end_def dict_loop_def out_bind_Some by blast
  have l: "list_end g buf it = Some r" if "list_end f buf it = Some r" for r
    using that list_it.loop_extends [OF assms(1)]
    unfolding list_end_def list_loop_def out_bind_Some by blast
  show ?thesis using assms(2) d l by (cases rule: value_end_split [of buf it]) auto
qed

lemma value_end_total:
  assumes "forward f" "\<And>be p. 0 \<le> s \<Longrightarrow> s < int (length buf) \<Longrightarrow> s < p \<Longrightarrow> f be p \<noteq> None"
  shows "value_end f buf (bencode_init s l) \<noteq> None"
proof -
  let ?it = "bencode_init s l"
  have d: "dict_end f buf ?it \<noteq> None" if "bencode_is_dict buf ?it = Inr True"
  proof -
    have "0 \<le> s" "s < int (length buf)"
      using that by (simp_all add: bencode_is_dict_def starts_with_def res_bind_Inr peek_Inr)
    then have "dict_loop buf (\<lambda>it. out_bind (dict_get_next_by f buf it) (\<lambda>x.
        Some (Inr (if ni_ret x = 0 then Inl () else Inr (ni_be x))))) ?it \<noteq> None"
      unfolding dict_loop_def
      using that by (intro dict_it.loop_total [OF assms(1)] assms(2))
        (auto simp: bencode_is_dict_def split: if_splits)
    then show ?thesis unfolding dict_end_def by (auto simp: out_bind_None split: sum.splits option.splits)
  qed
  have li: "list_end f buf ?it \<noteq> None" if "bencode_is_list buf ?it = Inr True"
  proof -
    have "0 \<le> s" "s < int (length buf)"
      using that by (simp_all add: bencode_is_list_def starts_with_def res_bind_Inr peek_Inr)
    then have "list_loop buf (\<lambda>it. out_bind (list_get_next_by f buf it) (\<lambda>x.
        Some (Inr (if ni_ret x = - 1 then Inl () else Inr (ni_be x))))) ?it \<noteq> None"
      unfolding list_loop_def
      using that by (intro list_it.loop_total [OF assms(1) starts_withD] assms(2))
        (auto simp: bencode_is_list_def split: if_splits)
    then show ?thesis unfolding list_end_def by (auto simp: out_bind_None split: sum.splits option.splits)
  qed
  show ?thesis using d li by (cases rule: value_end_split [of buf ?it]) auto
qed

lemma iterate_fuel_forward: "forward (iterate_fuel n buf)"
proof (induction n)
  case 0
  then show ?case by (simp add: forward_def)
next
  case (Suc n)
  then show ?case
    unfolding forward_def by (auto simp: out_bind_Inr dest!: value_end_forward [OF Suc.IH])
qed

text \<open>The fuel that is left bounds the nesting that can still be met.\<close>

lemma iterate_fuel_total:
  "0 < n \<Longrightarrow> (0 \<le> sp \<Longrightarrow> int (length buf) - sp < int n) \<Longrightarrow> iterate_fuel n buf be sp \<noteq> None"
proof (induction n arbitrary: be sp)
  case 0
  then show ?case by simp
next
  case (Suc n)
  have "value_end (iterate_fuel n buf) buf (bencode_init sp l) \<noteq> None" for l
  proof (rule value_end_total [OF iterate_fuel_forward])
    fix be p
    assume sp: "0 \<le> sp" "sp < int (length buf)" "sp < p"
    then show "iterate_fuel n buf be p \<noteq> None" using Suc.prems by (intro Suc.IH) linarith+
  qed
  then show ?case by (simp add: out_bind_None)
qed

lemma iterate_fuel_Suc: "extends (iterate_fuel n buf) (iterate_fuel (Suc n) buf)"
proof (induction n)
  case 0
  then show ?case by (simp add: extends_def)
next
  case (Suc n)
  then show ?case
    unfolding extends_def [of "iterate_fuel (Suc n) buf"]
    by (auto simp: out_bind_Some dest: value_end_extends)
qed

lemma iterate_to_next_forward: "forward (iterate_to_next buf)"
  unfolding iterate_to_next_def by (rule iterate_fuel_forward)

lemma iterate_to_next_total: "iterate_to_next buf be sp \<noteq> None"
  unfolding iterate_to_next_def by (rule iterate_fuel_total) auto

text \<open>So the function satisfies its equation in the code, without fuel.\<close>

lemma iterate_to_next_eq:
  "iterate_to_next buf be sp =
     out_bind (Some (carry_length be sp)) (\<lambda>l. value_end (iterate_to_next buf) buf (bencode_init sp l))"
proof -
  obtain r where r: "iterate_to_next buf be sp = Some r" using iterate_to_next_total by fastforce
  then have "iterate_fuel (Suc (length buf + 1)) buf be sp = Some r"
    using iterate_fuel_Suc unfolding iterate_to_next_def extends_def by blast
  then have "out_bind (Some (carry_length be sp)) (\<lambda>l. value_end (iterate_to_next buf) buf (bencode_init sp l)) = Some r"
    unfolding iterate_to_next_def by simp
  then show ?thesis using r by simp
qed

section \<open>The validator returns\<close>

lemma validate_item_next:
  "validate_item validate failed x = Some (Inr (Inr it2)) \<Longrightarrow> it2 = ni_be x"
  by (auto simp: validate_item_def out_bind_Inr split: if_splits option.splits)

lemma validate_split:
  obtains (fixed) r where "\<And>v. validate_by v buf it = Some r"
  | (dict) "bencode_is_dict buf it = Inr True"
      "\<And>v. validate_by v buf it =
        out_bind (dict_loop buf (\<lambda>it. out_bind (bencode_dict_get_next buf it) (validate_item v 0)) it)
          (\<lambda>y. Some (Inr (validate_result y)))"
  | (list) "bencode_is_list buf it = Inr True"
      "\<And>v. validate_by v buf it =
        out_bind (list_loop buf (\<lambda>it. out_bind (bencode_list_get_next buf it) (validate_item v (- 1))) it)
          (\<lambda>y. Some (Inr (validate_result y)))"
proof -
  note eqs = validate_by_def
  consider e where "bencode_is_dict buf it = Inl e" | "bencode_is_dict buf it = Inr True"
    | e where "bencode_is_dict buf it = Inr False" "bencode_is_list buf it = Inl e"
    | "bencode_is_dict buf it = Inr False" "bencode_is_list buf it = Inr True"
    | "bencode_is_dict buf it = Inr False" "bencode_is_list buf it = Inr False"
    by (metis obj_sumE)
  then show ?thesis
  proof cases
    case 5
    note eqs = validate_by_def 5
    consider e where "bencode_is_string buf it = Inl e"
      | e where "bencode_is_string buf it = Inr True" "bencode_string_value buf it = Inl e"
      | x where "bencode_is_string buf it = Inr True" "bencode_string_value buf it = Inr x"
      | e where "bencode_is_string buf it = Inr False" "bencode_is_int buf it = Inl e"
      | e where "bencode_is_string buf it = Inr False" "bencode_is_int buf it = Inr True" "bencode_int_value buf it = Inl e"
      | x where "bencode_is_string buf it = Inr False" "bencode_is_int buf it = Inr True" "bencode_int_value buf it = Inr x"
      | "bencode_is_string buf it = Inr False" "bencode_is_int buf it = Inr False"
      by (metis obj_sumE)
    then show ?thesis by cases (use fixed in \<open>simp_all add: eqs split_beta\<close>)
  qed (use fixed dict list in \<open>simp_all add: eqs\<close>)
qed

lemma validate_by_total:
  assumes "\<And>p l. 0 \<le> s \<Longrightarrow> s < int (length buf) \<Longrightarrow> s < p \<Longrightarrow> v (bencode_init p l) \<noteq> None"
  shows "validate_by v buf (bencode_init s l) \<noteq> None"
proof -
  have g: "validate_item v failed x \<noteq> None"
    if i: "0 \<le> s" "s < int (length buf)" "ni_item x = Some (bencode_init p l)" "s < p" for failed x p l
  proof -
    obtain y where "v (bencode_init p l) = Some y" using assms [OF i(1,2,4)] by fastforce
    then show ?thesis using i(3) by (cases y) (simp_all add: validate_item_def)
  qed
  let ?it = "bencode_init s l"
  show ?thesis
  proof (cases rule: validate_split [of buf ?it])
    case dict
    then have "0 \<le> s" "s < int (length buf)"
      by (auto simp: bencode_is_dict_def starts_with_def res_bind_Inr peek_Inr)
    then have "dict_loop buf (\<lambda>it. out_bind (bencode_dict_get_next buf it) (validate_item v 0)) ?it \<noteq> None"
      unfolding dict_loop_def bencode_dict_get_next_def using dict(1) g
      by (intro dict_it.loop_total [OF iterate_to_next_forward])
        (simp_all add: bencode_is_dict_def iterate_to_next_total validate_item_next)
    then show ?thesis by (simp add: dict(2) out_bind_None)
  next
    case list
    then have "0 \<le> s" "s < int (length buf)"
      by (auto simp: bencode_is_list_def starts_with_def res_bind_Inr peek_Inr)
    then have "list_loop buf (\<lambda>it. out_bind (bencode_list_get_next buf it) (validate_item v (- 1))) ?it \<noteq> None"
      unfolding list_loop_def bencode_list_get_next_def using list(1) g
      by (intro list_it.loop_total [OF iterate_to_next_forward starts_withD])
        (simp_all add: bencode_is_list_def iterate_to_next_total validate_item_next)
    then show ?thesis by (simp add: list(2) out_bind_None)
  qed simp
qed

lemma validate_by_extends:
  assumes "\<And>b r. v b = Some r \<Longrightarrow> v' b = Some r" "validate_by v buf it = Some r"
  shows "validate_by v' buf it = Some r"
proof -
  have same: "extends (iterate_to_next buf) (iterate_to_next buf)" by (simp add: extends_def)
  have g: "validate_item v failed x = Some r \<Longrightarrow> validate_item v' failed x = Some r" for failed x r
  proof -
    assume a: "validate_item v failed x = Some r"
    show "validate_item v' failed x = Some r"
    proof (cases "ni_ret x = failed \<or> ni_item x = None")
      case True
      then show ?thesis using a by (auto simp: validate_item_def)
    next
      case False
      then obtain i where i: "ni_item x = Some i" by auto
      then obtain y where y: "v i = Some y" using a False by (cases "v i") (auto simp: validate_item_def)
      have "v' i = Some y" using y by (rule assms(1))
      then show ?thesis using a i y False by (simp add: validate_item_def)
    qed
  qed
  show ?thesis
  proof (cases rule: validate_split [of buf it])
    case fixed
    then show ?thesis using assms(2) by simp
  next
    case dict
    then show ?thesis
      using assms(2) dict_it.loop_extends [where g = "validate_item v (0)" and g' = "validate_item v' (0)", OF same g]
      unfolding dict(2) dict_loop_def bencode_dict_get_next_def out_bind_Some by blast
  next
    case list
    then show ?thesis
      using assms(2) list_it.loop_extends [where g = "validate_item v (- 1)" and g' = "validate_item v' (- 1)", OF same g]
      unfolding list(2) list_loop_def bencode_list_get_next_def out_bind_Some by blast
  qed
qed

lemma validate_fuel_total:
  "0 < n \<Longrightarrow> (0 \<le> s \<Longrightarrow> int (length buf) - s < int n) \<Longrightarrow> validate_fuel n buf (bencode_init s l) \<noteq> None"
proof (induction n arbitrary: s l)
  case 0
  then show ?case by simp
next
  case (Suc n)
  have "validate_by (validate_fuel n buf) buf (bencode_init s l) \<noteq> None"
  proof (rule validate_by_total)
    fix p l
    assume sp: "0 \<le> s" "s < int (length buf)" "s < p"
    then show "validate_fuel n buf (bencode_init p l) \<noteq> None" using Suc.prems by (intro Suc.IH) linarith+
  qed
  then show ?case by simp
qed

lemma validate_fuel_Suc: "validate_fuel n buf b = Some r \<Longrightarrow> validate_fuel (Suc n) buf b = Some r"
proof (induction n arbitrary: b r)
  case 0
  then show ?case by simp
next
  case (Suc n)
  have "validate_by (validate_fuel n buf) buf b = Some r" using Suc.prems by simp
  with Suc.IH have "validate_by (validate_fuel (Suc n) buf) buf b = Some r"
    by (rule validate_by_extends) simp_all
  then show ?case by simp
qed

lemma validate_cursor_total: "validate_cursor buf (bencode_init s l) \<noteq> None"
  unfolding validate_cursor_def by (rule validate_fuel_total) simp_all

text \<open>The equation of \<open>__validate\<close> in the code, without fuel.\<close>

lemma validate_cursor_eq:
  "validate_cursor buf (bencode_init s l) = validate_by (validate_cursor buf) buf (bencode_init s l)"
proof -
  obtain r where r: "validate_cursor buf (bencode_init s l) = Some r" using validate_cursor_total by fastforce
  then have "validate_fuel (Suc (length buf + 1)) buf (bencode_init s l) = Some r"
    unfolding validate_cursor_def by (rule validate_fuel_Suc)
  then show ?thesis using r unfolding validate_cursor_def by simp
qed

section \<open>Every function returns\<close>

lemma get_start_and_len_total:
  assumes "in_dict buf be"
  shows "bencode_dict_get_start_and_len buf be \<noteq> None"
proof -
  let ?g = "\<lambda>x. Some (Inr (Inr (ni_be x))) :: (unit + bencode) outcome"
  have l: "dict_loop buf (\<lambda>it. out_bind (bencode_dict_get_next buf it) ?g) be \<noteq> None"
    unfolding dict_loop_def bencode_dict_get_next_def
    using assms by (intro dict_it.loop_total [OF iterate_to_next_forward]) (simp_all add: iterate_to_next_total)
  have no: "dict_loop buf (\<lambda>it. out_bind (bencode_dict_get_next buf it) ?g) be \<noteq> Some (Inr (Inl u))" for u
    using while_loop_inv [where I = "\<lambda>_. True" and Q = "\<lambda>_. True" and R = "\<lambda>_. False" and x = "Inl u"]
    by (fastforce simp: dict_loop_def out_bind_Inr)
  obtain y where y: "dict_loop buf (\<lambda>it. out_bind (bencode_dict_get_next buf it) ?g) be = Some y" using l by blast
  show ?thesis
  proof (cases "be_str be")
    case None
    then show ?thesis by (simp add: bencode_dict_get_start_and_len_def bencode_clone_def)
  next
    case (Some s)
    note eqs = bencode_dict_get_start_and_len_def bencode_clone_def Some y
    show ?thesis
    proof (cases y)
      case (Inl e)
      then show ?thesis by (simp add: eqs)
    next
      case (Inr z)
      then obtain it where "z = Inr it" using no y by (cases z) auto
      then show ?thesis using Inr by (simp add: eqs split: option.split)
    qed
  qed
qed

text \<open>
  C33: the reader returns or faults, on any bytes and for any cursor: the validator, both iterators,
  and the function that moves past a value, which always moves forward; for a cursor that
  is not before its own start also the function that computes a dictionary's extent. No text makes them loop.
\<close>

theorem reader_returns:
  "bencode_validate buf len \<noteq> None \<and>
   bencode_dict_get_next buf be \<noteq> None \<and> bencode_list_get_next buf be \<noteq> None \<and>
   iterate_to_next buf be p \<noteq> None \<and>
   (\<forall>q. iterate_to_next buf be p = Some (Inr (Some q)) \<longrightarrow> p < q) \<and>
   (in_dict buf be \<longrightarrow> bencode_dict_get_start_and_len buf be \<noteq> None)"
proof (intro conjI allI impI)
  show "bencode_validate buf len \<noteq> None" 
    using validate_cursor_total [of buf 0 len] by (simp add: bencode_validate_def del: not_None_eq)
  show "bencode_dict_get_next buf be \<noteq> None" unfolding bencode_dict_get_next_def
    by (cases rule: dict_next_split [of buf be]) (simp_all add: out_bind_None iterate_to_next_total)
  show "bencode_list_get_next buf be \<noteq> None" unfolding bencode_list_get_next_def
    by (cases rule: list_next_split [of buf be]) (simp_all add: out_bind_None iterate_to_next_total)
  show "iterate_to_next buf be p \<noteq> None" by (rule iterate_to_next_total)
  show "p < q" if "iterate_to_next buf be p = Some (Inr (Some q))" for q
    using that iterate_to_next_forward unfolding forward_def by blast
  show "bencode_dict_get_start_and_len buf be \<noteq> None" if "in_dict buf be"
    using that by (rule get_start_and_len_total)
qed

theorem reader_returns_witness:
  "bencode_dict_get_start_and_len (''dd'') (bencode_init 0 2) \<noteq> None"
  using reader_returns [of "''dd''" 2 "bencode_init 0 2" 0] by simp

end
