(* ===== verification/Bencode_Text.thy ===== *)
theory Bencode_Text
  imports Bencode
begin

text \<open>
  Bencoded text as the protocol defines it, and the reader of the previous theory on it: what is
  encoded is read back, iterators give the items in their order, the end of every value is found
  and the validator accepts; and what the reader does with text that is not well formed.
\<close>

section \<open>Values and their encoding\<close>

datatype bvalue = BInt int | BStr string | BList "bvalue list" | BDict "(string \<times> bvalue) list"

fun dec :: "nat \<Rightarrow> string" where
  "dec n = (if n < 10 then [char_of (n + 48)] else dec (n div 10) @ [char_of (n mod 10 + 48)])"

declare dec.simps [simp del]

definition encode_str :: "string \<Rightarrow> string" where
  "encode_str s = dec (length s) @ '':'' @ s"

definition encode_int :: "int \<Rightarrow> string" where
  "encode_int i = ''i'' @ (if i < 0 then ''-'' else []) @ dec (nat \<bar>i\<bar>) @ ''e''"

fun encode :: "bvalue \<Rightarrow> string" where
  "encode (BInt i) = encode_int i"
| "encode (BStr s) = encode_str s"
| "encode (BList vs) = ''l'' @ concat (map encode vs) @ ''e''"
| "encode (BDict kvs) = ''d'' @ concat (map (\<lambda>(k, v). encode_str k @ encode v) kvs) @ ''e''"

section \<open>Text in a buffer\<close>

primrec text_at :: "string \<Rightarrow> int \<Rightarrow> string \<Rightarrow> bool" where
  "text_at buf p [] = True"
| "text_at buf p (c # cs) = (peek buf p = Inr c \<and> text_at buf (p + 1) cs)"

lemma text_at_append [simp]:
  "text_at buf p (xs @ ys) \<longleftrightarrow> text_at buf p xs \<and> text_at buf (p + int (length xs)) ys"
  by (induction xs arbitrary: p) (auto simp: add.assoc add.commute)

lemma text_at_here: "text_at (pre @ xs @ post) (int (length pre)) xs"
proof (induction xs arbitrary: pre)
  case Nil
  then show ?case by simp
next
  case (Cons x xs)
  then show ?case using Cons.IH [of "pre @ [x]"] by (simp add: peek_def nth_append add.commute)
qed

section \<open>Numbers\<close>

primrec number :: "int \<Rightarrow> string \<Rightarrow> int" where
  "number acc [] = acc"
| "number acc (c # cs) = number (acc * 10 + digit_val c) cs"

lemma number_append [simp]: "number acc (xs @ ys) = number (number acc xs) ys"
  by (induction xs arbitrary: acc) simp_all

lemma digit_char: "n < 10 \<Longrightarrow> is_digit (char_of (n + 48)) \<and> digit_val (char_of (n + 48)) = int n"
  by (simp add: is_digit_def digit_val_def of_char_of)

lemma dec_digits: "list_all is_digit (dec n)"
  by (induction n rule: dec.induct) (subst dec.simps, simp add: digit_char)

lemma dec_number: "number 0 (dec n) = int n"
  by (induction n rule: dec.induct) (subst dec.simps, simp add: digit_char zdiv_int zmod_int)

lemma dec_Cons: obtains c cs where "dec n = c # cs" "is_digit c"
proof -
  have "dec n \<noteq> []" by (subst dec.simps) simp
  then obtain c cs where "dec n = c # cs" by (cases "dec n") auto
  then show ?thesis using that dec_digits [of n] by simp
qed

text \<open>Wrapping an intermediate result does not matter when the final one is wrapped.\<close>

lemma int_cast_mod: "int_cast x mod 4294967296 = x mod 4294967296"
  by (simp add: int_cast_def mod_diff_left_eq)

lemma int_cast_cong: "x mod 4294967296 = y mod 4294967296 \<Longrightarrow> int_cast x = int_cast y"
  unfolding int_cast_def by (drule mod_add_cong [OF _ refl]) simp

lemma int_cast_step: "int_cast (int_cast (int_cast x * 10) + d) = int_cast (x * 10 + d)"
  by (intro int_cast_cong mod_add_cong mod_mult_cong trans [OF int_cast_mod] int_cast_mod refl)

lemma long_cast_mod: "long_cast x mod 18446744073709551616 = x mod 18446744073709551616"
  by (simp add: long_cast_def mod_diff_left_eq)

lemma long_cast_cong: "x mod 18446744073709551616 = y mod 18446744073709551616 \<Longrightarrow> long_cast x = long_cast y"
  unfolding long_cast_def by (drule mod_add_cong [OF _ refl]) simp

lemma long_cast_step: "long_cast (long_cast (long_cast x * 10) + d) = long_cast (x * 10 + d)"
  by (intro long_cast_cong mod_add_cong mod_mult_cong trans [OF long_cast_mod] long_cast_mod refl)

lemma long_cast_sign: "long_cast (long_cast x * s) = long_cast (x * s)"
  by (intro long_cast_cong mod_mult_cong long_cast_mod refl)

lemma long_cast_id: "- 9223372036854775808 \<le> x \<Longrightarrow> x < 9223372036854775808 \<Longrightarrow> long_cast x = x"
  by (simp add: long_cast_def)

lemma digits_loop_run:
  assumes "\<And>x d. cast (cast (cast x * 10) + d) = cast (x * 10 + d)"
  shows "list_all is_digit ds \<Longrightarrow> text_at buf p ds \<Longrightarrow> peek buf (p + int (length ds)) = Inr c \<Longrightarrow> \<not> is_digit c \<Longrightarrow>
    digits_loop cast buf p (cast acc) = Inr (p + int (length ds), cast (number acc ds))"
proof (induction ds arbitrary: p acc)
  case Nil
  then show ?case by (simp add: digits_loop.simps)
next
  case (Cons d ds)
  have "digits_loop cast buf (p + 1) (cast (acc * 10 + digit_val d)) =
      Inr (p + 1 + int (length ds), cast (number (acc * 10 + digit_val d) ds))"
    using Cons.prems by (intro Cons.IH) (simp_all add: add_ac)
  then show ?case using Cons.prems by (simp add: digits_loop.simps [of _ _ p] assms)
qed

text \<open>Reading a decimal number gives its value modulo the width of the accumulator.\<close>

lemma read_dec:
  assumes "text_at buf p (dec n)" "peek buf (p + int (length (dec n))) = Inr c" "\<not> is_digit c"
  shows "digits_loop int_cast buf p 0 = Inr (p + int (length (dec n)), int_cast (int n))"
    and "digits_loop long_cast buf p 0 = Inr (p + int (length (dec n)), long_cast (int n))"
proof -
  show "digits_loop int_cast buf p 0 = Inr (p + int (length (dec n)), int_cast (int n))"
    using digits_loop_run [where cast = int_cast and acc = 0, OF int_cast_step dec_digits assms] dec_number [of n]
    by (simp add: int_cast_def)
  show "digits_loop long_cast buf p 0 = Inr (p + int (length (dec n)), long_cast (int n))"
    using digits_loop_run [where cast = long_cast and acc = 0, OF long_cast_step dec_digits assms] dec_number [of n]
    by (simp add: long_cast_def)
qed

lemma digit_neq: "is_digit c \<Longrightarrow> c \<noteq> CHR ''e'' \<and> c \<noteq> CHR ''d'' \<and> c \<noteq> CHR ''l'' \<and> c \<noteq> CHR ''i'' \<and>
    c \<noteq> CHR 0x00 \<and> c \<noteq> CHR 0x0D \<and> c \<noteq> CHR ''-'' \<and> c \<noteq> CHR '':''"
  by (auto simp: is_digit_def)

lemma not_digits [simp]:
  "\<not> is_digit (CHR ''e'')" "\<not> is_digit (CHR ''d'')" "\<not> is_digit (CHR ''l'')" "\<not> is_digit (CHR ''i'')"
  "\<not> is_digit (CHR '':'')" "\<not> is_digit (CHR ''-'')"
  by (simp_all add: is_digit_def)

text \<open>The length of a string, as it is written and as it is read.\<close>

lemma read_string_len_dec:
  assumes "text_at buf p (dec n @ '':'')"
  shows "read_string_len buf p =
    (if int_cast (int n) < 0 then Inl AssertFailed else Inr (Some (p + int (length (dec n)) + 1, int_cast (int n))))"
proof -
  obtain c cs where c: "dec n = c # cs" "is_digit c" by (rule dec_Cons)
  then have "peek buf p = Inr c" using assms by simp
  then show ?thesis using read_dec(1) [of buf p n "CHR '':''"] assms c(2) by (simp add: read_string_len_def)
qed

lemma is_string_dec:
  assumes "text_at buf p (dec n @ '':'')"
  shows "bencode_is_string buf (bencode_init p l) = Inr True"
proof -
  obtain c cs where c: "dec n = c # cs" "is_digit c" by (rule dec_Cons)
  then have "peek buf p = Inr c" using assms by simp
  then show ?thesis using read_dec(1) [of buf p n "CHR '':''"] assms c(2) by (simp add: bencode_is_string_def)
qed

lemma read_string_int_dec:
  assumes "text_at buf p ((if i < 0 then ''-'' else []) @ dec (nat \<bar>i\<bar>) @ ''e'')"
  shows "read_string_int buf p =
    Inr (Some (p + int (length (dec (nat \<bar>i\<bar>))) + (if i < 0 then 1 else 0), long_cast i))"
proof -
  obtain c cs where c: "dec (nat \<bar>i\<bar>) = c # cs" "is_digit c" by (rule dec_Cons)
  let ?p = "if i < 0 then p + 1 else p"
  have "peek buf ?p = Inr c" using assms c by (simp split: if_splits)
  moreover have "digits_loop long_cast buf ?p 0 = Inr (?p + int (length (dec (nat \<bar>i\<bar>))), long_cast \<bar>i\<bar>)"
    using read_dec(2) [of buf ?p "nat \<bar>i\<bar>" "CHR ''e''"] assms by (simp add: add_ac split: if_splits)
  moreover have "long_cast (long_cast \<bar>i\<bar> * (if i < 0 then - 1 else 1)) = long_cast i"
    by (simp add: long_cast_sign)
  ultimately show ?thesis
    using assms c digit_neq [OF c(2)] by (simp add: read_string_int_def Let_def add_ac split: if_splits)
qed

section \<open>Cursors that point to encoded values\<close>

lemma encode_str_Cons: obtains c cs where "encode_str s = c # cs" "is_digit c"
  by (rule dec_Cons [of "length s"]) (simp add: encode_str_def)

lemma encode_Cons: obtains c cs where "encode v = c # cs" "c \<noteq> CHR ''e''"
proof (cases v)
  case (BStr s)
  then show ?thesis using that encode_str_Cons [of s] digit_neq by (metis encode.simps(2))
qed (use that in \<open>auto simp: encode_int_def\<close>)

text \<open>The cursor's buffer holds \<open>k\<close> more characters from \<open>p\<close> on, as \<open>__carry_length\<close> sees it.\<close>

definition covers :: "bencode \<Rightarrow> int \<Rightarrow> int \<Rightarrow> bool" where
  "covers be p k \<longleftrightarrow> be_len be \<le> INT_MAX \<and> (\<exists>s. be_str be = Some s \<and> s \<le> p \<and> k \<le> be_len be - (p - s))"

lemma carry_covers:
  assumes "covers be p k" "0 < k"
  obtains l where "carry_length be p = Inr l" "k \<le> l" "l \<le> INT_MAX"
proof -
  obtain s where s: "be_str be = Some s" "s \<le> p" "k \<le> be_len be - (p - s)" "be_len be \<le> INT_MAX"
    using assms(1) by (auto simp: covers_def)
  then have "int_cast (be_len be - (p - s)) = be_len be - (p - s)"
    using assms(2) by (intro int_cast_id) linarith+
  moreover have "0 < be_len be" using s assms(2) by linarith
  ultimately show ?thesis using s that by (simp add: carry_length_def)
qed

text \<open>A cursor as \<open>bencode_init\<close> makes it, on an encoded value.\<close>

definition points_to :: "string \<Rightarrow> bencode \<Rightarrow> bvalue \<Rightarrow> bool" where
  "points_to buf be v \<longleftrightarrow>
     (\<exists>p l. be = bencode_init p l \<and> text_at buf p (encode v) \<and> int (length (encode v)) \<le> l \<and> l \<le> INT_MAX)"

text \<open>
  A cursor in a container with the items \<open>xs\<close> still to come and the container's end at \<open>e\<close>; \<open>enc\<close>
  gives the text of an item.
\<close>

definition items_at :: "char \<Rightarrow> ('i \<Rightarrow> string) \<Rightarrow> string \<Rightarrow> bencode \<Rightarrow> int \<Rightarrow> 'i list \<Rightarrow> bool" where
  "items_at opn enc buf it e xs \<longleftrightarrow>
     (\<exists>q. be_str it = Some q \<and> 0 \<le> be_start it \<and> be_start it \<le> q \<and>
        text_at buf q ((if q = be_start it then [opn] else []) @ concat (map enc xs) @ ''e'') \<and>
        e = q + (if q = be_start it then 1 else 0) + int (length (concat (map enc xs))) + 1 \<and>
        e \<le> be_start it + be_len it \<and> be_len it \<le> INT_MAX)"

lemma items_at_inside: "items_at opn enc buf it e xs \<Longrightarrow> inside opens buf it" if "opens opn"
  using that by (auto simp: items_at_def inside_def)

abbreviation dict_at :: "string \<Rightarrow> bencode \<Rightarrow> int \<Rightarrow> (string \<times> bvalue) list \<Rightarrow> bool" where
  "dict_at \<equiv> items_at CHR ''d'' (\<lambda>(k, v). encode_str k @ encode v)"

abbreviation list_at :: "string \<Rightarrow> bencode \<Rightarrow> int \<Rightarrow> bvalue list \<Rightarrow> bool" where
  "list_at \<equiv> items_at CHR ''l'' encode"

lemma text_start: "text_at buf p (c # cs) \<Longrightarrow> 0 \<le> p"
  by (simp add: peek_Inr)

lemma points_to_dict:
  assumes "points_to buf be (BDict kvs)"
  shows "dict_at buf be (be_start be + int (length (encode (BDict kvs)))) kvs"
  using assms by (auto simp: points_to_def items_at_def peek_Inr)

lemma points_to_list:
  assumes "points_to buf be (BList vs)"
  shows "list_at buf be (be_start be + int (length (encode (BList vs)))) vs"
  using assms by (auto simp: points_to_def items_at_def peek_Inr)

text \<open>
  The iterators on encoded containers: without items there is no next one; with items, the next
  one is the first, its cursor points to its value, and the others remain.
\<close>

locale encoded_iterator = container_iterator opens has_next next_by
  for opens :: "char \<Rightarrow> bool"
    and has_next :: "string \<Rightarrow> bencode \<Rightarrow> fault + (bool \<times> bencode)"
    and next_by :: "(bencode \<Rightarrow> int \<Rightarrow> int option outcome) \<Rightarrow> string \<Rightarrow> bencode \<Rightarrow> next_item outcome" +
  fixes opn :: char
    and enc :: "'i \<Rightarrow> string"
    and item_val :: "'i \<Rightarrow> bvalue"
    and has_key :: "string \<Rightarrow> 'i \<Rightarrow> next_item \<Rightarrow> bool"
  assumes no_next: "items_at opn enc buf it e [] \<Longrightarrow> \<exists>it1. has_next buf it = Inr (False, it1)"
    and more_next: "items_at opn enc buf it e (x # xs) \<Longrightarrow> has_next buf it = Inr (True, it)"
    and first_item: "items_at opn enc buf it e (x # xs) \<Longrightarrow>
      \<exists>p. text_at buf p (encode (item_val x)) \<and> covers it p (int (length (encode (item_val x)))) \<and>
        (\<forall>f. f it p = Some (Inr (Some (p + int (length (encode (item_val x)))))) \<longrightarrow>
          (\<exists>y i. next_by f buf it = Some (Inr y) \<and> ni_ret y = 1 \<and> ni_item y = Some i \<and>
            points_to buf i (item_val x) \<and> has_key buf x y \<and> items_at opn enc buf (ni_be y) e xs))"
begin

text \<open>A loop over all items, whose body never returns from the function.\<close>

lemma loop_all:
  assumes "items_at opn enc buf it e xs"
    and f: "\<And>x it p. x \<in> set xs \<Longrightarrow> text_at buf p (encode (item_val x)) \<Longrightarrow>
      covers it p (int (length (encode (item_val x)))) \<Longrightarrow>
      f it p = Some (Inr (Some (p + int (length (encode (item_val x))))))"
    and g: "\<And>x y i. x \<in> set xs \<Longrightarrow> ni_ret y = 1 \<Longrightarrow> ni_item y = Some i \<Longrightarrow> points_to buf i (item_val x) \<Longrightarrow>
      g y = Some (Inr (Inr (ni_be y)))"
  shows "\<exists>it' it1. while_loop (has_next buf) (\<lambda>it. out_bind (next_by f buf it) g) it = Some (Inr (Inr it1)) \<and>
    items_at opn enc buf it' e [] \<and> has_next buf it' = Inr (False, it1)"
  using assms
proof (induction xs arbitrary: it)
  case Nil
  then obtain it1 where "has_next buf it = Inr (False, it1)" using no_next by blast
  then show ?case using while_loop_stop [of "has_next buf"] Nil.prems(1) by blast
next
  case (Cons x xs)
  obtain p where p: "text_at buf p (encode (item_val x))" "covers it p (int (length (encode (item_val x))))"
    and n: "\<And>f. f it p = Some (Inr (Some (p + int (length (encode (item_val x)))))) \<Longrightarrow>
      \<exists>y i. next_by f buf it = Some (Inr y) \<and> ni_ret y = 1 \<and> ni_item y = Some i \<and>
        points_to buf i (item_val x) \<and> has_key buf x y \<and> items_at opn enc buf (ni_be y) e xs"
    using first_item [OF Cons.prems(1)] by blast
  have "f it p = Some (Inr (Some (p + int (length (encode (item_val x))))))"
    using p by (intro Cons.prems(2)) simp_all
  then obtain y i where y: "next_by f buf it = Some (Inr y)" "ni_ret y = 1" "ni_item y = Some i"
      "points_to buf i (item_val x)" "items_at opn enc buf (ni_be y) e xs"
    using n by blast
  have "g y = Some (Inr (Inr (ni_be y)))" using y by (intro Cons.prems(3)) simp_all
  then have b: "out_bind (next_by f buf it) g = Some (Inr (Inr (ni_be y)))" by (simp only: y(1) out_bind_simps)
  have "while_loop (has_next buf) (\<lambda>it. out_bind (next_by f buf it) g) it =
      while_loop (has_next buf) (\<lambda>it. out_bind (next_by f buf it) g) (ni_be y)"
    by (rule while_loop_step [where c = "has_next buf" and s = it, OF more_next [OF Cons.prems(1)]]) (rule b)
  moreover have "\<exists>it' it1. while_loop (has_next buf) (\<lambda>it. out_bind (next_by f buf it) g) (ni_be y) = Some (Inr (Inr it1)) \<and>
      items_at opn enc buf it' e [] \<and> has_next buf it' = Inr (False, it1)"
    using y(5)
  proof (rule Cons.IH)
    show "f it p = Some (Inr (Some (p + int (length (encode (item_val x))))))"
      if "x \<in> set xs" "text_at buf p (encode (item_val x))" "covers it p (int (length (encode (item_val x))))" for x it p
      using that by (intro Cons.prems(2)) simp_all
    show "g y = Some (Inr (Inr (ni_be y)))"
      if "x \<in> set xs" "ni_ret y = 1" "ni_item y = Some i" "points_to buf i (item_val x)" for x y i
      by (rule Cons.prems(3) [of x]) (use that in simp_all)
  qed
  ultimately show ?case by simp
qed

end

text \<open>The key of a dictionary's item.\<close>

definition key_is :: "string \<Rightarrow> string \<times> bvalue \<Rightarrow> next_item \<Rightarrow> bool" where
  "key_is buf kv y \<longleftrightarrow>
     (\<exists>a. ni_key y = Some a \<and> ni_klen y = Some (int (length (fst kv))) \<and> text_at buf a (fst kv))"

lemma dict_no_next:
  assumes "dict_at buf it e []"
  shows "bencode_dict_has_next buf it = Inr False"
  using assms by (auto simp: items_at_def bencode_dict_has_next_def split: if_splits)

text \<open>The first item of an encoded dictionary, wherever the cursor is.\<close>

lemma dict_first:
  assumes "dict_at buf it e ((k, v) # kvs)"
  obtains q sp where "be_str it = Some q" "0 \<le> be_start it" "be_start it \<le> q"
    "sp = (if q = be_start it then q + 1 else q)"
    "q = be_start it \<Longrightarrow> peek buf q = Inr CHR ''d''"
    "text_at buf sp (encode_str k)" "text_at buf (sp + int (length (encode_str k))) (encode v)"
    "text_at buf (sp + int (length (encode_str k)) + int (length (encode v)))
      (concat (map (\<lambda>(k, v). encode_str k @ encode v) kvs) @ ''e'')"
    "e = sp + int (length (encode_str k)) + int (length (encode v)) +
      int (length (concat (map (\<lambda>(k, v). encode_str k @ encode v) kvs))) + 1"
    "e \<le> be_start it + be_len it" "be_len it \<le> INT_MAX"
proof -
  obtain q where q: "be_str it = Some q" "0 \<le> be_start it" "be_start it \<le> q"
    and t: "text_at buf q ((if q = be_start it then [CHR ''d''] else []) @
        concat (map (\<lambda>(k, v). encode_str k @ encode v) ((k, v) # kvs)) @ ''e'')"
    and e: "e = q + (if q = be_start it then 1 else 0) +
        int (length (concat (map (\<lambda>(k, v). encode_str k @ encode v) ((k, v) # kvs)))) + 1"
    and l: "e \<le> be_start it + be_len it" "be_len it \<le> INT_MAX"
    using assms unfolding items_at_def by blast
  show ?thesis
    by (rule that [of q "if q = be_start it then q + 1 else q"])
      (use q t e l in \<open>auto simp: add_ac split: if_splits\<close>)
qed

lemma dict_more_next:
  assumes "dict_at buf it e ((k, v) # kvs)"
  shows "bencode_dict_has_next buf it = Inr True"
  using assms
proof (rule dict_first)
  fix q sp
  assume q: "be_str it = Some q" "be_start it \<le> q" "sp = (if q = be_start it then q + 1 else q)"
    "q = be_start it \<Longrightarrow> peek buf q = Inr CHR ''d''" "text_at buf sp (encode_str k)"
    and e: "e = sp + int (length (encode_str k)) + int (length (encode v)) +
      int (length (concat (map (\<lambda>(k, v). encode_str k @ encode v) kvs))) + 1"
      "e \<le> be_start it + be_len it"
  obtain c cs where c: "encode_str k = c # cs" "is_digit c" by (rule encode_str_Cons)
  then have p: "peek buf sp = Inr c" using q(5) by simp
  have "q < be_start it + be_len it - 1" using e q(3) c(1) by (auto split: if_splits)
  then show ?thesis
    using q(1,3,4) p digit_neq [OF c(2)] by (auto simp: bencode_dict_has_next_def split: if_splits)
qed

lemma dict_first_item:
  assumes "dict_at buf it e ((k, v) # kvs)"
  shows "\<exists>p. text_at buf p (encode v) \<and> covers it p (int (length (encode v))) \<and>
    (\<forall>f. f it p = Some (Inr (Some (p + int (length (encode v))))) \<longrightarrow>
      (\<exists>y i. dict_get_next_by f buf it = Some (Inr y) \<and> ni_ret y = 1 \<and> ni_item y = Some i \<and>
        points_to buf i v \<and> key_is buf (k, v) y \<and> dict_at buf (ni_be y) e kvs))"
  using assms
proof (rule dict_first)
  fix q sp
  assume q: "be_str it = Some q" "0 \<le> be_start it" "be_start it \<le> q" "sp = (if q = be_start it then q + 1 else q)"
    "q = be_start it \<Longrightarrow> peek buf q = Inr CHR ''d''" "text_at buf sp (encode_str k)"
    and v: "text_at buf (sp + int (length (encode_str k))) (encode v)"
    and r: "text_at buf (sp + int (length (encode_str k)) + int (length (encode v)))
      (concat (map (\<lambda>(k, v). encode_str k @ encode v) kvs) @ ''e'')"
    and e: "e = sp + int (length (encode_str k)) + int (length (encode v)) +
      int (length (concat (map (\<lambda>(k, v). encode_str k @ encode v) kvs))) + 1"
      "e \<le> be_start it + be_len it" "be_len it \<le> INT_MAX"
  let ?p = "sp + int (length (encode_str k))" and ?n = "int (length (encode v))"
  have sp: "q \<le> sp" "be_start it < sp" using q(3,4) by (auto split: if_splits)
  have small: "int (length k) \<le> INT_MAX"
    using e sp q(3) by (auto simp: encode_str_def)
  have len: "read_string_len buf sp = Inr (Some (sp + int (length (dec (length k))) + 1, int (length k)))"
    using read_string_len_dec [of buf sp "length k"] q(6) small int_cast_id [of "int (length k)"]
    by (simp add: encode_str_def)
  have key: "text_at buf (sp + int (length (dec (length k))) + 1) k"
    using q(6) by (simp add: encode_str_def add_ac)
  have p: "?p = sp + int (length (dec (length k))) + 1 + int (length k)" by (simp add: encode_str_def)
  have cov: "covers it ?p ?n" using e q(1,3) sp by (auto simp: covers_def)
  obtain cv csv where cv: "encode v = cv # csv" by (rule encode_Cons)
  then obtain l where l: "carry_length it ?p = Inr l" "?n \<le> l" "l \<le> INT_MAX"
    using carry_covers [OF cov] by auto
  obtain c cs where c: "encode_str k = c # cs" "is_digit c" by (rule encode_str_Cons)
  then have pk: "peek buf sp = Inr c" using q(6) by simp
  have "\<exists>y i. dict_get_next_by f buf it = Some (Inr y) \<and> ni_ret y = 1 \<and> ni_item y = Some i \<and>
        points_to buf i v \<and> key_is buf (k, v) y \<and> dict_at buf (ni_be y) e kvs"
    if f: "f it ?p = Some (Inr (Some (?p + ?n)))" for f
  proof (intro exI conjI)
    let ?y = "\<lparr>ni_ret = 1, ni_be = it\<lparr>be_str := Some (?p + ?n)\<rparr>, ni_item = Some (bencode_init ?p l),
      ni_key = Some (sp + int (length (dec (length k))) + 1), ni_klen = Some (int (length k))\<rparr>"
    show "dict_get_next_by f buf it = Some (Inr ?y)"
      using q(1,4,5) pk digit_neq [OF c(2)] len l(1) f unfolding p dict_get_next_by_def Let_def
      by (cases "q = be_start it") simp_all
    show "ni_ret ?y = 1" "ni_item ?y = Some (bencode_init ?p l)" by simp_all
    show "points_to buf (bencode_init ?p l) v" using v l by (auto simp: points_to_def)
    show "key_is buf (k, v) ?y" using key by (simp add: key_is_def)
    have "?p + ?n \<noteq> be_start it" using sp by linarith
    then show "dict_at buf (ni_be ?y) e kvs" using r e q(2) sp by (simp add: items_at_def)
  qed
  then show ?thesis using v cov by blast
qed

interpretation dict_text: encoded_iterator "\<lambda>c. True"
  "\<lambda>buf it. res_bind (bencode_dict_has_next buf it) (\<lambda>go. Inr (go, it))" dict_get_next_by "CHR ''d''"
  "\<lambda>(k, v). encode_str k @ encode v" snd key_is
proof unfold_locales
  show "\<exists>it1. res_bind (bencode_dict_has_next buf it) (\<lambda>go. Inr (go, it)) = Inr (False, it1)"
    if "dict_at buf it e []" for buf it e
    using dict_no_next [OF that] by simp
  show "res_bind (bencode_dict_has_next buf it) (\<lambda>go. Inr (go, it)) = Inr (True, it)"
    if "dict_at buf it e (x # xs)" for buf it e x xs
    using that dict_more_next by (cases x) simp
  show "\<exists>p. text_at buf p (encode (snd x)) \<and> covers it p (int (length (encode (snd x)))) \<and>
    (\<forall>f. f it p = Some (Inr (Some (p + int (length (encode (snd x)))))) \<longrightarrow>
      (\<exists>y i. dict_get_next_by f buf it = Some (Inr y) \<and> ni_ret y = 1 \<and> ni_item y = Some i \<and>
        points_to buf i (snd x) \<and> key_is buf x y \<and> dict_at buf (ni_be y) e xs))"
    if "dict_at buf it e (x # xs)" for buf it e x xs
    using that dict_first_item by (cases x) simp
qed

lemma list_no_next:
  assumes "list_at buf it e []"
  obtains it1 where "bencode_list_has_next buf it = Inr (False, it1)" "be_str it1 = Some (e - 1)"
  using assms by (auto simp: items_at_def bencode_list_has_next_def split: if_splits)

lemma list_first:
  assumes "list_at buf it e (v # vs)"
  obtains q sp c where "be_str it = Some q" "0 \<le> be_start it" "be_start it \<le> q"
    "peek buf q = Inr c" "c \<noteq> CHR ''e''" "sp = (if c = CHR ''l'' \<and> be_start it = q then q + 1 else q)"
    "be_start it < sp" "q \<le> sp"
    "text_at buf sp (encode v)" "text_at buf (sp + int (length (encode v))) (concat (map encode vs) @ ''e'')"
    "e = sp + int (length (encode v)) + int (length (concat (map encode vs))) + 1"
    "e \<le> be_start it + be_len it" "be_len it \<le> INT_MAX"
proof -
  obtain q where q: "be_str it = Some q" "0 \<le> be_start it" "be_start it \<le> q"
    and t: "text_at buf q ((if q = be_start it then [CHR ''l''] else []) @ concat (map encode (v # vs)) @ ''e'')"
    and e: "e = q + (if q = be_start it then 1 else 0) + int (length (concat (map encode (v # vs)))) + 1"
    and l: "e \<le> be_start it + be_len it" "be_len it \<le> INT_MAX"
    using assms unfolding items_at_def by blast
  obtain c cs where c: "encode v = c # cs" "c \<noteq> CHR ''e''" by (rule encode_Cons)
  show ?thesis
  proof (cases "q = be_start it")
    case True
    then show ?thesis
      using that [of q "CHR ''l''" "q + 1"] q t e l by (simp add: add_ac)
  next
    case False
    then show ?thesis
      using that [of q c q] q t e l c by (simp add: add_ac)
  qed
qed

lemma list_more_next:
  assumes "list_at buf it e (v # vs)"
  shows "bencode_list_has_next buf it = Inr (True, it)"
  using assms
proof (rule list_first)
  fix q sp c
  assume q: "be_str it = Some q" "peek buf q = Inr c" "c \<noteq> CHR ''e''"
    "sp = (if c = CHR ''l'' \<and> be_start it = q then q + 1 else q)" "text_at buf sp (encode v)"
  obtain d ds where d: "encode v = d # ds" "d \<noteq> CHR ''e''" by (rule encode_Cons)
  then have "peek buf sp = Inr d" using q(5) by simp
  then show ?thesis using q(1-4) d(2) by (cases "q = be_start it") (auto simp: bencode_list_has_next_def)
qed

lemma list_first_item:
  assumes "list_at buf it e (v # vs)"
  shows "\<exists>p. text_at buf p (encode v) \<and> covers it p (int (length (encode v))) \<and>
    (\<forall>f. f it p = Some (Inr (Some (p + int (length (encode v))))) \<longrightarrow>
      (\<exists>y i. list_get_next_by f buf it = Some (Inr y) \<and> ni_ret y = 1 \<and> ni_item y = Some i \<and>
        points_to buf i v \<and> True \<and> list_at buf (ni_be y) e vs))"
  using assms
proof (rule list_first)
  fix q sp c
  assume q: "be_str it = Some q" "0 \<le> be_start it" "be_start it \<le> q" "peek buf q = Inr c" "c \<noteq> CHR ''e''"
    "sp = (if c = CHR ''l'' \<and> be_start it = q then q + 1 else q)"
    and sp: "be_start it < sp" "q \<le> sp"
    and v: "text_at buf sp (encode v)"
    and r: "text_at buf (sp + int (length (encode v))) (concat (map encode vs) @ ''e'')"
    and e: "e = sp + int (length (encode v)) + int (length (concat (map encode vs))) + 1"
      "e \<le> be_start it + be_len it" "be_len it \<le> INT_MAX"
  let ?n = "int (length (encode v))"
  have cov: "covers it sp ?n" using e q(1,3) sp by (auto simp: covers_def)
  obtain d ds where d: "encode v = d # ds" "d \<noteq> CHR ''e''" by (rule encode_Cons)
  then obtain l where l: "carry_length it sp = Inr l" "?n \<le> l" "l \<le> INT_MAX"
    using carry_covers [OF cov] by auto
  have pk: "peek buf sp = Inr d" using v d(1) by simp
  have "\<exists>y i. list_get_next_by f buf it = Some (Inr y) \<and> ni_ret y = 1 \<and> ni_item y = Some i \<and>
        points_to buf i v \<and> True \<and> list_at buf (ni_be y) e vs"
    if f: "f it sp = Some (Inr (Some (sp + ?n)))" for f
  proof (intro exI conjI)
    let ?y = "\<lparr>ni_ret = 1, ni_be = it\<lparr>be_str := Some (sp + ?n)\<rparr>, ni_item = Some (bencode_init sp l),
      ni_key = None, ni_klen = None\<rparr>"
    show "list_get_next_by f buf it = Some (Inr ?y)"
      using q(1,4,5) pk d(2) l(1) f unfolding q(6) [symmetric] list_get_next_by_def Let_def
      by (simp add: q(6) [symmetric])
    show "ni_ret ?y = 1" "ni_item ?y = Some (bencode_init sp l)" True by simp_all
    show "points_to buf (bencode_init sp l) v" using v l by (auto simp: points_to_def)
    have "sp + ?n \<noteq> be_start it" using sp by linarith
    then show "list_at buf (ni_be ?y) e vs" using r e q(2) sp by (simp add: items_at_def)
  qed
  then show ?thesis using v cov by blast
qed

interpretation list_text: encoded_iterator "\<lambda>c. c = CHR ''l''" bencode_list_has_next list_get_next_by
  "CHR ''l''" encode "\<lambda>v. v" "\<lambda>buf v y. True"
proof unfold_locales
  show "\<exists>it1. bencode_list_has_next buf it = Inr (False, it1)" if "list_at buf it e []" for buf it e
    using that by (rule list_no_next) blast
  show "bencode_list_has_next buf it = Inr (True, it)" if "list_at buf it e (x # xs)" for buf it e x xs
    using that by (rule list_more_next)
qed (rule list_first_item)

section \<open>The end of an encoded value\<close>

lemma value_end_int:
  assumes "text_at buf p (encode_int i)"
  shows "value_end f buf (bencode_init p l) = Some (Inr (Some (p + int (length (encode_int i)))))"
proof -
  have c: "peek buf p = Inr CHR ''i''"
    and t: "text_at buf (p + 1) ((if i < 0 then ''-'' else []) @ dec (nat \<bar>i\<bar>) @ ''e'')"
    using assms by (simp_all add: encode_int_def)
  let ?e = "p + 1 + int (length (dec (nat \<bar>i\<bar>))) + (if i < 0 then 1 else 0)"
  have "peek buf ?e = Inr CHR ''e''" using t by (simp add: add_ac split: if_splits)
  then have "int_end buf (bencode_init p l) = Inr (Some (?e + 1))"
    using read_string_int_dec [OF t] by (simp add: int_end_def)
  moreover have "?e + 1 = p + int (length (encode_int i))" by (simp add: encode_int_def)
  ultimately show ?thesis
    using c by (simp add: value_end_def bencode_is_dict_def bencode_is_list_def bencode_is_string_def
        bencode_is_int_def starts_with_def)
qed

lemma string_value_at:
  assumes "text_at buf p (encode_str s)" "int (length (encode_str s)) \<le> l" "l \<le> INT_MAX"
  shows "bencode_string_value buf (bencode_init p l) = Inr (Some (p + int (length (dec (length s))) + 1), int (length s))"
proof -
  have t: "text_at buf p (dec (length s) @ '':'')" using assms(1) by (simp add: encode_str_def)
  have n: "int (length s) \<le> INT_MAX" "0 < l"
    "p + int (length (dec (length s))) + 1 + int (length s) \<le> p + l"
    using assms(2,3) by (simp_all add: encode_str_def)
  then show ?thesis
    using is_string_dec [OF t] read_string_len_dec [OF t] int_cast_id [of "int (length s)"]
    by (simp add: bencode_string_value_def)
qed

lemma string_start:
  assumes "text_at buf p (encode_str s)"
  shows "bencode_is_dict buf (bencode_init p l) = Inr False" "bencode_is_list buf (bencode_init p l) = Inr False"
    "bencode_is_int buf (bencode_init p l) = Inr False" "bencode_is_string buf (bencode_init p l) = Inr True"
proof -
  obtain c cs where c: "encode_str s = c # cs" "is_digit c" by (rule encode_str_Cons)
  then have "peek buf p = Inr c" using assms by simp
  then show "bencode_is_dict buf (bencode_init p l) = Inr False" "bencode_is_list buf (bencode_init p l) = Inr False"
    "bencode_is_int buf (bencode_init p l) = Inr False"
    using digit_neq [OF c(2)] by (simp_all add: bencode_is_dict_def bencode_is_list_def bencode_is_int_def starts_with_def)
  show "bencode_is_string buf (bencode_init p l) = Inr True"
    using assms is_string_dec [of buf p "length s"] by (simp add: encode_str_def)
qed

lemma value_end_str:
  assumes "text_at buf p (encode_str s)" "int (length (encode_str s)) \<le> l" "l \<le> INT_MAX"
  shows "value_end f buf (bencode_init p l) = Some (Inr (Some (p + int (length (encode_str s)))))"
proof -
  have "string_end buf (bencode_init p l) = Inr (Some (p + int (length (encode_str s))))"
    using string_value_at [OF assms] by (simp add: string_end_def encode_str_def)
  then show ?thesis using string_start [OF assms(1)] by (simp add: value_end_def)
qed

lemma dict_at_end:
  assumes "dict_at buf it e []"
  shows "dict_end f buf it = Some (Inr (Some e))"
proof -
  obtain q where q: "be_str it = Some q" and
    t: "text_at buf q ((if q = be_start it then [CHR ''d''] else []) @ ''e'')"
    "e = q + (if q = be_start it then 1 else 0) + 1"
    using assms by (auto simp: items_at_def)
  have "dict_loop buf b it = Some (Inr (Inr it))" for b :: "bencode \<Rightarrow> (unit + bencode) outcome"
    unfolding dict_loop_def using dict_no_next [OF assms] by (intro while_loop_stop) simp
  then show ?thesis using q t by (simp add: dict_end_def split: if_splits)
qed

lemma dict_end_items:
  assumes "dict_at buf it e kvs"
    and "\<And>kv be p. kv \<in> set kvs \<Longrightarrow> text_at buf p (encode (snd kv)) \<Longrightarrow> covers be p (int (length (encode (snd kv)))) \<Longrightarrow>
      f be p = Some (Inr (Some (p + int (length (encode (snd kv))))))"
  shows "dict_end f buf it = Some (Inr (Some e))"
proof -
  let ?g = "\<lambda>x. Some (Inr (if ni_ret x = 0 then Inl () else Inr (ni_be x))) :: (unit + bencode) outcome"
  obtain it' it1 where "dict_loop buf (\<lambda>it. out_bind (dict_get_next_by f buf it) ?g) it = Some (Inr (Inr it1))"
      "dict_at buf it' e []" "it1 = it'"
    using dict_text.loop_all [where f = f and g = ?g, OF assms] by (auto simp: dict_loop_def dict_cond)
  moreover from this have "dict_loop buf (\<lambda>it. out_bind (dict_get_next_by f buf it) ?g) it' = Some (Inr (Inr it1))"
    using dict_no_next unfolding dict_loop_def by (intro while_loop_stop) simp
  ultimately show ?thesis using dict_at_end [of buf it' e f] by (simp add: dict_end_def)
qed

lemma list_end_items:
  assumes "list_at buf it e vs"
    and "\<And>v be p. v \<in> set vs \<Longrightarrow> text_at buf p (encode v) \<Longrightarrow> covers be p (int (length (encode v))) \<Longrightarrow>
      f be p = Some (Inr (Some (p + int (length (encode v)))))"
  shows "list_end f buf it = Some (Inr (Some e))"
proof -
  let ?g = "\<lambda>x. Some (Inr (if ni_ret x = - 1 then Inl () else Inr (ni_be x))) :: (unit + bencode) outcome"
  obtain it' it1 where l: "list_loop buf (\<lambda>it. out_bind (list_get_next_by f buf it) ?g) it = Some (Inr (Inr it1))"
      "list_at buf it' e []" "bencode_list_has_next buf it' = Inr (False, it1)"
    using list_text.loop_all [where f = f and g = ?g, OF assms] by (auto simp: list_loop_def)
  obtain it2 where "bencode_list_has_next buf it' = Inr (False, it2)" "be_str it2 = Some (e - 1)"
    using l(2) by (rule list_no_next)
  then have "be_str it1 = Some (e - 1)" using l(3) by simp
  then show ?thesis using l(1) by (simp add: list_end_def)
qed

theorem iterate_encoded:
  "text_at buf p (encode v) \<Longrightarrow> covers be p (int (length (encode v))) \<Longrightarrow>
   iterate_to_next buf be p = Some (Inr (Some (p + int (length (encode v)))))"
proof (induction v arbitrary: p be)
  case (BInt i)
  have "0 < int (length (encode (BInt i)))" by (simp add: encode_int_def)
  then obtain l where "carry_length be p = Inr l" using carry_covers [OF BInt(2)] by auto
  then show ?case using BInt(1) value_end_int by (simp add: iterate_to_next_eq)
next
  case (BStr s)
  have "0 < int (length (encode (BStr s)))" by (simp add: encode_str_def)
  then obtain l where l: "carry_length be p = Inr l" "int (length (encode (BStr s))) \<le> l" "l \<le> INT_MAX"
    using carry_covers [OF BStr(2)] by auto
  then show ?case using BStr(1) value_end_str by (simp add: iterate_to_next_eq)
next
  case (BList vs)
  have "0 < int (length (encode (BList vs)))" by simp
  then obtain l where l: "carry_length be p = Inr l" "int (length (encode (BList vs))) \<le> l" "l \<le> INT_MAX"
    using carry_covers [OF BList(3)] by auto
  then have "points_to buf (bencode_init p l) (BList vs)" using BList(2) by (auto simp: points_to_def)
  then have "list_end (iterate_to_next buf) buf (bencode_init p l) = Some (Inr (Some (p + int (length (encode (BList vs))))))"
    using list_end_items [OF points_to_list, OF _ BList(1)] by simp
  moreover have "peek buf p = Inr CHR ''l''" using BList(2) by simp
  ultimately show ?case
    using l(1) by (simp add: iterate_to_next_eq value_end_def bencode_is_dict_def bencode_is_list_def starts_with_def)
next
  case (BDict kvs)
  have "0 < int (length (encode (BDict kvs)))" by simp
  then obtain l where l: "carry_length be p = Inr l" "int (length (encode (BDict kvs))) \<le> l" "l \<le> INT_MAX"
    using carry_covers [OF BDict(3)] by auto
  then have "points_to buf (bencode_init p l) (BDict kvs)" using BDict(2) by (auto simp: points_to_def)
  then have "dict_end (iterate_to_next buf) buf (bencode_init p l) = Some (Inr (Some (p + int (length (encode (BDict kvs))))))"
    using dict_end_items [OF points_to_dict, of buf _ kvs "iterate_to_next buf"] BDict(1)
    by (simp add: snds.intros)
  moreover have "peek buf p = Inr CHR ''d''" using BDict(2) by simp
  ultimately show ?case
    using l(1) by (simp add: iterate_to_next_eq value_end_def bencode_is_dict_def starts_with_def)
qed

lemma int_value_at:
  assumes "text_at buf p (encode_int i)"
  shows "bencode_int_value buf (bencode_init p l) = Inr (1, long_cast i)"
proof -
  have t: "text_at buf (p + 1) ((if i < 0 then ''-'' else []) @ dec (nat \<bar>i\<bar>) @ ''e'')"
    using assms by (simp add: encode_int_def)
  have "peek buf (p + 1 + int (length (dec (nat \<bar>i\<bar>))) + (if i < 0 then 1 else 0)) = Inr CHR ''e''"
    using t by (simp add: add_ac split: if_splits)
  then show ?thesis using read_string_int_dec [OF t] by (simp add: bencode_int_value_def)
qed

section \<open>Kinds of values\<close>

datatype kind = Int_Kind | Str_Kind | List_Kind | Dict_Kind

fun kind_of :: "bvalue \<Rightarrow> kind" where
  "kind_of (BInt i) = Int_Kind"
| "kind_of (BStr s) = Str_Kind"
| "kind_of (BList vs) = List_Kind"
| "kind_of (BDict kvs) = Dict_Kind"

text \<open>On a cursor that points to a value, the four tests decide its kind.\<close>

lemma points_to_kind:
  assumes "points_to buf be v"
  shows "bencode_is_dict buf be = Inr (kind_of v = Dict_Kind)"
    and "bencode_is_list buf be = Inr (kind_of v = List_Kind)"
    and "bencode_is_string buf be = Inr (kind_of v = Str_Kind)"
    and "bencode_is_int buf be = Inr (kind_of v = Int_Kind)"
proof -
  obtain p l where be: "be = bencode_init p l" and t: "text_at buf p (encode v)"
    using assms by (auto simp: points_to_def)
  note defs = bencode_is_dict_def bencode_is_list_def bencode_is_int_def starts_with_def
  have "bencode_is_dict buf be = Inr (kind_of v = Dict_Kind) \<and> bencode_is_list buf be = Inr (kind_of v = List_Kind) \<and>
      bencode_is_string buf be = Inr (kind_of v = Str_Kind) \<and> bencode_is_int buf be = Inr (kind_of v = Int_Kind)"
  proof (cases v)
    case (BInt i)
    then have "peek buf p = Inr CHR ''i''" using t by (simp add: encode_int_def)
    then show ?thesis using BInt be by (simp add: defs bencode_is_string_def)
  next
    case (BStr s)
    then show ?thesis using t be string_start [of buf p s] by simp
  next
    case (BList vs)
    then have "peek buf p = Inr CHR ''l''" using t by simp
    then show ?thesis using BList be by (simp add: defs bencode_is_string_def)
  next
    case (BDict kvs)
    then have "peek buf p = Inr CHR ''d''" using t by simp
    then show ?thesis using BDict be by (simp add: defs bencode_is_string_def)
  qed
  then show "bencode_is_dict buf be = Inr (kind_of v = Dict_Kind)" "bencode_is_list buf be = Inr (kind_of v = List_Kind)"
    "bencode_is_string buf be = Inr (kind_of v = Str_Kind)" "bencode_is_int buf be = Inr (kind_of v = Int_Kind)"
    by auto
qed

text \<open>The public \<open>get_next\<close> functions on encoded containers.\<close>

lemma dict_next_encoded:
  assumes "dict_at buf it e (kv # kvs)"
  obtains y i where "bencode_dict_has_next buf it = Inr True" "bencode_dict_get_next buf it = Some (Inr y)"
    "ni_ret y = 1" "ni_item y = Some i" "points_to buf i (snd kv)" "key_is buf kv y" "dict_at buf (ni_be y) e kvs"
  using dict_text.first_item [OF assms] dict_text.more_next [OF assms] iterate_encoded
  unfolding bencode_dict_get_next_def dict_cond by blast

lemma list_next_encoded:
  assumes "list_at buf it e (v # vs)"
  obtains y i where "bencode_list_has_next buf it = Inr (True, it)" "bencode_list_get_next buf it = Some (Inr y)"
    "ni_ret y = 1" "ni_item y = Some i" "points_to buf i v" "list_at buf (ni_be y) e vs"
  using list_text.first_item [OF assms] list_text.more_next [OF assms] iterate_encoded
  unfolding bencode_list_get_next_def by blast

section \<open>The validator on encoded values\<close>

lemma points_to_validate:
  "points_to buf be v \<Longrightarrow> validate_cursor buf be = Some (Inr 0)"
proof (induction v arbitrary: be)
  case (BInt i)
  obtain p l where be: "be = bencode_init p l" "text_at buf p (encode_int i)"
    using BInt by (auto simp: points_to_def)
  then show ?case
    using points_to_kind [OF BInt] int_value_at [OF be(2)] by (simp add: validate_cursor_eq validate_by_def)
next
  case (BStr s)
  obtain p l where be: "be = bencode_init p l" "text_at buf p (encode_str s)"
      "int (length (encode_str s)) \<le> l" "l \<le> INT_MAX"
    using BStr by (auto simp: points_to_def)
  then show ?case
    using points_to_kind [OF BStr] string_value_at [OF be(2-4)] by (simp add: validate_cursor_eq validate_by_def)
next
  case (BList vs)
  obtain p l where be: "be = bencode_init p l" using BList(2) by (auto simp: points_to_def)
  let ?g = "validate_item (validate_cursor buf) (- 1)"
  have "?g y = Some (Inr (Inr (ni_be y)))"
    if "v \<in> set vs" "ni_ret y = 1" "ni_item y = Some i" "points_to buf i v" for v y i
    using that BList(1) by (simp add: validate_item_def)
  then obtain it1 where "list_loop buf (\<lambda>it. out_bind (bencode_list_get_next buf it) ?g) be = Some (Inr (Inr it1))"
    using list_text.loop_all [where f = "iterate_to_next buf" and g = ?g, OF points_to_list [OF BList(2)] iterate_encoded]
    unfolding list_loop_def bencode_list_get_next_def by blast
  then show ?case
    using points_to_kind [OF BList(2)] unfolding be validate_cursor_eq
    by (simp add: validate_by_def validate_result_def)
next
  case (BDict kvs)
  obtain p l where be: "be = bencode_init p l" using BDict(2) by (auto simp: points_to_def)
  let ?g = "validate_item (validate_cursor buf) 0"
  have "?g y = Some (Inr (Inr (ni_be y)))"
    if kv: "kv \<in> set kvs" "ni_ret y = 1" "ni_item y = Some i" "points_to buf i (snd kv)" for kv y i
  proof -
    have "validate_cursor buf i = Some (Inr 0)" using BDict(1) [OF kv(1) _ kv(4)] by (simp add: snds.intros)
    then show ?thesis using kv by (simp add: validate_item_def)
  qed
  then obtain it1 where "dict_loop buf (\<lambda>it. out_bind (bencode_dict_get_next buf it) ?g) be = Some (Inr (Inr it1))"
    using dict_text.loop_all [where f = "iterate_to_next buf" and g = ?g, OF points_to_dict [OF BDict(2)] iterate_encoded]
    unfolding dict_loop_def bencode_dict_get_next_def by blast
  then show ?case
    using points_to_kind [OF BDict(2)] unfolding be validate_cursor_eq
    by (simp add: validate_by_def validate_result_def)
qed

section \<open>Properties of the reader on text\<close>

lemma points_to_init:
  assumes "int (length (encode v)) \<le> INT_MAX"
  shows "points_to (encode v @ post) (bencode_init 0 (int (length (encode v)))) v"
  using assms text_at_here [of "[]" "encode v" post] by (auto simp: points_to_def)

text \<open>
  C30: the validator accepts every encoded value, with whatever comes after it in the buffer, and moving
  past the value ends exactly at its end.
\<close>

theorem validate_encoded:
  assumes "int (length (encode v)) \<le> INT_MAX"
  shows "bencode_validate (encode v @ post) (int (length (encode v))) = Some (Inr 0) \<and>
    iterate_to_next (encode v @ post) (bencode_init 0 (int (length (encode v)))) 0 =
      Some (Inr (Some (int (length (encode v)))))"
proof
  have "encode v \<noteq> []" by (rule encode_Cons [of v]) simp
  then show "bencode_validate (encode v @ post) (int (length (encode v))) = Some (Inr 0)"
    using points_to_validate [OF points_to_init [OF assms]] by (simp add: bencode_validate_def)
  have "covers (bencode_init 0 (int (length (encode v)))) 0 (int (length (encode v)))"
    using assms by (simp add: covers_def)
  then show "iterate_to_next (encode v @ post) (bencode_init 0 (int (length (encode v)))) 0 =
      Some (Inr (Some (int (length (encode v)))))"
    using iterate_encoded [of "encode v @ post" 0 v] text_at_here [of "[]" "encode v" post] by simp
qed

theorem validate_encoded_witness:
  "bencode_validate (''d1:ali-5e0:ee'' @ ''xyz'') 13 = Some (Inr 0)"
proof -
  have e: "encode (BDict [(''a'', BList [BInt (- 5), BStr []])]) = ''d1:ali-5e0:ee''" by code_simp
  show ?thesis
    using validate_encoded [of "BDict [(''a'', BList [BInt (- 5), BStr []])]" "''xyz''"] unfolding e
    by (simp add: INT_MAX_def)
qed

text \<open>
  C31: cursors are typed. On a cursor that points to an encoded value exactly the test for the value's
  kind succeeds, and reading it as this kind gives the value: an integer of 64 bits as it is, a
  string's characters and length, a list or dictionary as an iterator over all its items.
\<close>

theorem cursor_types:
  assumes "points_to buf be v"
  shows "bencode_is_int buf be = Inr (kind_of v = Int_Kind) \<and>
    bencode_is_string buf be = Inr (kind_of v = Str_Kind) \<and>
    bencode_is_list buf be = Inr (kind_of v = List_Kind) \<and>
    bencode_is_dict buf be = Inr (kind_of v = Dict_Kind) \<and>
    (case v of
       BInt i \<Rightarrow> bencode_int_value buf be = Inr (1, long_cast i)
     | BStr s \<Rightarrow> (\<exists>a. bencode_string_value buf be = Inr (Some a, int (length s)) \<and> text_at buf a s)
     | BList vs \<Rightarrow> list_at buf be (be_start be + int (length (encode v))) vs
     | BDict kvs \<Rightarrow> dict_at buf be (be_start be + int (length (encode v))) kvs)"
proof -
  obtain p l where be: "be = bencode_init p l" "text_at buf p (encode v)" "int (length (encode v)) \<le> l" "l \<le> INT_MAX"
    using assms by (auto simp: points_to_def)
  have "case v of
       BInt i \<Rightarrow> bencode_int_value buf be = Inr (1, long_cast i)
     | BStr s \<Rightarrow> (\<exists>a. bencode_string_value buf be = Inr (Some a, int (length s)) \<and> text_at buf a s)
     | BList vs \<Rightarrow> list_at buf be (be_start be + int (length (encode v))) vs
     | BDict kvs \<Rightarrow> dict_at buf be (be_start be + int (length (encode v))) kvs"
  proof (cases v)
    case (BInt i)
    then show ?thesis using be int_value_at by simp
  next
    case (BStr s)
    then have "text_at buf (p + int (length (dec (length s))) + 1) s"
      using be(2) by (simp add: encode_str_def add_ac)
    then show ?thesis using BStr be string_value_at [of buf p s l] by simp
  next
    case (BList vs)
    then show ?thesis using assms points_to_list by simp
  next
    case (BDict kvs)
    then show ?thesis using assms points_to_dict by simp
  qed
  then show ?thesis using points_to_kind [OF assms] by simp
qed

theorem cursor_types_witness:
  "bencode_int_value (''i-42e'') (bencode_init 0 5) = Inr (1, - 42) \<and>
   bencode_is_string (''i-42e'') (bencode_init 0 5) = Inr False"
proof -
  have e: "encode (BInt (- 42)) = ''i-42e''" by code_simp
  have "points_to (''i-42e'') (bencode_init 0 5) (BInt (- 42))"
    using points_to_init [of "BInt (- 42)" "[]"] unfolding e by (simp add: INT_MAX_def)
  from cursor_types [OF this] show ?thesis by (simp add: long_cast_def)
qed

text \<open>
  C32: the iterators give the items in their order. As long as there are items, \<open>has_next\<close> says so, and
  \<open>get_next\<close> succeeds with a cursor that points to the next value, for a dictionary also with the
  key and its length, and leaves the iterator at the rest; after the last item there is
  no next one.
\<close>

theorem iterators_in_order:
  "(dict_at buf it e [] \<longrightarrow> bencode_dict_has_next buf it = Inr False) \<and>
   (dict_at buf it e (kv # kvs) \<longrightarrow> bencode_dict_has_next buf it = Inr True \<and>
      (\<exists>y i. bencode_dict_get_next buf it = Some (Inr y) \<and> ni_ret y = 1 \<and> ni_item y = Some i \<and>
        points_to buf i (snd kv) \<and> key_is buf kv y \<and> dict_at buf (ni_be y) e kvs)) \<and>
   (list_at buf it e [] \<longrightarrow> (\<exists>it1. bencode_list_has_next buf it = Inr (False, it1))) \<and>
   (list_at buf it e (v # vs) \<longrightarrow> bencode_list_has_next buf it = Inr (True, it) \<and>
      (\<exists>y i. bencode_list_get_next buf it = Some (Inr y) \<and> ni_ret y = 1 \<and> ni_item y = Some i \<and>
        points_to buf i v \<and> list_at buf (ni_be y) e vs))"
proof (intro conjI impI)
  show "bencode_dict_has_next buf it = Inr False" if "dict_at buf it e []" using that by (rule dict_no_next)
  show "\<exists>it1. bencode_list_has_next buf it = Inr (False, it1)" if "list_at buf it e []"
    using that by (rule list_no_next) blast
qed (blast elim: dict_next_encoded list_next_encoded)+

theorem iterators_in_order_witness:
  "bencode_dict_has_next (''d1:ai7ee'') (bencode_init 0 8) = Inr True"
proof -
  have e: "encode (BDict [(''a'', BInt 7)]) = ''d1:ai7ee''" by code_simp
  have "points_to (''d1:ai7ee'') (bencode_init 0 8) (BDict [(''a'', BInt 7)])"
    using points_to_init [of "BDict [(''a'', BInt 7)]" "[]"] unfolding e by (simp add: INT_MAX_def)
  from points_to_dict [OF this] have "dict_at (''d1:ai7ee'') (bencode_init 0 8) 8 [(''a'', BInt 7)]"
    unfolding e by simp
  then show ?thesis using iterators_in_order [of "''d1:ai7ee''" "bencode_init 0 8" 8 "(''a'', BInt 7)" "[]" undefined "[]"]
    by blast
qed

section \<open>Text that is not well formed\<close>

text \<open>
  C40: the length of a string is read modulo \<open>2 ^ 32\<close>. With a written length \<open>n\<close> whose low 32 bits are a
  negative \<open>int\<close> the program stops at an assertion; otherwise they are taken as the length.
\<close>

theorem string_length_wraps:
  assumes "text_at buf p (dec n @ '':'')" "0 < l"
  shows "bencode_string_value buf (bencode_init p l) =
    (if int_cast (int n) < 0 then Inl AssertFailed
     else Inr (if int (length (dec n)) + 1 + int_cast (int n) > l then None
       else Some (p + int (length (dec n)) + 1), int_cast (int n)))"
proof -
  obtain m where m: "int_cast (int n) = m" by simp
  note eqs = bencode_string_value_def is_string_dec [OF assms(1), of l] read_string_len_dec [OF assms(1), unfolded m]
  show ?thesis
  proof (cases "m < 0")
    case True
    then show ?thesis by (simp add: eqs m)
  next
    case False
    then show ?thesis using assms(2) by (simp add: eqs m)
  qed
qed

theorem string_length_wraps_witness:
  "bencode_string_value (''4294967301:hello'') (bencode_init 0 16) = Inr (Some 11, 5) \<and>
   bencode_string_value (''2147483648:hello'') (bencode_init 0 16) = Inl AssertFailed"
proof -
  have d: "dec 4294967301 = ''4294967301''" "dec 2147483648 = ''2147483648''"
    by (simp_all add: dec.simps char_of_def bit_0)
  have "text_at (''4294967301:hello'') 0 (dec 4294967301 @ '':'')"
      "text_at (''2147483648:hello'') 0 (dec 2147483648 @ '':'')"
    unfolding d by code_simp+
  from this [THEN string_length_wraps [where l = 16]] show ?thesis unfolding d by (simp add: int_cast_def)
qed

text \<open>
  A value the validator has seen, then a string at the same level whose length is too large. The
  length a new cursor is given is counted from the current position and not from the start of
  the buffer, so the check of the second string is too generous by what came before it.
\<close>

lemma list_step:
  assumes "bencode_list_has_next buf it = Inr (True, it)" "bencode_list_get_next buf it = Some (Inr x)"
    and "validate_item v (- 1) x = Some (Inr (Inr (ni_be x)))"
  shows "list_loop buf (\<lambda>it. out_bind (bencode_list_get_next buf it) (validate_item v (- 1))) it =
    list_loop buf (\<lambda>it. out_bind (bencode_list_get_next buf it) (validate_item v (- 1))) (ni_be x)"
proof -
  have "out_bind (bencode_list_get_next buf it) (validate_item v (- 1)) = Some (Inr (Inr (ni_be x)))"
    by (simp only: assms(2,3) out_bind_simps)
  then show ?thesis
    unfolding list_loop_def by (rule while_loop_step [where c = "bencode_list_has_next buf" and s = it, OF assms(1)])
qed

text \<open>
  C38: the validator reads beyond its buffer. A list of two strings of which the second claims to be longer
  than what is left of the text, by no more than the text is long, passes every check of
  length; the list is then continued behind the claimed end, which is outside the memory
  unless that reaches further than the claim.
\<close>

theorem validator_overruns:
  assumes tdef: "src = ''l'' @ encode_str a @ dec n @ '':'' @ rest" and len: "int (length src) \<le> INT_MAX"
    and big: "length rest + length post \<le> n" and fits: "length (dec n) + 1 + n \<le> length src"
  shows "bencode_validate (src @ post) (int (length src)) = Some (Inl OutOfBounds)"
proof -
  define buf where "buf = src @ post"
  define L where "L = int (length src)"
  define st where "st = 1 + int (length (encode_str a))"
  define sp where "sp = st + int (length (dec n)) + 1"
  have L: "0 < L" "L \<le> INT_MAX" "L = sp + int (length rest)"
    using tdef len by (simp_all add: L_def sp_def st_def)
  have tx: "peek buf 0 = Inr CHR ''l''" "text_at buf 1 (encode_str a)" "text_at buf st (dec n @ '':'')"
    using text_at_here [of "[]" src post] by (simp_all add: buf_def tdef st_def add_ac)
  obtain c cs where c: "encode_str a = c # cs" "is_digit c" by (rule encode_str_Cons)
  obtain d ds where d: "dec n = d # ds" "is_digit d" by (rule dec_Cons)
  have pc: "peek buf 1 = Inr c" "peek buf st = Inr d" using tx c d by simp_all
  have n: "int_cast (int n) = int n" "sp + int n \<le> st + L"
    using fits L by (simp_all add: int_cast_id L_def sp_def)
  let ?it = "bencode_init 0 L" and ?it1 = "\<lparr>be_str = Some st, be_start = 0, be_len = L\<rparr>"
  let ?it2 = "\<lparr>be_str = Some (sp + int n), be_start = 0, be_len = L\<rparr>"
  let ?v = "validate_cursor buf"
  \<comment> \<open>the first string\<close>
  have cov: "covers ?it 1 (int (length (encode (BStr a))))" "int (length (encode_str a)) \<le> L - 1"
    using L by (simp_all add: covers_def sp_def st_def)
  have "int_cast (L - 1) = L - 1" using L by (intro int_cast_id) linarith+
  then have "list_get_next_by (iterate_to_next buf) buf ?it = Some (Inr \<lparr>ni_ret = 1, ni_be = ?it1,
      ni_item = Some (bencode_init 1 (L - 1)), ni_key = None, ni_klen = None\<rparr>)"
    using tx(1) pc(1) digit_neq [OF c(2)] L iterate_encoded [of buf 1 "BStr a" ?it] tx(2) cov(1)
    by (simp add: list_get_next_by_def Let_def carry_length_def st_def bencode_init_def)
  moreover have "points_to buf (bencode_init 1 (L - 1)) (BStr a)"
    using tx(2) cov(2) L unfolding points_to_def by (intro exI [of _ 1] exI [of _ "L - 1"]) simp
  ultimately have s1: "list_loop buf (\<lambda>it. out_bind (bencode_list_get_next buf it) (validate_item ?v (- 1))) ?it =
      list_loop buf (\<lambda>it. out_bind (bencode_list_get_next buf it) (validate_item ?v (- 1))) ?it1"
    using list_step [of buf ?it "\<lparr>ni_ret = 1, ni_be = ?it1, ni_item = Some (bencode_init 1 (L - 1)),
        ni_key = None, ni_klen = None\<rparr>" ?v] tx(1) pc(1) digit_neq [OF c(2)] points_to_validate
    by (simp add: bencode_list_has_next_def bencode_list_get_next_def validate_item_def)
  \<comment> \<open>the second string, whose cursor has the length of the whole src\<close>
  have val: "bencode_string_value buf (bencode_init st L) = Inr (Some sp, int n)"
    using string_length_wraps [OF tx(3), of L] n L by (simp add: sp_def)
  have str: "bencode_is_dict buf (bencode_init st L) = Inr False" "bencode_is_list buf (bencode_init st L) = Inr False"
    "bencode_is_string buf (bencode_init st L) = Inr True"
    using pc(2) digit_neq [OF d(2)] is_string_dec [OF tx(3)]
    by (simp_all add: bencode_is_dict_def bencode_is_list_def starts_with_def)
  have carry: "carry_length ?it1 st = Inr L" using L by (simp add: carry_length_def int_cast_id)
  have "iterate_to_next buf ?it1 st = Some (Inr (Some (sp + int n)))"
    using carry str val by (simp add: iterate_to_next_eq value_end_def string_end_def)
  then have "list_get_next_by (iterate_to_next buf) buf ?it1 = Some (Inr \<lparr>ni_ret = 1, ni_be = ?it2,
      ni_item = Some (bencode_init st L), ni_key = None, ni_klen = None\<rparr>)"
    using pc(2) digit_neq [OF d(2)] carry by (simp add: list_get_next_by_def Let_def)
  moreover have "?v (bencode_init st L) = Some (Inr 0)"
    using str val by (simp add: validate_cursor_eq validate_by_def)
  ultimately have s2: "list_loop buf (\<lambda>it. out_bind (bencode_list_get_next buf it) (validate_item ?v (- 1))) ?it1 =
      list_loop buf (\<lambda>it. out_bind (bencode_list_get_next buf it) (validate_item ?v (- 1))) ?it2"
    using list_step [of buf ?it1 "\<lparr>ni_ret = 1, ni_be = ?it2, ni_item = Some (bencode_init st L),
        ni_key = None, ni_klen = None\<rparr>" ?v] pc(2) digit_neq [OF d(2)]
    by (simp add: bencode_list_has_next_def bencode_list_get_next_def validate_item_def)
  \<comment> \<open>behind it\<close>
  have "peek buf (sp + int n) = Inl OutOfBounds"
    using big L by (simp add: peek_def buf_def L_def)
  then have s3: "list_loop buf b ?it2 = Some (Inl OutOfBounds)" for b :: "bencode \<Rightarrow> (int + bencode) outcome"
    unfolding list_loop_def by (intro while_loop_cond_fault) (simp add: bencode_list_has_next_def)
  have "bencode_is_dict buf ?it = Inr False" "bencode_is_list buf ?it = Inr True"
    using tx(1) by (simp_all add: bencode_is_dict_def bencode_is_list_def starts_with_def)
  then have "bencode_validate buf L = Some (Inl OutOfBounds)"
    using L(1) s1 s2 s3 by (simp add: bencode_validate_def validate_cursor_eq validate_by_def)
  then show ?thesis by (simp add: buf_def L_def)
qed

theorem validator_overruns_witness:
  "bencode_validate (''l1:a5:be'' @ ''xyz'') 8 = Some (Inl OutOfBounds)"
proof -
  have e: "encode_str ''a'' = ''1:a''" "dec 5 = ''5''" by code_simp+
  show ?thesis using validator_overruns [of "''l1:a5:be''" "''a''" 5 "''be''" "''xyz''"]
    unfolding e by (simp add: INT_MAX_def)
qed

text \<open>
  C39: a dictionary without its end is accepted. When the text breaks off after the value of a
  dictionary's item, the validator finds nothing wrong, provided that a zero follows in memory;
  without one it reads behind the buffer. The check that the terminator is there is compiled out.
\<close>

theorem unterminated_dict:
  assumes src: "src = ''d'' @ encode_str k @ encode v" and len: "int (length src) \<le> INT_MAX"
  shows "bencode_validate (src @ CHR 0x00 # post) (int (length src)) = Some (Inr 0) \<and>
    bencode_validate src (int (length src)) = Some (Inl OutOfBounds)"
proof -
  have run: "bencode_validate (src @ post) (int (length src)) =
      (if post = [] then Some (Inl OutOfBounds) else Some (Inr 0))" if hd: "post = [] \<or> hd post = CHR 0x00" for post
  proof -
    define buf where "buf = src @ post"
    define L where "L = int (length src)"
    define sp where "sp = 1 + int (length (encode_str k))"
    have L: "0 < L" "L \<le> INT_MAX" "L = sp + int (length (encode v))"
      using src len by (simp_all add: L_def sp_def)
    have tx: "peek buf 0 = Inr CHR ''d''" "text_at buf 1 (encode_str k)" "text_at buf sp (encode v)"
      using text_at_here [of "[]" src post] by (simp_all add: buf_def src sp_def)
    obtain c cs where c: "encode_str k = c # cs" "is_digit c" by (rule encode_str_Cons)
    obtain cv csv where cv: "encode v = cv # csv" by (rule encode_Cons)
    have pc: "peek buf 1 = Inr c" using tx(2) c by simp
    let ?it = "bencode_init 0 L" and ?it1 = "\<lparr>be_str = Some L, be_start = 0, be_len = L\<rparr>"
    let ?g = "validate_item (validate_cursor buf) 0"
    have cov: "covers ?it sp (int (length (encode v)))" using L by (simp add: covers_def sp_def)
    then obtain l where l: "carry_length ?it sp = Inr l" "int (length (encode v)) \<le> l" "l \<le> INT_MAX"
      using carry_covers cv by (metis length_greater_0_conv list.distinct(1) of_nat_0_less_iff)
    have i: "iterate_to_next buf ?it sp = Some (Inr (Some L))"
      using iterate_encoded [OF tx(3) cov] L(3) by simp
    have small: "int (length k) \<le> INT_MAX" using L by (simp add: sp_def encode_str_def)
    let ?kp = "1 + int (length (dec (length k))) + 1"
    have key: "read_string_len buf 1 = Inr (Some (?kp, int (length k)))" "?kp + int (length k) = sp"
      using read_string_len_dec [of buf 1 "length k"] tx(2) small int_cast_id [of "int (length k)"]
      by (simp_all add: encode_str_def sp_def)
    let ?y = "\<lparr>ni_ret = 1, ni_be = ?it1, ni_item = Some (bencode_init sp l), ni_key = Some ?kp,
      ni_klen = Some (int (length k))\<rparr>"
    have nx: "bencode_dict_get_next buf ?it = Some (Inr ?y)"
      using tx(1) pc digit_neq [OF c(2)] key l(1) i
      by (simp add: bencode_dict_get_next_def dict_get_next_by_def Let_def bencode_init_def)
    have "points_to buf (bencode_init sp l) v" using tx(3) l unfolding points_to_def by blast
    then have body: "out_bind (bencode_dict_get_next buf ?it) ?g = Some (Inr (Inr ?it1))"
      using nx by (simp add: validate_item_def points_to_validate)
    have "2 \<le> L" using L cv c by (simp add: sp_def)
    then have "bencode_dict_has_next buf ?it = Inr True"
      using tx(1) pc digit_neq [OF c(2)] by (simp add: bencode_dict_has_next_def)
    then have "dict_loop buf (\<lambda>it. out_bind (bencode_dict_get_next buf it) ?g) ?it =
        dict_loop buf (\<lambda>it. out_bind (bencode_dict_get_next buf it) ?g) ?it1"
      using body unfolding dict_loop_def by (intro while_loop_step) simp_all
    also have "\<dots> = (if post = [] then Some (Inl OutOfBounds) else Some (Inr (Inr ?it1)))"
    proof (cases post)
      case Nil
      then show ?thesis unfolding dict_loop_def
        by (simp, intro while_loop_cond_fault) (simp add: bencode_dict_has_next_def peek_def buf_def L_def)
    next
      case (Cons a as)
      then show ?thesis using hd unfolding dict_loop_def
        by (simp, intro while_loop_stop) (simp add: bencode_dict_has_next_def peek_def buf_def L_def nth_append)
    qed
    finally show ?thesis
      using L(1) tx(1) unfolding buf_def [symmetric] L_def [symmetric]
      by (simp add: bencode_validate_def validate_cursor_eq validate_by_def bencode_is_dict_def starts_with_def
          validate_result_def)
  qed
  show ?thesis using run [of "CHR 0x00 # post"] run [of "[]"] by simp
qed

theorem unterminated_dict_witness:
  "bencode_validate (''d1:ai7e'' @ [CHR 0x00]) 7 = Some (Inr 0)"
proof -
  have e: "encode_str ''a'' = ''1:a''" "encode (BInt 7) = ''i7e''" by code_simp+
  show ?thesis using unterminated_dict [of "''d1:ai7e''" "''a''" "BInt 7" "[]"]
    unfolding e by (simp add: INT_MAX_def)
qed

text \<open>
  Start and length of a dictionary. On a cursor that points to an encoded dictionary the function
  gives the position and the length of its text, except for the empty dictionary, whose length
  it gives as 1 instead of 2.
\<close>

lemma dict_start_and_len:
  assumes "points_to buf be (BDict kvs)"
  shows "bencode_dict_get_start_and_len buf be =
    Some (Inr (be_start be, if kvs = [] then 1 else int (length (encode (BDict kvs)))))"
proof -
  let ?n = "int (length (encode (BDict kvs)))"
  let ?g = "\<lambda>x. Some (Inr (Inr (ni_be x))) :: (unit + bencode) outcome"
  have at0: "dict_at buf be (be_start be + ?n) kvs" using assms by (rule points_to_dict)
  obtain p l where be: "be = bencode_init p l" "?n \<le> l" "l \<le> INT_MAX"
    using assms by (auto simp: points_to_def)
  note eqs = bencode_dict_get_start_and_len_def bencode_clone_def be(1)
  obtain it where it: "dict_loop buf (\<lambda>it. out_bind (bencode_dict_get_next buf it) ?g) be = Some (Inr (Inr it))"
      "dict_at buf it (be_start be + ?n) []"
    using dict_text.loop_all [where f = "iterate_to_next buf" and g = ?g, OF at0 iterate_encoded]
    by (auto simp: dict_loop_def bencode_dict_get_next_def dict_cond)
  show ?thesis
  proof (cases kvs)
    case Nil
    then have "dict_loop buf (\<lambda>it. out_bind (bencode_dict_get_next buf it) ?g) be = Some (Inr (Inr be))"
      using dict_no_next at0 unfolding dict_loop_def by (intro while_loop_stop) simp
    then show ?thesis using Nil by (simp add: eqs int_cast_def)
  next
    case (Cons kv kvs')
    have past: "be_str it \<noteq> Some p"
    proof -
      define P where "P = (\<lambda>b. in_dict buf b \<and> be_start b = p \<and> be_str b \<noteq> Some p)"
      obtain y where y: "bencode_dict_has_next buf be = Inr True" "bencode_dict_get_next buf be = Some (Inr y)"
        using at0 Cons by (auto elim: dict_next_encoded)
      have step: "P (ni_be x)"
        if b: "in_dict buf b" "be_start b = p" "bencode_dict_has_next buf b = Inr True"
          "bencode_dict_get_next buf b = Some (Inr x)" for b x
        using dict_it.next_item [OF iterate_to_next_forward b(1), where x = x] dict_it.next_inside [OF iterate_to_next_forward b(1), where x = x]
          b(2-4) by (fastforce simp: P_def dict_cond bencode_dict_get_next_def)
      have "while_loop (\<lambda>it. res_bind (bencode_dict_has_next buf it) (\<lambda>go. Inr (go, it)))
          (\<lambda>it. out_bind (bencode_dict_get_next buf it) ?g) (ni_be y) = Some (Inr (Inr it))"
        using it(1) y by (simp add: dict_loop_def while_loop_step [of _ be be])
      moreover have "P (ni_be y)"
        by (rule step [OF items_at_inside [OF TrueI at0] _ y]) (simp add: be(1))
      ultimately have "P it"
        by (rule while_loop_end [where I = P]) (use step in \<open>auto simp: P_def dict_cond out_bind_Inr\<close>)
      then show ?thesis by (simp add: P_def)
    qed
    have "be_start it = p"
      using dict_it.loop_inside [OF iterate_to_next_forward items_at_inside [OF TrueI at0], where g = ?g] it(1) be(1)
      by (auto simp: dict_loop_def bencode_dict_get_next_def)
    then have "be_str it = Some (p + ?n - 1)" using it(2) past be(1) by (auto simp: items_at_def)
    moreover have "int_cast ?n = ?n" using be by (intro int_cast_id) simp_all
    ultimately show ?thesis using it(1) Cons by (simp add: eqs)
  qed
qed

end
