(* ===== verification/Metainfo_File.thy ===== *)
theory Metainfo_File
  imports BtWire Bencode_Text
begin

text \<open>
  Reading the metainfo file in \<open>btclient/bt_lib.c\<close>: \<open>parse_metainfo_file\<close> and \<open>parse_metainfo\<close>, which
  walk through the file's dictionaries with the bencode reader and copy what they know into
  \<open>metainfo_t\<close>. The SHA-1 of OpenSSL and the blocks \<open>malloc\<close> returns are parameters.
\<close>

section \<open>C strings\<close>

text \<open>
  A block of characters; \<^term>\<open>None\<close> is one that was never written. The blocks \<open>malloc\<close> returns are a
  parameter: for every size asked for, the block with what it happens to hold. It has at least this
  size, and often a few characters more.
\<close>

type_synonym block = "char option list"

type_synonym allocator = "int \<Rightarrow> block"

text \<open>The characters \<open>strncpy\<close> copies: up to \<open>n\<close>, and none from a zero on.\<close>

primrec c_chars :: "string \<Rightarrow> int \<Rightarrow> nat \<Rightarrow> fault + string" where
  "c_chars buf p 0 = Inr []"
| "c_chars buf p (Suc n) = res_bind (peek buf p) (\<lambda>c.
     if c = CHR 0x00 then Inr [] else res_bind (c_chars buf (p + 1) n) (\<lambda>cs. Inr (c # cs)))"

text \<open>\<open>strncpy\<close> of \<open>n\<close> characters to the front of a block.\<close>

definition strncpy_to :: "block \<Rightarrow> string \<Rightarrow> int \<Rightarrow> int \<Rightarrow> fault + block" where
  "strncpy_to dst buf src n = res_bind (c_chars buf src (nat n)) (\<lambda>cs.
     if n > int (length dst) then Inl OutOfBounds
     else Inr (map Some cs @ replicate (nat n - length cs) (Some (CHR 0x00)) @ drop (nat n) dst))"

text \<open>\<open>memcpy\<close> of \<open>n\<close> characters of the buffer.\<close>

definition copy_chars :: "string \<Rightarrow> int \<Rightarrow> int \<Rightarrow> fault + string" where
  "copy_chars buf p n =
     (if 0 \<le> p \<and> 0 \<le> n \<and> p + n \<le> int (length buf) then Inr (take (nat n) (drop (nat p) buf)) else Inl OutOfBounds)"

section \<open>The structures\<close>

text \<open>The fields of \<open>metainfo_t\<close> and \<open>metainfo_info_t\<close> in use; \<^term>\<open>None\<close> until they are assigned.\<close>

record torrent_file =
  tf_announce :: "block option"
  tf_infohash :: "byte list option"
  tf_piece_length :: "int option"
  tf_piece_hashes :: "block option"
  tf_filename :: "block option"
  tf_file_length :: "int option"
  tf_num_pieces :: "int option"

definition empty_torrent_file :: torrent_file where
  "empty_torrent_file = \<lparr>tf_announce = None, tf_infohash = None, tf_piece_length = None, tf_piece_hashes = None,
     tf_filename = None, tf_file_length = None, tf_num_pieces = None\<rparr>"

section \<open>Entries\<close>

text \<open>
  A string value copied to a fresh block of its length, as for \<open>announce\<close>, \<open>pieces\<close> and \<open>name\<close>; the
  return value of \<open>bencode_string_value\<close> is ignored.
\<close>

definition copy_string :: "allocator \<Rightarrow> string \<Rightarrow> bencode \<Rightarrow> fault + (block \<times> int)" where
  "copy_string malloc buf value = res_bind (bencode_string_value buf value) (\<lambda>(str, len).
     case str of
       None \<Rightarrow> Inl NullPointer
     | Some s \<Rightarrow> res_bind (strncpy_to (malloc len) buf s len) (\<lambda>b. Inr (b, len)))"

text \<open>
  One round of the loops over a dictionary: the item and the key, the key as a C string, and the
  call of \<open>parse_metainfo\<close>. What \<open>get_next\<close> did not assign is used all the same.
\<close>

definition entry ::
  "(torrent_file \<Rightarrow> bencode \<Rightarrow> string \<Rightarrow> torrent_file outcome) \<Rightarrow> string \<Rightarrow> torrent_file \<Rightarrow> next_item \<Rightarrow>
   (torrent_file + torrent_file \<times> bencode) outcome" where
  "entry parse buf mi x =
     (case (ni_item x, ni_key x, ni_klen x) of
        (Some value, Some key, Some klen) \<Rightarrow>
          out_bind (Some (c_chars buf key (nat klen))) (\<lambda>k.
            out_bind (parse mi value k) (\<lambda>mi'. Some (Inr (Inr (mi', ni_be x)))))
      | _ \<Rightarrow> Some (Inl Uninitialised))"

definition entries_loop ::
  "(torrent_file \<Rightarrow> bencode \<Rightarrow> string \<Rightarrow> torrent_file outcome) \<Rightarrow> string \<Rightarrow> torrent_file \<times> bencode \<Rightarrow> torrent_file outcome" where
  "entries_loop parse buf s =
     out_bind (while_loop (\<lambda>(mi, it). res_bind (bencode_dict_has_next buf it) (\<lambda>go. Inr (go, mi, it)))
         (\<lambda>(mi, it). out_bind (bencode_dict_get_next buf it) (entry parse buf mi)) s)
       (\<lambda>y. Some (Inr (case y of Inl mi \<Rightarrow> mi | Inr (mi, it) \<Rightarrow> mi)))"

text \<open>The conversion of a quotient by zero has no defined result, and neither has an unset field.\<close>

definition pieces_of :: "torrent_file \<Rightarrow> int option" where
  "pieces_of mi = (case (tf_file_length mi, tf_piece_length mi) of
     (Some fl, Some pl) \<Rightarrow> if pl = 0 then None else Some (count_pieces fl pl) | _ \<Rightarrow> None)"

definition parse_by ::
  "(torrent_file \<Rightarrow> bencode \<Rightarrow> string \<Rightarrow> torrent_file outcome) \<Rightarrow> allocator \<Rightarrow> (string \<Rightarrow> byte list) \<Rightarrow>
   string \<Rightarrow> torrent_file \<Rightarrow> bencode \<Rightarrow> string \<Rightarrow> torrent_file outcome" where
  "parse_by parse malloc sha1 buf mi value key =
     (if key = ''announce'' then
        Some (res_bind (copy_string malloc buf value) (\<lambda>(b, len).
          if len < int (length b) then Inr (mi\<lparr>tf_announce := Some (b[nat len := Some (CHR 0x00)])\<rparr>)
          else Inl OutOfBounds))
      else if key = ''info'' then
        out_bind (bencode_dict_get_start_and_len buf value) (\<lambda>(start, len).
          out_bind (Some (copy_chars buf start len)) (\<lambda>dict_str.
            out_bind (entries_loop parse buf (mi\<lparr>tf_infohash := Some (sha1 dict_str)\<rparr>, value)) (\<lambda>mi.
              Some (Inr (mi\<lparr>tf_num_pieces := pieces_of mi\<rparr>)))))
      else if key = ''piece length'' then
        Some (res_bind (bencode_int_value buf value) (\<lambda>(ret, plen). Inr (mi\<lparr>tf_piece_length := Some (int_cast plen)\<rparr>)))
      else if key = ''pieces'' then
        Some (res_bind (copy_string malloc buf value) (\<lambda>(b, len). Inr (mi\<lparr>tf_piece_hashes := Some b\<rparr>)))
      else if key = ''name'' then
        Some (res_bind (copy_string malloc buf value) (\<lambda>(b, len). Inr (mi\<lparr>tf_filename := Some b\<rparr>)))
      else if key = ''length'' then
        Some (res_bind (bencode_int_value buf value) (\<lambda>(ret, plen). Inr (mi\<lparr>tf_file_length := Some (int_cast plen)\<rparr>)))
      else Some (Inr mi))"

text \<open>The recursion, for \<open>n\<close> levels of dictionaries called \<open>info\<close>.\<close>

primrec parse_fuel ::
  "nat \<Rightarrow> allocator \<Rightarrow> (string \<Rightarrow> byte list) \<Rightarrow> string \<Rightarrow> torrent_file \<Rightarrow> bencode \<Rightarrow> string \<Rightarrow> torrent_file outcome" where
  "parse_fuel 0 malloc sha1 buf = (\<lambda>mi value key. None)"
| "parse_fuel (Suc n) malloc sha1 buf = parse_by (parse_fuel n malloc sha1 buf) malloc sha1 buf"

definition parse_metainfo ::
  "allocator \<Rightarrow> (string \<Rightarrow> byte list) \<Rightarrow> string \<Rightarrow> torrent_file \<Rightarrow> bencode \<Rightarrow> string \<Rightarrow> torrent_file outcome" where
  "parse_metainfo malloc sha1 buf = parse_fuel (length buf + 1) malloc sha1 buf"

section \<open>The file\<close>

text \<open>The loop that reads the file in portions of 1024 bytes into a block of \<open>cap\<close>.\<close>

function read_loop :: "int \<Rightarrow> string \<Rightarrow> string \<Rightarrow> fault + string" where
  "read_loop cap rest acc =
     (if rest = [] then Inr acc
      else if int (length acc) + int (length (take 1024 rest)) \<le> cap
        then read_loop cap (drop 1024 rest) (acc @ take 1024 rest)
        else Inl OutOfBounds)"
  by pat_completeness auto
termination
  by (relation "measure (\<lambda>(cap, rest, acc). length rest)") auto

declare read_loop.simps [simp del]

text \<open>
  The content of the file, \<^term>\<open>None\<close> when it cannot be opened, and the size \<open>stat\<close> gives. The result
  \<^term>\<open>None\<close> is \<open>exit(0)\<close>.
\<close>

definition parse_metainfo_file ::
  "allocator \<Rightarrow> (string \<Rightarrow> byte list) \<Rightarrow> int \<Rightarrow> string option \<Rightarrow> torrent_file option outcome" where
  "parse_metainfo_file malloc sha1 st_size file =
     (case file of
        None \<Rightarrow> Some (Inr None)
      | Some content \<Rightarrow>
          out_bind (Some (read_loop (int (length (malloc (int_cast (st_size + 1))))) content [])) (\<lambda>metainfo_buffer.
            if int (length metainfo_buffer) \<ge> int (length (malloc (int_cast (st_size + 1)))) then Some (Inl OutOfBounds)
            else let buf = metainfo_buffer @ [CHR 0x00];
                     bendata = bencode_init 0 (int (length metainfo_buffer))
            in out_bind (entries_loop (parse_metainfo malloc sha1 buf) buf (empty_torrent_file, bendata)) (\<lambda>mi.
                 Some (Inr (Some mi)))))"

section \<open>What the entries of a dictionary mean\<close>

text \<open>A key as \<open>strcmp\<close> sees it, and the block a string value ends up in.\<close>

definition c_str :: "string \<Rightarrow> string" where
  "c_str s = takeWhile (\<lambda>c. c \<noteq> CHR 0x00) s"

definition string_block :: "allocator \<Rightarrow> string \<Rightarrow> block" where
  "string_block malloc s = map Some (c_str s) @ replicate (length s - length (c_str s)) (Some (CHR 0x00)) @
     drop (length s) (malloc (int (length s)))"

lemma c_chars_at: "text_at buf p s \<Longrightarrow> c_chars buf p (length s) = Inr (c_str s)"
  by (induction s arbitrary: p) (simp_all add: c_str_def)

lemma copy_string_at:
  assumes "points_to buf value (BStr s)" "length s \<le> length (malloc (int (length s)))"
  shows "copy_string malloc buf value = Inr (string_block malloc s, int (length s))"
proof -
  obtain a where a: "bencode_string_value buf value = Inr (Some a, int (length s))" "text_at buf a s"
  proof -
    obtain p l where v: "value = bencode_init p l" "text_at buf p (encode_str s)"
        "int (length (encode_str s)) \<le> l" "l \<le> INT_MAX"
      using assms(1) by (auto simp: points_to_def)
    moreover have "text_at buf (p + int (length (dec (length s))) + 1) s"
      using v(2) by (simp add: encode_str_def add_ac)
    ultimately show ?thesis using that string_value_at by blast
  qed
  have "c_chars buf a (length s) = Inr (c_str s)" using a(2) by (rule c_chars_at)
  then show ?thesis
    using a(1) assms(2) by (simp add: copy_string_def strncpy_to_def string_block_def)
qed

lemma int_value_points_to:
  assumes "points_to buf value (BInt i)"
  shows "bencode_int_value buf value = Inr (1, long_cast i)"
  using assms int_value_at by (auto simp: points_to_def)

text \<open>A loop over an encoded dictionary does to the structure what its entries say, one after another.\<close>

primrec fold_res :: "('a \<Rightarrow> 'b \<Rightarrow> fault + 'b) \<Rightarrow> 'a list \<Rightarrow> 'b \<Rightarrow> fault + 'b" where
  "fold_res f [] b = Inr b"
| "fold_res f (x # xs) b = res_bind (f x b) (fold_res f xs)"

lemma fold_res_filter:
  "(\<And>x b. x \<in> set xs \<Longrightarrow> \<not> P x \<Longrightarrow> f x b = Inr b) \<Longrightarrow> fold_res f xs b = fold_res f (filter P xs) b"
proof (induction xs arbitrary: b)
  case Nil
  then show ?case by simp
next
  case (Cons x xs)
  show ?case
  proof (cases "P x")
    case True
    then show ?thesis using Cons by (cases "f x b") simp_all
  next
    case False
    then show ?thesis using Cons by simp
  qed
qed

lemma entries_loop_encoded:
  assumes "dict_at buf it e kvs"
    and "\<And>kv value mi. kv \<in> set kvs \<Longrightarrow> points_to buf value (snd kv) \<Longrightarrow>
      parse mi value (c_str (fst kv)) = Some (step kv mi)"
  shows "entries_loop parse buf (mi, it) = Some (fold_res step kvs mi)"
  using assms
proof (induction kvs arbitrary: it mi)
  case Nil
  then show ?case using dict_no_next by (simp add: entries_loop_def while_loop_stop)
next
  case (Cons kv kvs)
  let ?c = "\<lambda>(mi, it). res_bind (bencode_dict_has_next buf it) (\<lambda>go. Inr (go, mi, it))"
  let ?b = "\<lambda>(mi, it). out_bind (bencode_dict_get_next buf it) (entry parse buf mi)"
  obtain y i where y: "bencode_dict_has_next buf it = Inr True" "bencode_dict_get_next buf it = Some (Inr y)"
      "ni_item y = Some i" "points_to buf i (snd kv)" "key_is buf kv y" "dict_at buf (ni_be y) e kvs"
    using Cons.prems(1) by (rule dict_next_encoded)
  obtain a where a: "ni_key y = Some a" "ni_klen y = Some (int (length (fst kv)))" "text_at buf a (fst kv)"
    using y(5) by (auto simp: key_is_def)
  have c: "?c (mi, it) = Inr (True, mi, it)" using y(1) by simp
  have p: "parse mi i (c_str (fst kv)) = Some (step kv mi)" using y(4) by (intro Cons.prems(2)) simp_all
  show ?case
  proof (cases "step kv mi")
    case (Inl f)
    then have "?b (mi, it) = Some (Inl f)" using y(2,3) a c_chars_at p by (simp add: entry_def)
    then show ?thesis
      using while_loop_fault [where c = ?c and b = ?b, OF c] Inl by (simp add: entries_loop_def)
  next
    case (Inr mi')
    then have "?b (mi, it) = Some (Inr (Inr (mi', ni_be y)))" using y(2,3) a c_chars_at p by (simp add: entry_def)
    then have "entries_loop parse buf (mi, it) = entries_loop parse buf (mi', ni_be y)"
      using while_loop_step [where c = ?c and b = ?b, OF c] by (simp add: entries_loop_def)
    then show ?thesis using Cons.IH [OF y(6)] Cons.prems(2) Inr by simp
  qed
qed

text \<open>
  The meaning of an entry on the abstract values. Entries of other names, and of the known names with
  a value of another kind, are not considered here.
\<close>

definition known :: "string list" where
  "known = [''announce'', ''info'', ''piece length'', ''pieces'', ''name'', ''length'']"

definition entry_known :: "string \<times> bvalue \<Rightarrow> bool" where
  "entry_known kv \<longleftrightarrow> c_str (fst kv) \<in> set known"

definition leaf_entry :: "allocator \<Rightarrow> string \<times> bvalue \<Rightarrow> torrent_file \<Rightarrow> fault + torrent_file" where
  "leaf_entry malloc kv mi =
     (case snd kv of
        BInt i \<Rightarrow>
          if c_str (fst kv) = ''piece length'' then Inr (mi\<lparr>tf_piece_length := Some (int_cast (long_cast i))\<rparr>)
          else if c_str (fst kv) = ''length'' then Inr (mi\<lparr>tf_file_length := Some (int_cast (long_cast i))\<rparr>)
          else Inr mi
      | BStr s \<Rightarrow>
          if c_str (fst kv) = ''announce'' then
            (if length s < length (malloc (int (length s)))
             then Inr (mi\<lparr>tf_announce := Some ((string_block malloc s)[length s := Some (CHR 0x00)])\<rparr>)
             else Inl OutOfBounds)
          else if c_str (fst kv) = ''pieces'' then Inr (mi\<lparr>tf_piece_hashes := Some (string_block malloc s)\<rparr>)
          else if c_str (fst kv) = ''name'' then Inr (mi\<lparr>tf_filename := Some (string_block malloc s)\<rparr>)
          else Inr mi
      | _ \<Rightarrow> Inr mi)"

definition leaf_typed :: "string \<times> bvalue \<Rightarrow> bool" where
  "leaf_typed kv \<longleftrightarrow>
     (c_str (fst kv) \<in> {''piece length'', ''length''} \<longrightarrow> kind_of (snd kv) = Int_Kind) \<and>
     (c_str (fst kv) \<in> {''announce'', ''pieces'', ''name''} \<longrightarrow> kind_of (snd kv) = Str_Kind) \<and>
     c_str (fst kv) \<noteq> ''info''"

lemma leaf_entry_unknown: "\<not> entry_known kv \<Longrightarrow> leaf_entry malloc kv mi = Inr mi"
  by (auto simp: entry_known_def known_def leaf_entry_def split: bvalue.splits)

lemma parse_leaf:
  assumes "points_to buf value (snd kv)" "leaf_typed kv" "\<And>n. n \<le> int (length (malloc n))"
  shows "parse_by parse malloc sha1 buf mi value (c_str (fst kv)) = Some (leaf_entry malloc kv mi)"
proof (cases "snd kv")
  case (BInt i)
  then have "points_to buf value (BInt i)" using assms(1) by simp
  then show ?thesis
    using BInt assms(2) by (auto simp: parse_by_def leaf_entry_def leaf_typed_def int_value_points_to)
next
  case (BStr s)
  have fits: "length s \<le> length (malloc (int (length s)))" using assms(3) [of "int (length s)"] by simp
  have "copy_string malloc buf value = Inr (string_block malloc s, int (length s))"
    using assms(1) BStr fits by (intro copy_string_at) simp_all
  moreover have "length (string_block malloc s) = length (malloc (int (length s)))"
  proof -
    have "length (c_str s) \<le> length s" by (simp add: c_str_def length_takeWhile_le)
    then show ?thesis using fits by (simp add: string_block_def)
  qed
  ultimately show ?thesis
    using BStr assms(2) by (auto simp: parse_by_def leaf_entry_def leaf_typed_def)
next
  case (BList vs)
  then show ?thesis using assms(2) by (auto simp: parse_by_def leaf_entry_def leaf_typed_def)
next
  case (BDict kvs)
  then show ?thesis using assms(2) by (auto simp: parse_by_def leaf_entry_def leaf_typed_def)
qed

definition info_entry ::
  "allocator \<Rightarrow> (string \<Rightarrow> byte list) \<Rightarrow> (string \<times> bvalue) list \<Rightarrow> torrent_file \<Rightarrow> fault + torrent_file" where
  "info_entry malloc sha1 info mi =
     res_bind (fold_res (leaf_entry malloc) info (mi\<lparr>tf_infohash := Some (sha1 (encode (BDict info)))\<rparr>))
       (\<lambda>mi. Inr (mi\<lparr>tf_num_pieces := pieces_of mi\<rparr>))"

definition top_entry ::
  "allocator \<Rightarrow> (string \<Rightarrow> byte list) \<Rightarrow> string \<times> bvalue \<Rightarrow> torrent_file \<Rightarrow> fault + torrent_file" where
  "top_entry malloc sha1 kv mi =
     (if c_str (fst kv) = ''info''
      then (case snd kv of BDict info \<Rightarrow> info_entry malloc sha1 info mi | _ \<Rightarrow> Inr mi)
      else leaf_entry malloc kv mi)"

definition top_typed :: "string \<times> bvalue \<Rightarrow> bool" where
  "top_typed kv \<longleftrightarrow>
     (if c_str (fst kv) = ''info''
      then (\<exists>info. snd kv = BDict info \<and> info \<noteq> [] \<and> list_all leaf_typed info)
      else leaf_typed kv)"

lemma text_at_take:
  "text_at buf p s \<Longrightarrow> s \<noteq> [] \<Longrightarrow>
   0 \<le> p \<and> nat p + length s \<le> length buf \<and> take (length s) (drop (nat p) buf) = s"
proof (induction s arbitrary: p)
  case Nil
  then show ?case by simp
next
  case (Cons c cs)
  then have p: "0 \<le> p" "nat p < length buf" "buf ! nat p = c" by (auto simp: peek_Inr)
  have n: "nat (p + 1) = Suc (nat p)" using p(1) by simp
  have d: "drop (nat p) buf = c # drop (Suc (nat p)) buf" using Cons_nth_drop_Suc [OF p(2)] p(3) by simp
  show ?case
  proof (cases "cs = []")
    case True
    then show ?thesis using p d by simp
  next
    case False
    then show ?thesis using Cons.IH [of "p + 1"] Cons.prems p d by (simp add: n)
  qed
qed

lemma copy_chars_at: "text_at buf p s \<Longrightarrow> s \<noteq> [] \<Longrightarrow> copy_chars buf p (int (length s)) = Inr s"
  using text_at_take [of buf p s] by (auto simp: copy_chars_def)

lemma parse_info:
  assumes "points_to buf value (BDict info)" "info \<noteq> []" "list_all leaf_typed info" "\<And>n. n \<le> int (length (malloc n))"
  shows "parse_by (parse_fuel (Suc n) malloc sha1 buf) malloc sha1 buf mi value ''info'' =
    Some (info_entry malloc sha1 info mi)"
proof -
  let ?mi = "mi\<lparr>tf_infohash := Some (sha1 (encode (BDict info)))\<rparr>"
  have "text_at buf (be_start value) (encode (BDict info))" using assms(1) by (auto simp: points_to_def)
  then have c: "copy_chars buf (be_start value) (int (length (encode (BDict info)))) = Inr (encode (BDict info))"
    by (rule copy_chars_at) simp
  have "parse_fuel (Suc n) malloc sha1 buf mi i (c_str (fst kv)) = Some (leaf_entry malloc kv mi)"
    if "kv \<in> set info" "points_to buf i (snd kv)" for kv i mi
    using parse_leaf [OF that(2) _ assms(4)] that(1) assms(3) by (simp add: list_all_iff)
  then have l: "entries_loop (parse_fuel (Suc n) malloc sha1 buf) buf (?mi, value) = Some (fold_res (leaf_entry malloc) info ?mi)"
    using points_to_dict [OF assms(1)] by (intro entries_loop_encoded)
  show ?thesis
    using dict_start_and_len [OF assms(1)] assms(2) c l
    by (cases "fold_res (leaf_entry malloc) info ?mi") (simp_all add: parse_by_def info_entry_def)
qed

lemma read_loop_all: "int (length acc + length rest) \<le> cap \<Longrightarrow> read_loop cap rest acc = Inr (acc @ rest)"
proof (induction cap rest acc rule: read_loop.induct)
  case (1 cap rest acc)
  show ?case
  proof (cases "rest = []")
    case True
    then show ?thesis by (simp add: read_loop.simps)
  next
    case False
    have fits: "int (length acc) + int (length (take 1024 rest)) \<le> cap" using "1.prems" by simp
    have "read_loop cap (drop 1024 rest) (acc @ take 1024 rest) = Inr ((acc @ take 1024 rest) @ drop 1024 rest)"
      using "1.prems" by (intro "1.IH" [OF False fits]) simp
    then show ?thesis using False fits by (subst read_loop.simps) simp
  qed
qed

text \<open>Reading a file that is an encoded dictionary means its entries.\<close>

lemma parse_file_encoded:
  assumes "list_all top_typed kvs" "\<And>n. n \<le> int (length (malloc n))" "int (length (encode (BDict kvs))) < INT_MAX"
  shows "parse_metainfo_file malloc sha1 (int (length (encode (BDict kvs)))) (Some (encode (BDict kvs))) =
    Some (res_bind (fold_res (top_entry malloc sha1) kvs empty_torrent_file) (\<lambda>mi. Inr (Some mi)))"
proof -
  let ?content = "encode (BDict kvs)"
  let ?n = "int (length ?content)"
  define buf where "buf = ?content @ [CHR 0x00]"
  have cap: "?n + 1 \<le> int (length (malloc (int_cast (?n + 1))))"
    using assms(2) [of "?n + 1"] assms(3) by (simp add: int_cast_id)
  then have rd: "read_loop (int (length (malloc (int_cast (?n + 1))))) ?content [] = Inr ?content"
    using read_loop_all [of "[]" ?content] by simp
  have pts: "points_to buf (bencode_init 0 ?n) (BDict kvs)"
    unfolding buf_def using assms(3) by (intro points_to_init) linarith
  obtain n where fuel: "length buf + 1 = Suc (Suc n)" by (simp add: buf_def)
  have "parse_metainfo malloc sha1 buf mi i (c_str (fst kv)) = Some (top_entry malloc sha1 kv mi)"
    if kv: "kv \<in> set kvs" "points_to buf i (snd kv)" for kv i mi
  proof -
    have ty: "top_typed kv" using assms(1) kv(1) by (simp add: list_all_iff)
    show ?thesis
    proof (cases "c_str (fst kv) = ''info''")
      case True
      then obtain info where info: "snd kv = BDict info" "info \<noteq> []" "list_all leaf_typed info"
        using ty by (auto simp: top_typed_def)
      then show ?thesis
        using parse_info [OF _ info(2,3) assms(2), of buf i n sha1 mi] kv(2) True
        unfolding parse_metainfo_def fuel by (simp add: top_entry_def)
    next
      case False
      then have "leaf_typed kv" using ty by (simp add: top_typed_def)
      then show ?thesis
        using parse_leaf [OF kv(2) _ assms(2)] False unfolding parse_metainfo_def fuel by (simp add: top_entry_def)
    qed
  qed
  then have "entries_loop (parse_metainfo malloc sha1 buf) buf (empty_torrent_file, bencode_init 0 ?n) =
      Some (fold_res (top_entry malloc sha1) kvs empty_torrent_file)"
    using points_to_dict [OF pts] by (intro entries_loop_encoded)
  then show ?thesis
    using rd cap unfolding buf_def
    by (cases "fold_res (top_entry malloc sha1) kvs empty_torrent_file") (simp_all add: parse_metainfo_file_def Let_def)
qed

section \<open>Properties\<close>

text \<open>The file of a torrent with one file: the entries the program knows, among any others.\<close>

definition single_file_torrent ::
  "(string \<times> bvalue) list \<Rightarrow> string \<Rightarrow> (string \<times> bvalue) list \<Rightarrow> int \<Rightarrow> string \<Rightarrow> int \<Rightarrow> string \<Rightarrow> bool" where
  "single_file_torrent kvs url info len name pl hashes \<longleftrightarrow>
     filter entry_known kvs = [(''announce'', BStr url), (''info'', BDict info)] \<and>
     filter entry_known info =
       [(''length'', BInt len), (''name'', BStr name), (''piece length'', BInt pl), (''pieces'', BStr hashes)] \<and>
     0 < len \<and> len \<le> INT_MAX \<and> 0 < pl \<and> pl \<le> INT_MAX \<and> int (length (encode (BDict kvs))) < INT_MAX"

lemma filter_typed:
  assumes "filter entry_known kvs = ys" "list_all P ys" "\<And>kv. \<not> entry_known kv \<Longrightarrow> P kv"
  shows "list_all P kvs"
  using assms by (auto simp: list_all_iff)

lemma unknown_typed: "\<not> entry_known kv \<Longrightarrow> leaf_typed kv \<and> top_typed kv"
  by (auto simp: entry_known_def known_def leaf_typed_def top_typed_def)

lemma c_str_names [simp]:
  "c_str ''announce'' = ''announce''" "c_str ''info'' = ''info''" "c_str ''length'' = ''length''"
  "c_str ''name'' = ''name''" "c_str ''piece length'' = ''piece length''" "c_str ''pieces'' = ''pieces''"
  by (simp_all add: c_str_def)

lemma small_int: "0 < i \<Longrightarrow> i \<le> INT_MAX \<Longrightarrow> int_cast (long_cast i) = i"
  by (simp add: long_cast_id int_cast_id INT_MAX_def)

lemma single_file_parse:
  assumes t: "single_file_torrent kvs url info len name pl hashes" and malloc: "\<And>n. n \<le> int (length (malloc n))"
  shows "parse_metainfo_file malloc sha1 (int (length (encode (BDict kvs)))) (Some (encode (BDict kvs))) =
    Some (if length url < length (malloc (int (length url)))
      then Inr (Some \<lparr>tf_announce = Some ((string_block malloc url)[length url := Some (CHR 0x00)]),
        tf_infohash = Some (sha1 (encode (BDict info))), tf_piece_length = Some pl,
        tf_piece_hashes = Some (string_block malloc hashes), tf_filename = Some (string_block malloc name),
        tf_file_length = Some len, tf_num_pieces = Some (count_pieces len pl)\<rparr>)
      else Inl OutOfBounds)"
proof -
  have k: "filter entry_known kvs = [(''announce'', BStr url), (''info'', BDict info)]"
    and i: "filter entry_known info =
      [(''length'', BInt len), (''name'', BStr name), (''piece length'', BInt pl), (''pieces'', BStr hashes)]"
    and n: "0 < len" "len \<le> INT_MAX" "0 < pl" "pl \<le> INT_MAX" "int (length (encode (BDict kvs))) < INT_MAX"
    using t unfolding single_file_torrent_def by blast+
  have "list_all leaf_typed info"
    by (rule filter_typed [OF i]) (simp add: leaf_typed_def, use unknown_typed in blast)
  moreover have "info \<noteq> []" using i by auto
  ultimately have ty: "list_all top_typed kvs"
    by (intro filter_typed [OF k]) (simp add: top_typed_def leaf_typed_def, use unknown_typed in blast)
  have "fold_res (leaf_entry malloc) info mi = fold_res (leaf_entry malloc)
      [(''length'', BInt len), (''name'', BStr name), (''piece length'', BInt pl), (''pieces'', BStr hashes)] mi" for mi
    unfolding i [symmetric] by (rule fold_res_filter) (rule leaf_entry_unknown)
  then have inf: "info_entry malloc sha1 info mi = Inr (mi\<lparr>tf_infohash := Some (sha1 (encode (BDict info))),
      tf_file_length := Some len, tf_filename := Some (string_block malloc name), tf_piece_length := Some pl,
      tf_piece_hashes := Some (string_block malloc hashes), tf_num_pieces := Some (count_pieces len pl)\<rparr>)" for mi
    using n by (simp add: info_entry_def leaf_entry_def small_int pieces_of_def)
  have "top_entry malloc sha1 kv mi = Inr mi" if "\<not> entry_known kv" for kv mi
    using that leaf_entry_unknown [OF that, of malloc mi] by (auto simp: top_entry_def entry_known_def known_def)
  then have "fold_res (top_entry malloc sha1) kvs mi =
      fold_res (top_entry malloc sha1) [(''announce'', BStr url), (''info'', BDict info)] mi" for mi
    unfolding k [symmetric] by (intro fold_res_filter)
  then show ?thesis
    using parse_file_encoded [OF ty malloc n(5), of sha1] inf
    by (simp add: top_entry_def leaf_entry_def empty_torrent_file_def)
qed

text \<open>
  C36: the metainfo file of a torrent with one file is read as it is meant. Wherever the entries stand among
  others, announce address, name and piece hashes are copied to blocks of their own, the two
  lengths are read, the number of pieces is computed from them, and the info hash is the hash of
  exactly the text of the info dictionary. The copies stop at the first zero character, also in
  the piece hashes, which are binary. All this needs a block for the announce address that is larger
  than asked for: its terminating zero is written behind the length, and with a block of
  exactly this length the program writes outside.
\<close>

theorem torrent_file_read:
  assumes "single_file_torrent kvs url info len name pl hashes" "\<And>n. n \<le> int (length (malloc n))"
    and "r = parse_metainfo_file malloc sha1 (int (length (encode (BDict kvs)))) (Some (encode (BDict kvs)))"
  shows "if length url < length (malloc (int (length url)))
    then \<exists>mi. r = Some (Inr (Some mi)) \<and>
      tf_announce mi = Some ((string_block malloc url)[length url := Some (CHR 0x00)]) \<and>
      tf_infohash mi = Some (sha1 (encode (BDict info))) \<and>
      tf_piece_length mi = Some pl \<and> tf_file_length mi = Some len \<and> tf_num_pieces mi = Some (count_pieces len pl) \<and>
      tf_piece_hashes mi = Some (string_block malloc hashes) \<and> tf_filename mi = Some (string_block malloc name)
    else r = Some (Inl OutOfBounds)"
  using single_file_parse [OF assms(1,2), of sha1] assms(3) by simp

definition demo_info :: "(string \<times> bvalue) list" where
  "demo_info = [(''length'', BInt 6), (''name'', BStr ''f''), (''piece length'', BInt 4), (''pieces'', BStr ''hash'')]"

definition demo_file :: "(string \<times> bvalue) list" where
  "demo_file = [(''announce'', BStr ''url''), (''comment'', BInt 0), (''info'', BDict demo_info)]"

lemma demo_single_file: "single_file_torrent demo_file ''url'' demo_info 6 ''f'' 4 ''hash''"
proof -
  have "length (encode (BDict demo_file)) < 200"
    by code_simp
  then show ?thesis
    unfolding single_file_torrent_def
    by (simp add: demo_file_def demo_info_def entry_known_def known_def c_str_def INT_MAX_def)
qed

theorem torrent_file_read_witness:
  "parse_metainfo_file (\<lambda>n. replicate (nat n) None) (\<lambda>s. []) (int (length (encode (BDict demo_file)))) (Some (encode (BDict demo_file))) =
    Some (Inl OutOfBounds)"
  using torrent_file_read [OF demo_single_file _ refl, of "\<lambda>n. replicate (nat n) None" "\<lambda>s. []"] by simp

section \<open>Reading any file ends\<close>

context container_iterator begin

text \<open>A loop over the items that carries a value along.\<close>

lemma loop_total_acc:
  fixes g :: "'acc \<Rightarrow> next_item \<Rightarrow> ('r + 'acc \<times> bencode) outcome"
  assumes f: "forward f" and it: "inside opens buf it"
    and ft: "\<And>be p. be_start it < p \<Longrightarrow> f be p \<noteq> None"
    and gt: "\<And>a x p l. be_start it < int (length buf) \<Longrightarrow> ni_item x = Some (bencode_init p l) \<Longrightarrow> be_start it < p \<Longrightarrow>
      g a x \<noteq> None"
    and gn: "\<And>a x a2 it2. g a x = Some (Inr (Inr (a2, it2))) \<Longrightarrow> it2 = ni_be x"
  shows "while_loop (\<lambda>(a, it). res_bind (has_next buf it) (\<lambda>(go, it1). Inr (go, a, it1)))
    (\<lambda>(a, it). out_bind (next_by f buf it) (g a)) (a, it) \<noteq> None"
proof (rule while_loop_total [where I = "\<lambda>(a, it'). inside opens buf it' \<and> be_start it' = be_start it"
      and m = "\<lambda>(a, it). case be_str it of None \<Rightarrow> 0 | Some t \<Rightarrow> Suc (nat (int (length buf) - t))"])
  show "case (a, it) of (a, it') \<Rightarrow> inside opens buf it' \<and> be_start it' = be_start it" using it by simp
  fix s s1 :: "'acc \<times> bencode"
  assume s: "case s of (a, it') \<Rightarrow> inside opens buf it' \<and> be_start it' = be_start it"
    and c: "(case s of (a, it) \<Rightarrow> res_bind (has_next buf it) (\<lambda>(go, it1). Inr (go, a, it1))) = Inr (True, s1)"
  obtain a' it' where s': "s = (a', it')" by (cases s)
  have it': "inside opens buf it'" "be_start it' = be_start it" using s by (simp_all add: s')
  have h: "has_next buf it' = Inr (True, it')" "s1 = (a', it')"
    using c has_next_true by (auto simp: s' res_bind_Inr)
  obtain t where t: "be_str it' = Some t" "t < int (length buf)" using has_next_true [OF h(1)] by blast
  then have lt: "be_start it < int (length buf)" using it' by (auto simp: inside_def)
  have ft': "f be p \<noteq> None" if "be_start it' < p" for be p using ft it' that by simp
  have nt: "next_by f buf it' \<noteq> None" by (rule next_total [OF it'(1) h(1)]) (rule ft')
  show "(case s1 of (a, it) \<Rightarrow> out_bind (next_by f buf it) (g a)) \<noteq> None"
  proof
    assume "(case s1 of (a, it) \<Rightarrow> out_bind (next_by f buf it) (g a)) = None"
    then obtain x where x: "next_by f buf it' = Some (Inr x)" "g a' x = None"
      using nt h(2) by (auto simp: out_bind_None)
    obtain p l where "ni_item x = Some (bencode_init p l)" "be_start it < p"
      using next_item [OF f it'(1) h(1) x(1)] it' by auto
    then show False using gt lt x(2) by blast
  qed
  fix s2
  assume "(case s1 of (a, it) \<Rightarrow> out_bind (next_by f buf it) (g a)) = Some (Inr (Inr s2))"
  then obtain x where x: "next_by f buf it' = Some (Inr x)" "snd s2 = ni_be x"
    using h(2) gn by (cases s2) (auto simp: out_bind_Inr)
  show "(case s2 of (a, it') \<Rightarrow> inside opens buf it' \<and> be_start it' = be_start it) \<and>
      (case s2 of (a, it) \<Rightarrow> case be_str it of None \<Rightarrow> 0 | Some t \<Rightarrow> Suc (nat (int (length buf) - t))) <
      (case s of (a, it) \<Rightarrow> case be_str it of None \<Rightarrow> 0 | Some t \<Rightarrow> Suc (nat (int (length buf) - t)))"
    using next_item [OF f it'(1) h(1) x(1)] next_inside [OF f it'(1) h(1) x(1)] it' t x(2) s'
    by (cases s2) (auto split: option.split)
qed

end

lemma entries_loop_total:
  assumes "in_dict buf it"
    and "\<And>mi p l key. be_start it < int (length buf) \<Longrightarrow> be_start it < p \<Longrightarrow> parse mi (bencode_init p l) key \<noteq> None"
  shows "entries_loop parse buf (mi, it) \<noteq> None"
proof -
  have c: "(\<lambda>(mi, it). res_bind (bencode_dict_has_next buf it) (\<lambda>go. Inr (go, mi, it))) =
      (\<lambda>(mi :: torrent_file, it). res_bind (res_bind (bencode_dict_has_next buf it) (\<lambda>go. Inr (go, it)))
        (\<lambda>(go, it1). Inr (go, mi, it1)))"
    by (auto simp: res_bind_def split: sum.split)
  have "while_loop (\<lambda>(mi, it). res_bind (bencode_dict_has_next buf it) (\<lambda>go. Inr (go, mi, it)))
      (\<lambda>(mi, it). out_bind (bencode_dict_get_next buf it) (entry parse buf mi)) (mi, it) \<noteq> None"
    unfolding c bencode_dict_get_next_def
  proof (rule dict_it.loop_total_acc [OF iterate_to_next_forward assms(1)])
    show "iterate_to_next buf be p \<noteq> None" for be p by (rule iterate_to_next_total)
    show "entry parse buf a x \<noteq> None"
      if "be_start it < int (length buf)" "ni_item x = Some (bencode_init p l)" "be_start it < p" for a x p l
      using assms(2) [OF that(1,3)] that(2)
      by (auto simp: entry_def out_bind_None simp del: not_None_eq split: option.split)
    show "it2 = ni_be x" if "entry parse buf a x = Some (Inr (Inr (a2, it2)))" for a x a2 it2
      using that by (auto simp: entry_def out_bind_Inr split: option.splits)
  qed
  then show ?thesis by (simp add: entries_loop_def out_bind_None)
qed

lemma parse_fuel_total:
  "0 < n \<Longrightarrow> (p < int (length buf) \<Longrightarrow> int (length buf) - p < int n) \<Longrightarrow>
   parse_fuel n malloc sha1 buf mi (bencode_init p l) key \<noteq> None"
proof (induction n arbitrary: p l mi key)
  case 0
  then show ?case by simp
next
  case (Suc n)
  have "entries_loop (parse_fuel n malloc sha1 buf) buf (mi, bencode_init p l) \<noteq> None" for mi
  proof (rule entries_loop_total)
    show "parse_fuel n malloc sha1 buf mi (bencode_init p' l') key \<noteq> None"
      if "be_start (bencode_init p l) < int (length buf)" "be_start (bencode_init p l) < p'" for mi p' l' key
    proof -
      have "p < int (length buf)" "p < p'" using that by simp_all
      then show ?thesis using Suc.prems by (intro Suc.IH) linarith+
    qed
  qed simp
  moreover have "bencode_dict_get_start_and_len buf (bencode_init p l) \<noteq> None"
    by (rule get_start_and_len_total) simp
  ultimately show ?case by (simp add: parse_by_def out_bind_None split_beta del: not_None_eq)
qed

text \<open>
  C37: reading a metainfo file returns, exits or faults, whatever the file contains and whatever blocks
  \<open>malloc\<close> returns.
\<close>

theorem parse_returns: "parse_metainfo_file malloc sha1 st_size file \<noteq> None"
proof (cases "file")
  case None
  then show ?thesis by (simp add: parse_metainfo_file_def)
next
  case (Some content)
  have "entries_loop (parse_metainfo malloc sha1 buf) buf (mi, bencode_init 0 n) \<noteq> None" for buf mi n
    unfolding parse_metainfo_def
    by (rule entries_loop_total) (simp_all add: parse_fuel_total del: parse_fuel.simps)
  then show ?thesis using Some by (simp add: parse_metainfo_file_def out_bind_None Let_def del: not_None_eq)
qed

end
