(* ===== verification/Bt_Client.thy ===== *)
theory Bt_Client
  imports Metainfo_File
begin

text \<open>
  The program of the BitTorrent experiment, \<open>btclient/bt_client.c\<close>, with the connection setup and the
  idle listener of \<open>btclient/bt_lib.c\<close>: it reads the metainfo file and the list of peers, connects to
  the first peer, greets it, downloads the first piece and writes it to a file.
\<close>

section \<open>Connections\<close>

text \<open>
  The calls to the network: \<open>socket\<close>, \<open>gethostbyname\<close> (the address, if there is one), \<open>connect\<close> to an
  address and a port in network order, \<open>bind\<close> to a port, \<open>listen\<close>, \<open>accept\<close>, and the socket behind a
  descriptor. Calls that return a status give it.
\<close>

record 's net_api =
  na_sock :: "int \<Rightarrow> 's sock_api"
  na_socket :: "'s \<Rightarrow> int \<times> 's"
  na_host :: "'s \<Rightarrow> byte list \<Rightarrow> byte list option \<times> 's"
  na_connect :: "'s \<Rightarrow> int \<Rightarrow> byte list \<Rightarrow> byte list \<Rightarrow> int \<times> 's"
  na_bind :: "'s \<Rightarrow> int \<Rightarrow> byte list \<Rightarrow> int \<times> 's"
  na_listen :: "'s \<Rightarrow> int \<Rightarrow> int \<Rightarrow> 's"
  na_accept :: "'s \<Rightarrow> int \<Rightarrow> int \<times> 's"
  na_close :: "'s \<Rightarrow> int \<Rightarrow> int \<times> 's"

text \<open>\<open>htons\<close> of an \<open>int\<close>, as the two bytes in memory.\<close>

definition be16 :: "int \<Rightarrow> byte list" where
  "be16 x = (let w = word_of_int x :: 16 word in [ucast (drop_bit 8 w), ucast w])"

definition peer_tcp_connect :: "'s net_api \<Rightarrow> byte list \<Rightarrow> int \<Rightarrow> 's \<Rightarrow> int \<times> 's" where
  "peer_tcp_connect net ip port s =
     (case na_socket net s of (sockfd, s1) \<Rightarrow>
        if sockfd < 0 then (- 1, s1)
        else (case na_host net s1 ip of (server, s2) \<Rightarrow>
          (case server of
             None \<Rightarrow> (- 1, s2)
           | Some addr \<Rightarrow> (case na_connect net s2 sockfd addr (be16 port) of (r, s3) \<Rightarrow>
               if r < 0 then (- 1, s3) else (sockfd, s3)))))"

definition peer_tcp_disconnect :: "'s net_api \<Rightarrow> int \<Rightarrow> 's \<Rightarrow> int \<times> 's" where
  "peer_tcp_disconnect net sockfd s = na_close net s sockfd"

text \<open>The listener: the loop that reads messages of a connection, and the loop that accepts connections.\<close>

partial_function (option) message_loop :: "'s net_api \<Rightarrow> int \<Rightarrow> int \<Rightarrow> 's \<Rightarrow> 's option" where
  "message_loop net newsockfd n s =
     (if n < 0 then (case sk_read (na_sock net newsockfd) s 5 of (n', bs, s') \<Rightarrow> message_loop net newsockfd n' s')
      else Some s)"

partial_function (option) accept_loop :: "'s net_api \<Rightarrow> int \<Rightarrow> 's \<Rightarrow> 's option" where
  "accept_loop net sockfd s =
     (case na_accept net s sockfd of (newsockfd, s1) \<Rightarrow>
        (case message_loop net newsockfd 1 s1 of None \<Rightarrow> None | Some s2 \<Rightarrow> accept_loop net sockfd s2))"

definition peerlisten :: "'s net_api \<Rightarrow> 's \<Rightarrow> 's option" where
  "peerlisten net s =
     (case na_socket net s of (sockfd, s1) \<Rightarrow>
      case na_bind net s1 sockfd (be16 6881) of (r, s2) \<Rightarrow>
        accept_loop net sockfd (na_listen net s2 sockfd 5))"

section \<open>Strings\<close>

text \<open>A string in memory, up to its zero \<open>z\<close>.\<close>

primrec read_cstring :: "'a \<Rightarrow> 'a option list \<Rightarrow> fault + 'a list" where
  "read_cstring z [] = Inl OutOfBounds"
| "read_cstring z (x # xs) =
     (case x of
        None \<Rightarrow> Inl Uninitialised
      | Some c \<Rightarrow> if c = z then Inr [] else res_bind (read_cstring z xs) (\<lambda>cs. Inr (c # cs)))"

text \<open>\<open>strtok\<close> with the delimiter \<open>:\<close> on what is left of a string; \<^term>\<open>None\<close> is null.\<close>

definition strtok :: "byte list \<Rightarrow> (byte list \<times> byte list) option" where
  "strtok s = (let t = dropWhile (\<lambda>b. b = 58) s in
     if t = [] then None else Some (takeWhile (\<lambda>b. b \<noteq> 58) t, drop 1 (dropWhile (\<lambda>b. b \<noteq> 58) t)))"

definition atoi :: "byte list \<Rightarrow> int" where
  "atoi s =
     (let t = dropWhile (\<lambda>b. b = 32 \<or> 9 \<le> b \<and> b \<le> 13) s;
          minus = (t \<noteq> [] \<and> hd t = 45);
          u = (if t \<noteq> [] \<and> (hd t = 45 \<or> hd t = 43) then tl t else t);
          n = foldl (\<lambda>a b. a * 10 + (uint b - 48)) 0 (takeWhile (\<lambda>b. 48 \<le> b \<and> b \<le> 57) u)
      in int_cast (max (- (2 ^ 63)) (min (2 ^ 63 - 1) (if minus then - n else n))))"

text \<open>Address and port of a peer, from the block of its \<open>url\<close>.\<close>

definition peer_address :: "mem \<Rightarrow> fault + (byte list \<times> int)" where
  "peer_address url = res_bind (read_cstring 0 url) (\<lambda>s.
     case strtok s of
       None \<Rightarrow> Inl NullPointer
     | Some (ip, rest) \<Rightarrow> (case strtok rest of None \<Rightarrow> Inl NullPointer | Some (port, rest') \<Rightarrow> Inr (ip, atoi port)))"

section \<open>The program\<close>

text \<open>What the program prints of the metainfo must be there to be read.\<close>

definition print_metainfo :: "torrent_file \<Rightarrow> fault + unit" where
  "print_metainfo tf =
     (case tf_announce tf of
        None \<Rightarrow> Inl Uninitialised
      | Some announce \<Rightarrow> res_bind (read_cstring (CHR 0x00) announce) (\<lambda>_.
          if tf_piece_length tf = None then Inl Uninitialised
          else case tf_filename tf of
            None \<Rightarrow> Inl Uninitialised
          | Some filename \<Rightarrow> res_bind (read_cstring (CHR 0x00) filename) (\<lambda>_.
              if tf_file_length tf = None \<or> tf_num_pieces tf = None then Inl Uninitialised else Inr ())))"

definition metainfo_of :: "torrent_file \<Rightarrow> fault + metainfo" where
  "metainfo_of tf =
     (case (tf_infohash tf, tf_piece_length tf, tf_file_length tf, tf_num_pieces tf) of
        (Some hash, Some pl, Some fl, Some n) \<Rightarrow>
          Inr \<lparr>mi_infohash = hash, mi_piece_length = pl, mi_file_length = fl, mi_num_pieces = n\<rparr>
      | _ \<Rightarrow> Inl Uninitialised)"

text \<open>
  The bitfield message is read into \<open>mbuf\<close> of 1024 bytes, in one call, and not looked at. The count is
  a quotient towards zero and becomes a \<open>size_t\<close>.
\<close>

definition bitfield_count :: "metainfo \<Rightarrow> int" where
  "bitfield_count mi = (sgn (mi_num_pieces mi) * (\<bar>mi_num_pieces mi\<bar> div 8) + 1 + 5) mod 2 ^ 64"

definition read_bitfield :: "'s sock_api \<Rightarrow> metainfo \<Rightarrow> 's \<Rightarrow> fault + 's" where
  "read_bitfield sock mi s =
     res_bind (tcp_recv sock s (replicate 1024 None) 0 (bitfield_count mi)) (\<lambda>(n, mbuf, s'). Inr s')"

text \<open>Handshake, unchoke, interested, and the peer's bitfield.\<close>

definition greet :: "'s sock_api \<Rightarrow> metainfo \<Rightarrow> 's \<Rightarrow> fault + 's" where
  "greet sock mi s =
     res_bind (bt_handshake sock mi s) (\<lambda>(hresponse, s1).
       read_bitfield sock mi (snd (bt_send_message sock INTERESTED (snd (bt_send_message sock UNCHOKE s1)))))"

text \<open>\<open>write\<close> of \<open>n\<close> bytes to the start of a file with the content \<open>old\<close>; a negative count fails.\<close>

definition write_front :: "mem \<Rightarrow> mem \<Rightarrow> int \<Rightarrow> fault + mem" where
  "write_front old data n =
     (if n < 0 then Inr old
      else if n \<le> int (length data) then Inr (take (nat n) data @ drop (nat n) old)
      else Inl OutOfBounds)"

text \<open>
  What \<open>main\<close> finds in memory and in the file system: the blocks \<open>malloc\<close> returns, the upper bytes of
  the uninitialised \<open>ch\<close>, size and content of files, the file \<open>peerlist\<close>, whether \<open>/tmp/file.txt\<close>
  can be opened, and its content.
\<close>

record client_env =
  ce_malloc :: allocator
  ce_url_block :: mem
  ce_garbage :: int
  ce_size :: "string \<Rightarrow> int"
  ce_file :: "string \<Rightarrow> string option"
  ce_peerlist :: "byte list"
  ce_opens :: bool
  ce_old :: mem

text \<open>
  The result is the content of \<open>/tmp/file.txt\<close> at the end. When it cannot be opened, the write to
  the descriptor -1 fails, and nobody looks at that.
\<close>

definition bt_client_main ::
  "'s net_api \<Rightarrow> (string \<Rightarrow> byte list) \<Rightarrow> client_env \<Rightarrow> string list \<Rightarrow> 's \<Rightarrow> (mem \<times> 's) outcome" where
  "bt_client_main net sha1 env argv s =
     (if length argv \<noteq> 2 then Some (Inr (ce_old env, s))
      else out_bind (parse_metainfo_file (ce_malloc env) sha1 (ce_size env (argv ! 1)) (ce_file env (argv ! 1))) (\<lambda>r.
        case r of
          None \<Rightarrow> Some (Inr (ce_old env, s))
        | Some tf \<Rightarrow>
            out_bind (Some (print_metainfo tf)) (\<lambda>_.
            out_bind (Some (get_peer_list (ce_garbage env) (ce_url_block env) (ce_peerlist env))) (\<lambda>pl.
            out_bind (Some (case pl of [] \<Rightarrow> Inl Uninitialised | url # _ \<Rightarrow> peer_address url)) (\<lambda>(ip, port).
              case peer_tcp_connect net ip port s of (sockfd, s1) \<Rightarrow>
                out_bind (Some (metainfo_of tf)) (\<lambda>mi.
                out_bind (Some (greet (na_sock net sockfd) mi s1)) (\<lambda>s2.
                out_bind (get_piece (na_sock net sockfd) 0 mi s2) (\<lambda>(data, s3).
                  if ce_opens env
                  then Some (res_bind (write_front (ce_old env) data (piece_size 0 mi)) (\<lambda>f. Inr (f, s3)))
                  else Some (Inr (ce_old env, s3))))))))))"

section \<open>Strings in cleared memory\<close>

lemma read_cstring_ends: "z \<notin> set cs \<Longrightarrow> read_cstring z (map Some cs @ Some z # rest) = Inr cs"
  by (induction cs) auto

lemma read_cstring_zeros: "z \<notin> set cs \<Longrightarrow> 0 < k \<Longrightarrow> read_cstring z (map Some cs @ replicate k (Some z)) = Inr cs"
  using read_cstring_ends by (cases k) auto

text \<open>Without a zero a string has no end, and the reader leaves the block.\<close>

lemma read_cstring_no_end: "z \<notin> set cs \<Longrightarrow> read_cstring z (map Some cs) = Inl OutOfBounds"
  by (induction cs) auto

lemma zeros_replicate: "set xs \<subseteq> {z} \<Longrightarrow> xs = replicate (length xs) z"
  by (induction xs) auto

lemma c_str_no_zero: "CHR 0x00 \<notin> set (c_str s)"
  unfolding c_str_def by (blast dest: set_takeWhileD)

lemma c_str_length: "length (c_str s) \<le> length s"
  by (simp add: c_str_def length_takeWhile_le)

text \<open>Blocks that hold only zeros, with room for one more character.\<close>

definition cleared :: "allocator \<Rightarrow> bool" where
  "cleared malloc \<longleftrightarrow> (\<forall>n. n < int (length (malloc n)) \<and> set (malloc n) \<subseteq> {Some (CHR 0x00)})"

lemma cleared_block:
  assumes "cleared malloc"
  shows "length s < length (malloc (int (length s)))" "set (malloc (int (length s))) \<subseteq> {Some (CHR 0x00)}"
  using assms [unfolded cleared_def, THEN spec, of "int (length s)"] by simp_all

lemma string_block_cleared:
  assumes "cleared malloc"
  shows "string_block malloc s = map Some (c_str s) @
    replicate (length (malloc (int (length s))) - length (c_str s)) (Some (CHR 0x00))"
proof -
  let ?b = "malloc (int (length s))" and ?z = "Some (CHR 0x00)"
  have b: "length s < length ?b" "set ?b \<subseteq> {?z}" using cleared_block [OF assms] by blast+
  then have "set (drop (length s) ?b) \<subseteq> {?z}" by (meson order_trans set_drop_subset)
  then have "drop (length s) ?b = replicate (length ?b - length s) ?z"
    using zeros_replicate by (metis length_drop)
  then show ?thesis
    using b(1) c_str_length [of s] by (simp add: string_block_def replicate_add [symmetric])
qed

lemma cleared_block_read:
  assumes "cleared malloc"
  shows "read_cstring (CHR 0x00) (string_block malloc s) = Inr (c_str s)"
    and "read_cstring (CHR 0x00) ((string_block malloc s)[length s := Some (CHR 0x00)]) = Inr (c_str s)"
proof -
  let ?k = "length (malloc (int (length s))) - length (c_str s)"
  have k: "0 < ?k" "length s - length (c_str s) < ?k"
    using c_str_length [of s] cleared_block(1) [OF assms, of s] by linarith+
  show r: "read_cstring (CHR 0x00) (string_block malloc s) = Inr (c_str s)"
    unfolding string_block_cleared [OF assms] using c_str_no_zero k(1) by (rule read_cstring_zeros)
  have "string_block malloc s ! length s = Some (CHR 0x00)"
    unfolding string_block_cleared [OF assms] using c_str_length [of s] k(2) by (simp add: nth_append)
  then have "(string_block malloc s)[length s := Some (CHR 0x00)] = string_block malloc s"
    by (metis list_update_id)
  then show "read_cstring (CHR 0x00) ((string_block malloc s)[length s := Some (CHR 0x00)]) = Inr (c_str s)"
    using r by simp
qed

text \<open>The address of a peer is what stands before and after the first colon.\<close>

lemma strtok_token:
  assumes "t \<noteq> []" "58 \<notin> set t"
  shows "strtok (t @ 58 # r) = Some (t, r)" "strtok t = Some (t, [])"
proof -
  have d: "dropWhile (\<lambda>b. b = 58) (t @ u) = t @ u" for u
    using assms by (cases t) auto
  have a: "\<forall>b\<in>set t. b \<noteq> 58" using assms(2) by auto
  then have w: "takeWhile (\<lambda>b. b \<noteq> 58) (t @ 58 # r) = t" "dropWhile (\<lambda>b. b \<noteq> 58) (t @ 58 # r) = 58 # r"
    by (simp_all add: takeWhile_append2 dropWhile_append2)
  show "strtok (t @ 58 # r) = Some (t, r)"
    unfolding strtok_def d Let_def w by simp
  have v: "takeWhile (\<lambda>b. b \<noteq> 58) t = t" "dropWhile (\<lambda>b. b \<noteq> 58) t = []" "dropWhile (\<lambda>b. b = 58) t = t"
    using a d [of "[]"] by (simp_all add: takeWhile_eq_all_conv)
  show "strtok t = Some (t, [])"
    unfolding strtok_def v Let_def using assms(1) by simp
qed

lemma peer_address_line:
  assumes "line_ok (ip @ 58 # port)" "ip \<noteq> []" "58 \<notin> set ip" "port \<noteq> []" "58 \<notin> set port"
    and "set fresh \<subseteq> {Some 0}" "length (ip @ 58 # port) < length fresh"
  shows "peer_address (map Some (ip @ 58 # port) @ drop (length (ip @ 58 # port)) fresh) = Inr (ip, atoi port)"
proof -
  let ?l = "ip @ 58 # port"
  have "set (drop (length ?l) fresh) \<subseteq> {Some 0}" using assms(6) by (meson order_trans set_drop_subset)
  then have e: "drop (length ?l) fresh = replicate (length fresh - length ?l) (Some 0)"
    using zeros_replicate by (metis length_drop)
  have "read_cstring 0 (map Some ?l @ drop (length ?l) fresh) = Inr ?l"
    unfolding e by (rule read_cstring_zeros) (use assms(1,7) in \<open>simp_all add: line_ok_def\<close>)
  then show ?thesis
    using strtok_token [OF assms(2,3)] strtok_token [OF assms(4,5)] by (simp add: peer_address_def)
qed

section \<open>Connections that fail and the listener\<close>

text \<open>A failed call leaves the program with the descriptor -1, on which it goes on.\<close>

lemma peer_tcp_connect_result:
  assumes "na_socket net s = (sockfd, s1)" "0 \<le> sockfd" "na_host net s1 ip = (server, s2)"
  shows "fst (peer_tcp_connect net ip port s) = sockfd \<or> fst (peer_tcp_connect net ip port s) = - 1"
    and "server = None \<Longrightarrow> peer_tcp_connect net ip port s = (- 1, s2)"
    and "server = Some addr \<Longrightarrow> na_connect net s2 sockfd addr (be16 port) = (r, s3) \<Longrightarrow>
      peer_tcp_connect net ip port s = (if r < 0 then - 1 else sockfd, s3)"
  using assms by (auto simp: peer_tcp_connect_def split: prod.split option.split)

text \<open>
  The listener sets \<open>n\<close> to 1 before the loop that runs while it is negative: it accepts connections
  for ever and reads nothing from them.
\<close>

lemma message_loop_idle: "message_loop net newsockfd 1 s = Some s"
  by (simp add: message_loop.simps)

lemma accept_loop_endless: "accept_loop net sockfd s = None"
proof -
  have "accept_loop net' sockfd' s' = Some r \<Longrightarrow> False" for net' :: "'a net_api" and sockfd' s' r
  proof (induction rule: accept_loop.raw_induct [rotated, consumes 1, case_names step])
    case (step loop net' sockfd' s' r)
    then show ?case by (auto simp: message_loop_idle split: prod.splits)
  qed
  then show ?thesis by (metis not_None_eq)
qed

lemma peerlisten_endless: "peerlisten net s = None"
  by (simp add: peerlisten_def accept_loop_endless split: prod.split)

section \<open>The bitfield message\<close>

text \<open>
  The peer's bitfield message has a header of five bytes and a bit for every piece. The program asks
  for one byte too many when the number of pieces is a multiple of eight, and for more than its
  buffer holds when there are 8152 pieces or more.
\<close>

definition bitfield_length :: "int \<Rightarrow> int" where
  "bitfield_length n = 5 + - ((- n) div 8)"

lemma bitfield_count_pos:
  assumes "0 < mi_num_pieces mi" "mi_num_pieces mi \<le> INT_MAX"
  shows "bitfield_count mi = mi_num_pieces mi div 8 + 6"
proof -
  have "0 \<le> mi_num_pieces mi div 8 + 6" "mi_num_pieces mi div 8 + 6 < 2 ^ 64"
    using assms by (simp_all add: INT_MAX_def)
  then show ?thesis using assms(1) by (simp add: bitfield_count_def mod_pos_pos_trivial add.assoc)
qed

lemma bitfield_count_length:
  assumes "0 < mi_num_pieces mi" "mi_num_pieces mi \<le> INT_MAX"
  shows "bitfield_count mi =
    (if mi_num_pieces mi mod 8 = 0 then bitfield_length (mi_num_pieces mi) + 1 else bitfield_length (mi_num_pieces mi))"
  using zdiv_zminus1_eq_if [of 8 "mi_num_pieces mi"]
  by (simp add: bitfield_count_pos [OF assms] bitfield_length_def)

lemma read_bitfield_takes:
  assumes "sk_read api s (bitfield_count mi) = (k, bs, s')" "0 < k \<longrightarrow> length bs = nat k"
  shows "read_bitfield api mi s = (if k \<le> 1024 then Inr s' else Inl OutOfBounds)"
proof (cases "0 < k \<and> k \<le> 1024")
  case True
  then have "\<exists>b. memcpy (replicate 1024 None) 0 (map Some bs) 0 k = Inr b"
    using assms(2) by (subst memcpy_Inr) auto
  then show ?thesis using assms(1) True by (auto simp: read_bitfield_def tcp_recv_def)
next
  case False
  then show ?thesis using assms by (auto simp: read_bitfield_def tcp_recv_def memcpy_def)
qed

section \<open>Properties\<close>

lemma write_front_piece:
  assumes "mi_ok mi" "content_fits D mi" "0 < mi_num_pieces mi"
  shows "write_front old (map Some (D 0) @ replicate (nat (mi_piece_length mi - piece_size 0 mi)) None) (piece_size 0 mi) =
    Inr (map Some (D 0) @ drop (length (D 0)) old)"
proof -
  have "int (length (D 0)) = piece_size 0 mi" using assms(2,3) by (simp add: content_fits_def)
  moreover have "0 < piece_size 0 mi" using piece_size_eq(2) [OF assms(1) order_refl assms(3)] .
  ultimately have "nat (piece_size 0 mi) = length (D 0)" "0 \<le> piece_size 0 mi"
      "piece_size 0 mi \<le> int (length (D 0))" by simp_all
  then show ?thesis by (simp add: write_front_def)
qed

text \<open>The torrent of a metainfo file, as the program knows it when all went well.\<close>

definition single_file_metainfo ::
  "(string \<Rightarrow> byte list) \<Rightarrow> (string \<times> bvalue) list \<Rightarrow> int \<Rightarrow> int \<Rightarrow> metainfo" where
  "single_file_metainfo sha1 info len pl =
     \<lparr>mi_infohash = sha1 (encode (BDict info)), mi_piece_length = pl, mi_file_length = len,
      mi_num_pieces = count_pieces len pl\<rparr>"

lemma count_pieces_pos: "0 < len \<Longrightarrow> 0 < pl \<Longrightarrow> 0 < count_pieces len pl"
  using div_neg_pos_less0 [of "- len" pl] by (simp add: count_pieces_def)

lemma single_file_mi_ok:
  assumes "single_file_torrent kvs url info len name pl hashes"
  shows "mi_ok (single_file_metainfo sha1 info len pl)" "0 < mi_num_pieces (single_file_metainfo sha1 info len pl)"
  using assms count_pieces_pos by (simp_all add: single_file_torrent_def mi_ok_def single_file_metainfo_def)

text \<open>
  Cleared memory, a file named by the one argument with the text of the torrent, and a list of peers
  that starts with the line \<open>ip:port\<close>.
\<close>

definition client_ready ::
  "client_env \<Rightarrow> string list \<Rightarrow> (string \<times> bvalue) list \<Rightarrow> byte list \<Rightarrow> byte list \<Rightarrow> bool" where
  "client_ready env argv kvs ip port \<longleftrightarrow>
     cleared (ce_malloc env) \<and> set (ce_url_block env) \<subseteq> {Some 0} \<and> 64 \<le> length (ce_url_block env) \<and> ce_garbage env = 0 \<and>
     length argv = 2 \<and> ce_file env (argv ! 1) = Some (encode (BDict kvs)) \<and>
     ce_size env (argv ! 1) = int (length (encode (BDict kvs))) \<and>
     ip \<noteq> [] \<and> 58 \<notin> set ip \<and> port \<noteq> [] \<and> 58 \<notin> set port \<and> length (ip @ 58 # port) < length (ce_url_block env) \<and>
     (\<exists>ls. ce_peerlist env = concat (map (\<lambda>l. l @ [10]) ((ip @ 58 # port) # ls)) \<and>
       (\<forall>l\<in>set ((ip @ 58 # port) # ls). line_ok l) \<and> length ls < 50)"

lemma client_reads_files:
  assumes t: "single_file_torrent kvs url info len name pl hashes" and r: "client_ready env argv kvs ip port"
  obtains tf urls where
    "parse_metainfo_file (ce_malloc env) sha1 (ce_size env (argv ! 1)) (ce_file env (argv ! 1)) = Some (Inr (Some tf))"
    "print_metainfo tf = Inr ()" "metainfo_of tf = Inr (single_file_metainfo sha1 info len pl)"
    "get_peer_list (ce_garbage env) (ce_url_block env) (ce_peerlist env) =
      Inr ((map Some (ip @ 58 # port) @ drop (length (ip @ 58 # port)) (ce_url_block env)) # urls)"
proof -
  let ?m = "ce_malloc env"
  have mem: "cleared ?m" and le: "64 \<le> length (ce_url_block env)" and g: "ce_garbage env = 0"
    and args: "ce_file env (argv ! 1) = Some (encode (BDict kvs))"
      "ce_size env (argv ! 1) = int (length (encode (BDict kvs)))"
    using r by (simp_all add: client_ready_def)
  obtain ls where ls: "ce_peerlist env = concat (map (\<lambda>l. l @ [10]) ((ip @ 58 # port) # ls))"
      "\<forall>l\<in>set ((ip @ 58 # port) # ls). line_ok l" "length ((ip @ 58 # port) # ls) \<le> 50"
    using r by (auto simp: client_ready_def)
  have enough: "n \<le> int (length (?m n))" for n
    using mem [unfolded cleared_def, THEN spec, of n] by simp
  show thesis
  proof (rule that)
    show "parse_metainfo_file ?m sha1 (ce_size env (argv ! 1)) (ce_file env (argv ! 1)) =
      Some (Inr (Some \<lparr>tf_announce = Some ((string_block ?m url)[length url := Some (CHR 0x00)]),
        tf_infohash = Some (sha1 (encode (BDict info))), tf_piece_length = Some pl,
        tf_piece_hashes = Some (string_block ?m hashes), tf_filename = Some (string_block ?m name),
        tf_file_length = Some len, tf_num_pieces = Some (count_pieces len pl)\<rparr>))"
      unfolding args using single_file_parse [OF t enough] cleared_block(1) [OF mem, of url] by simp
    show "get_peer_list (ce_garbage env) (ce_url_block env) (ce_peerlist env) =
        Inr ((map Some (ip @ 58 # port) @ drop (length (ip @ 58 # port)) (ce_url_block env)) #
          map (\<lambda>l. map Some l @ drop (length l) (ce_url_block env)) ls)"
      unfolding get_peer_list_def ls(1) g using peers_loop_lines [OF ls(2) le ls(3)] by simp
  qed (simp_all add: print_metainfo_def metainfo_of_def single_file_metainfo_def cleared_block_read [OF mem])
qed

text \<open>So up to the connection the program runs through.\<close>

lemma bt_client_main_connects:
  assumes "single_file_torrent kvs url info len name pl hashes" "client_ready env argv kvs ip port"
    and mi: "mi = single_file_metainfo sha1 info len pl"
  shows "bt_client_main net sha1 env argv s =
    (case peer_tcp_connect net ip (atoi port) s of (sockfd, s1) \<Rightarrow>
      out_bind (Some (greet (na_sock net sockfd) mi s1)) (\<lambda>s2.
      out_bind (get_piece (na_sock net sockfd) 0 mi s2) (\<lambda>(data, s3).
        if ce_opens env
        then Some (res_bind (write_front (ce_old env) data (piece_size 0 mi)) (\<lambda>f. Inr (f, s3)))
        else Some (Inr (ce_old env, s3)))))"
proof -
  note ready = assms(2) [unfolded client_ready_def]
  obtain tf urls where f:
      "parse_metainfo_file (ce_malloc env) sha1 (ce_size env (argv ! 1)) (ce_file env (argv ! 1)) = Some (Inr (Some tf))"
      "print_metainfo tf = Inr ()" "metainfo_of tf = Inr mi"
      "get_peer_list (ce_garbage env) (ce_url_block env) (ce_peerlist env) =
        Inr ((map Some (ip @ 58 # port) @ drop (length (ip @ 58 # port)) (ce_url_block env)) # urls)"
    using client_reads_files [OF assms(1,2), of sha1] mi by metis
  have "line_ok (ip @ 58 # port)" using ready by auto
  then have addr: "peer_address (map Some (ip @ 58 # port) @ drop (length (ip @ 58 # port)) (ce_url_block env)) =
      Inr (ip, atoi port)"
    using ready by (intro peer_address_line) simp_all
  have args: "\<not> length argv \<noteq> 2" using ready by simp
  show ?thesis
    unfolding bt_client_main_def if_not_P [OF args] f(1) out_bind_simps option.case f(2,4) list.case addr prod.case f(3) ..
qed

section \<open>A peer that talks\<close>

text \<open>
  A peer that answers the handshake with its own and \<open>interested\<close> with its bitfield, and then requests
  with pieces, on a connection that delivers what is asked for as far as it is there.
\<close>

definition talking_peer :: "(int \<Rightarrow> byte list) \<Rightarrow> byte list \<Rightarrow> byte list \<Rightarrow> byte list sock_api" where
  "talking_peer D hs bf =
     \<lparr>sk_write = (\<lambda>s bs. if length bs = 68 then (68, s @ hs)
        else if bs = be32 1 @ [2] then (5, s @ bf)
        else sk_write (sim_peer D) s bs),
      sk_read = (\<lambda>s n. let k = min n (int (length s)) in (k, take (nat k) s, drop (nat k) s))\<rparr>"

lemma talking_stream_ok: "stream_ok (talking_peer D hs bf) sim_peer_view"
  unfolding stream_ok_def
proof (intro allI impI)
  fix s and n :: int
  assume a: "0 < n" "pv_pending sim_peer_view s \<noteq> []"
  let ?k = "min n (int (length s))"
  have "0 < ?k" "?k \<le> n" "?k \<le> int (length s)" using a by (auto simp: sim_peer_view_def)
  then show "\<exists>k s'. 0 < k \<and> k \<le> n \<and> k \<le> int (length (pv_pending sim_peer_view s)) \<and>
      sk_read (talking_peer D hs bf) s n = (k, take (nat k) (pv_pending sim_peer_view s), s') \<and>
      pv_inv sim_peer_view s' \<and> pv_pending sim_peer_view s' = drop (nat k) (pv_pending sim_peer_view s)"
    by (intro exI [of _ ?k] exI [of _ "drop (nat ?k) s"]) (simp add: sim_peer_view_def talking_peer_def Let_def)
qed

lemma talking_peer_answers:
  assumes "peer_answers (sim_peer D) sim_peer_view D mi"
  shows "peer_answers (talking_peer D hs bf) sim_peer_view D mi"
proof -
  have "length (request_msg p off n) = 17" for p off n by (simp add: request_msg_def)
  then have "sk_write (talking_peer D hs bf) s (request_msg p off n) = sk_write (sim_peer D) s (request_msg p off n)"
    for s p off n by (auto simp: talking_peer_def dest: arg_cong [where f = length])
  then show ?thesis using assms by (simp add: peer_answers_def)
qed

lemma talking_peer_greets:
  assumes "length (mi_infohash mi) = 20" "length hs = 68" "length bf = nat (bitfield_count mi)"
    and "0 < bitfield_count mi" "bitfield_count mi \<le> 1024"
  shows "greet (talking_peer D hs bf) mi [] = Inr []"
proof -
  let ?api = "talking_peer D hs bf" and ?req = "handshake_request (mi_infohash mi)"
  have len: "length ?req = 68" using assms(1) by (simp add: handshake_request_def bytes_of_def)
  have "sk_read ?api (snd (sk_write ?api [] ?req)) 68 = (68, hs, [])"
    using len assms(2) by (simp add: talking_peer_def)
  then obtain mbuf where h: "bt_handshake ?api mi [] = Inr (mbuf, [])"
    using handshake_reply [OF assms(1), of ?api "[]" 68 hs "[]"] assms(2) by auto
  have "be32 1 @ [1] \<noteq> be32 1 @ [2 :: byte]" by simp
  then have "snd (bt_send_message ?api UNCHOKE []) = []"
    by (simp add: bt_send_message_def bt_unchoke_def short_message_def Let_def talking_peer_def sim_peer_def
        request_fields_def)
  moreover have "snd (bt_send_message ?api INTERESTED []) = bf"
    by (simp add: bt_send_message_def bt_interested_def short_message_def Let_def talking_peer_def)
  moreover have "sk_read ?api bf (bitfield_count mi) = (bitfield_count mi, bf, [])"
    using assms(3,4) by (simp add: talking_peer_def)
  ultimately show ?thesis
    using h read_bitfield_takes [of ?api bf mi "bitfield_count mi" bf "[]"] assms(3-5) by (simp add: greet_def)
qed

definition demo_net :: "byte list net_api" where
  "demo_net = \<lparr>na_sock = (\<lambda>fd. talking_peer demo_pieces (replicate 68 0) (be32 2 @ [5, 192])),
     na_socket = (\<lambda>s. (3, s)), na_host = (\<lambda>s ip. (Some [127, 0, 0, 1], s)), na_connect = (\<lambda>s fd addr port. (0, s)),
     na_bind = (\<lambda>s fd port. (0, s)), na_listen = (\<lambda>s fd n. s), na_accept = (\<lambda>s fd. (4, s)), na_close = (\<lambda>s fd. (0, s))\<rparr>"

definition demo_client_env :: client_env where
  "demo_client_env = \<lparr>ce_malloc = (\<lambda>n. replicate (nat n + 8) (Some (CHR 0x00))), ce_url_block = replicate 64 (Some 0),
     ce_garbage = 0, ce_size = (\<lambda>f. int (length (encode (BDict demo_file)))),
     ce_file = (\<lambda>f. Some (encode (BDict demo_file))), ce_peerlist = [49, 58, 50, 10], ce_opens = True,
     ce_old = [None, None, None, None, Some 9]\<rparr>"

lemma demo_ready: "client_ready demo_client_env [''a'', ''b''] demo_file [49] [50]"
proof -
  have "\<exists>ls. ce_peerlist demo_client_env = concat (map (\<lambda>l. l @ [10]) (([49] @ 58 # [50]) # ls)) \<and>
      (\<forall>l\<in>set (([49] @ 58 # [50]) # ls). line_ok l) \<and> length ls < 50"
    by (intro exI [of _ "[]"]) (simp add: demo_client_env_def line_ok_def)
  then show ?thesis unfolding client_ready_def by (simp add: demo_client_env_def cleared_def)
qed

text \<open>
  C34: the program saves the first piece. In cleared memory, with the metainfo file of a torrent with one
  file and a list of peers that starts with a line \<open>ip:port\<close>, it connects to this address and port;
  when the greeting goes well and leaves nothing of the peer's answers on the connection, and the
  peer answers requests, the file ends up with the bytes of the first piece at its front, and what
  was behind them stays. When the file cannot be opened the program ends in the same way and
  saves nothing.
\<close>

theorem client_saves_first_piece:
  assumes "single_file_torrent kvs url info len name pl hashes" "client_ready env argv kvs ip port"
    and "mi = single_file_metainfo sha1 info len pl"
    and "peer_tcp_connect net ip (atoi port) s = (sockfd, s1)" "greet (na_sock net sockfd) mi s1 = Inr s2"
    and "stream_ok (na_sock net sockfd) v" "pv_inv v s2" "pv_pending v s2 = []"
    and "peer_answers (na_sock net sockfd) v D mi" "content_fits D mi"
  shows "\<exists>s3. bt_client_main net sha1 env argv s =
    Some (Inr (if ce_opens env then map Some (D 0) @ drop (length (D 0)) (ce_old env) else ce_old env, s3))"
proof -
  have mi: "mi_ok mi" "0 < mi_num_pieces mi" using single_file_mi_ok [OF assms(1)] assms(3) by simp_all
  obtain s3 where "get_piece (na_sock net sockfd) 0 mi s2 = Some (Inr (map Some (D 0) @
      replicate (nat (mi_piece_length mi - piece_size 0 mi)) None, s3))"
    using get_piece_reads [OF mi(1) assms(6,9,10) order_refl mi(2) assms(7,8)] by blast
  then show ?thesis
    by (simp add: bt_client_main_connects [OF assms(1-3)] assms(4,5) write_front_piece [OF mi(1) assms(10) mi(2)])
qed

theorem client_saves_first_piece_witness:
  "\<exists>s. bt_client_main demo_net (\<lambda>str. replicate 20 7) demo_client_env [''a'', ''b''] [] =
     Some (Inr ([Some 1, Some 2, Some 3, Some 4, Some 9], s))"
proof -
  have mi: "demo_mi = single_file_metainfo (\<lambda>str. replicate 20 7) demo_info 6 4"
    by (simp add: demo_mi_def single_file_metainfo_def count_pieces_def)
  have c: "peer_tcp_connect demo_net [49] (atoi [50]) [] = (3, [])"
    by (simp add: peer_tcp_connect_def demo_net_def)
  have b: "bitfield_count demo_mi = 6" by (simp add: bitfield_count_def demo_mi_def)
  have sk: "na_sock demo_net 3 = talking_peer demo_pieces (replicate 68 0) (be32 2 @ [5, 192])"
    by (simp add: demo_net_def)
  have "length (mi_infohash demo_mi) = 20" by (simp add: demo_mi_def)
  then have g: "greet (na_sock demo_net 3) demo_mi [] = Inr []"
    unfolding sk by (rule talking_peer_greets) (simp_all add: b)
  have v: "pv_inv sim_peer_view []" "pv_pending sim_peer_view [] = []" by (simp_all add: sim_peer_view_def)
  show ?thesis
    using client_saves_first_piece [OF demo_single_file demo_ready mi c g _ v _ demo_mi(2)]
      talking_stream_ok talking_peer_answers [OF demo_mi(3)]
    unfolding sk by (simp add: demo_client_env_def demo_pieces_def)
qed

text \<open>
  C35: the bitfield. When the peer's bitfield message is followed by more, and the connection delivers as much
  as is asked for and there, \<open>main\<close> takes exactly the message if the number of pieces is not a multiple
  of eight, and the first byte of the next message too if it is. The program goes on when there are
  fewer than 8152 pieces; with more than 8152 the peer writes beyond the buffer of 1024 bytes.
\<close>

theorem bitfield_read_bounds:
  assumes "0 < mi_num_pieces mi" "mi_num_pieces mi \<le> INT_MAX"
    and "int (length msg) = bitfield_length (mi_num_pieces mi)"
    and "k = min (bitfield_count mi) (int (length (msg @ next_msgs)))"
    and "sk_read api s (bitfield_count mi) = (k, take (nat k) (msg @ next_msgs), s')"
  shows "drop (nat k) (msg @ next_msgs) = (if mi_num_pieces mi mod 8 = 0 then drop 1 next_msgs else next_msgs) \<and>
    (mi_num_pieces mi < 8152 \<longrightarrow> read_bitfield api mi s = Inr s') \<and>
    (8152 < mi_num_pieces mi \<longrightarrow> read_bitfield api mi s = Inl OutOfBounds)"
proof -
  let ?n = "mi_num_pieces mi"
  note c = bitfield_count_pos [OF assms(1,2)] bitfield_count_length [OF assms(1,2)]
  have k: "0 < k" using assms(1,3,4) c by (cases "msg") (auto simp: bitfield_length_def)
  have "length (take (nat k) (msg @ next_msgs)) = nat k" using assms(4) by simp
  then have rb: "read_bitfield api mi s = (if k \<le> 1024 then Inr s' else Inl OutOfBounds)"
    using read_bitfield_takes [OF assms(5)] by blast
  have "drop (nat k) (msg @ next_msgs) = (if ?n mod 8 = 0 then drop 1 next_msgs else next_msgs)"
  proof (cases "?n mod 8 = 0")
    case True
    then have "bitfield_count mi = int (length msg) + 1" using c(2) assms(3) by simp
    then have "nat k = (if next_msgs = [] then length msg else Suc (length msg))" using assms(4) by (cases next_msgs) auto
    then show ?thesis using True by simp
  next
    case False
    then have "bitfield_count mi = int (length msg)" using c(2) assms(3) by simp
    then show ?thesis using assms(4) False by simp
  qed
  moreover have "k \<le> 1024" if "?n < 8152"
  proof -
    have "?n div 8 \<le> 1018" using that by presburger
    then show ?thesis using assms(4) c(1) by simp
  qed
  moreover have "1024 < k" if "8152 < ?n"
  proof -
    have "1019 \<le> ?n div 8" "1020 \<le> - ((- ?n) div 8)" using that by presburger+
    then show ?thesis using assms(3,4) c(1) by (simp add: bitfield_length_def)
  qed
  ultimately show ?thesis unfolding rb by auto
qed

theorem bitfield_read_bounds_witness:
  "read_bitfield (talking_peer demo_pieces [] []) (demo_mi\<lparr>mi_num_pieces := 8\<rparr>) ((be32 2 @ [5, 255]) @ [0, 1]) = Inr [1]"
proof -
  let ?mi = "demo_mi\<lparr>mi_num_pieces := 8\<rparr>" and ?msg = "be32 2 @ [5, 255]" and ?api = "talking_peer demo_pieces [] []"
  have n: "0 < mi_num_pieces ?mi" "mi_num_pieces ?mi \<le> INT_MAX" "mi_num_pieces ?mi < 8152"
    by (simp_all add: INT_MAX_def)
  have c: "bitfield_count ?mi = 7" by (simp add: bitfield_count_def)
  have l: "int (length ?msg) = bitfield_length (mi_num_pieces ?mi)" by (simp add: bitfield_length_def)
  have k: "7 = min (bitfield_count ?mi) (int (length (?msg @ [0, 1])))" by (simp add: c)
  have "sk_read ?api (?msg @ [0, 1]) (bitfield_count ?mi) = (7, take (nat 7) (?msg @ [0, 1]), [1])"
    by (simp add: c talking_peer_def)
  from bitfield_read_bounds [OF n(1,2) l k this] n(3) show ?thesis by blast
qed

end
