(* ===== verification/Spec2Isabelle.thy ===== *)
theory Spec2Isabelle
  imports Client BitFS Seeder Solo_Reader Bt_Client
begin

text \<open>
  A model of bitFS, a read-only FUSE file system over BitTorrent, and what makes it correct.

  The program. \<open>client.cpp\<close> starts FUSE with wrappers around one object of class \<open>FS\<close>
  (\<open>FS.cpp\<close>, \<open>FS.hpp\<close>). When FUSE mounts, \<open>FS::init_bitfs\<close> configures a libtorrent session, loads
  the torrent, and fills three global tables with its directory tree. \<open>getattr\<close>, \<open>open\<close> and
  \<open>readdir\<close> answer from the tables and the torrent. \<open>read\<close> turns the requested range into pieces,
  raises their priorities, waits until libtorrent has them, has their buffers delivered
  through alerts into a global map, and copies the bytes out, under a mutex. The session and
  the torrent hang off \<open>bitfs_metadata\<close> and \<open>torrent_metadata\<close>. \<open>bitFS.cpp\<close> is the older
  single-file program with its own copies of everything and with statistics; \<open>seeder.cpp\<close> is a
  separate program that seeds a torrent. \<open>btclient\<close> is an experiment in C that nothing else uses: a
  program that reads a torrent file with its own bencode reader and downloads a piece from a peer.

  The theories, from the bottom.
  \<^item> \<open>Prelude\<close>: faults, outcomes, the C type \<open>int\<close>, memory and \<open>memcpy\<close>, and the locale
    \<open>chunk_loop\<close> for loops that cut a range into chunks.
  \<^item> \<open>Torrent\<close>: libtorrent's \<open>torrent_info\<close> as a parameter with its documented laws (\<open>ti_ok\<close>), the
    data of pieces and files, and the concrete layout that meets the laws.
  \<^item> \<open>Chunk_Loops\<close>: the locales \<open>planner\<close> and \<open>copier\<close>, the contracts of the two loops of a read.
  \<^item> \<open>Dir_Tables\<close>: \<open>dirmap\<close>, \<open>filenames\<close>, \<open>entries\<close> and the loop of \<open>init_bitfs\<close> that fills them;
    the locale \<open>name_index\<close> is their contract.
  \<^item> \<open>Metadata\<close>: the two metadata classes and their accessors (locale \<open>field\<close>).
  \<^item> \<open>Pieces\<close>: \<open>piece_buffer_map\<close>, \<open>get_piece_buffers\<close>, \<open>wait_for_piece_download\<close> and the loop that
    waits for a buffer (locale \<open>buffer_map\<close>), with the assumptions on the session; \<open>LT_Sim\<close> is a
    small session that meets them.
  \<^item> \<open>FS_Ops\<close>, \<open>FS_Read\<close>, \<open>FS_Init\<close>: the operations of class \<open>FS\<close> over the state record
    \<open>fs_state\<close> (the globals of \<open>FS.cpp\<close>, the object, the session).
  \<^item> \<open>FS_Spec\<close>: the abstract file system (\<open>spec_answer\<close>), computed from a list of paths with their bytes
    and from nothing of the program; and the link from there to the tables and the index lookup.
  \<^item> \<open>Client\<close>: the wrappers, \<open>init_fuse\<close>, \<open>main\<close>, and requests as FUSE makes them, which implement
    the abstract file system.
  \<^item> \<open>Readers\<close>: several calls of \<open>read\<close> at once as a step relation between calls to libtorrent;
    \<open>Solo_Reader\<close>: one of them alone is \<open>fs_read\<close>.
  \<^item> \<open>Report\<close>, \<open>Seeder\<close>: the status texts and the seeder.
  \<^item> \<open>BitFS\<close>: the older program, compared with the newer one through \<open>fs_of\<close>.
  \<^item> \<open>C_Loop\<close>: sequencing of statements that may fault, and a \<open>while\<close> loop whose body may return.
  \<^item> \<open>Bencode\<close>, \<open>Bencode_Text\<close>: \<open>btclient/bencode/bencode.c\<close>, the reader of bencoded text, first on any
    bytes and then on encoded values (\<open>encode\<close>, \<open>points_to\<close>); the locales \<open>container_iterator\<close> and
    \<open>encoded_iterator\<close> are the contract of its two iterators. \<open>Metainfo_File\<close>: the reading of the
    torrent file in \<open>btclient/bt_lib.c\<close> with it.
  \<^item> \<open>BtWire\<close>: the experiment \<open>btclient/bt_lib.c\<close>: messages, handshake and the download of a piece
    over a socket, which is a parameter (\<open>stream_ok\<close>, \<open>peer_answers\<close>). \<open>Bt_Client\<close>: connecting, the idle
    listener, and \<open>btclient/bt_client.c\<close>, the program that puts this together and saves one piece;
    the calls to the network are a parameter (\<open>net_api\<close>), and so is what fresh memory holds.
  \<^item> this theory: the program from its start to its answers.

  Values. A C \<open>int\<close> is an \<open>int\<close>, with \<open>int_cast\<close> where the code converts a wider value;
  \<open>size_t\<close> and \<open>off_t\<close> are 64-bit words. Memory is a list of bytes that may be unset. A pointer is
  an option; one that no constructor sets counts as null. A result \<open>Inl\<close> is a fault
  (undefined behaviour or an exception nobody catches), an outcome \<open>None\<close> a call that does
  not return. Loops whose end depends on the session are \<open>partial_function (option)\<close>, without
  fuel; that they end is proved. The recursion of the bencode reader has fuel, one for each
  character of the buffer and one more: every nested value starts behind its container's start,
  so this is enough, and the functions satisfy their equations without fuel
  (\<open>iterate_to_next_eq\<close>, \<open>validate_cursor_eq\<close>).

  Assumptions. Code that is not in the repository is an argument: \<open>torrent_info\<close> (\<open>ti_ok\<close>: files lie
  one after the other, pieces have the piece length, \<open>map_file\<close> finds the piece and the position
  of an offset), boost's \<open>split\<close> (\<open>split_ok\<close>: it inverts joining with slashes), and the session
  (\<open>lt_ok\<close>: buffers hold hash-checked data; a piece of positive priority is complete after
  finitely many polls; a buffer that was asked for arrives after finitely many polls;
  \<open>keeps_requests\<close>: no other call cancels a request). Each has an instance in the development,
  on which the witnesses run the program.

  What the lemmas show. The tables are the tree of the torrent's paths; \<open>readdir\<close>, \<open>getattr\<close>,
  \<open>open\<close> and the index lookup agree with each other; \<open>read\<close> ends and delivers exactly the bytes of
  the file, for files below 2 GiB; any sequence of requests gets the answers of the
  abstract file system; several reads at once exclude each other, deliver their bytes and
  all end, and one alone does what the sequential model does. Some properties show what the code does wrong: sizes of 2 GiB and more come out
  modulo 2^32, so that a file from 2 to 4 GiB reads as empty, a piece read that fails is copied beyond its
  buffer, an unknown path is used as an index, a required piece other than the very first is given
  the lowest priority when its successor is missing too, a failed initialisation is not reported, and the hit rate of the older program
  is always 100 percent; the bencode reader accepts text that makes it read behind its buffer,
  and the experiment reads behind its strings, ignores message headers and lost connections, and runs
  to its end only in memory that happens to be cleared.

  Not modelled. Output for debugging; exhaustion of memory (\<open>malloc\<close>, and the stack for
  \<open>temp_buf\<close>); the memory that replaced piece buffers leak; errors of \<open>filler\<close>; torrents whose file list is
  renamed; what the programs print, apart from the status texts. \<open>tests\<close> holds a manual read test.
\<close>

section \<open>The program from start to answers\<close>

text \<open>The globals before \<open>main\<close>.\<close>

definition start_state :: "'l \<Rightarrow> 'l fs_state" where
  "start_state l = \<lparr>instance_made = False, fsmeta = None, fs_tables = empty_tables,
     piece_buffer_map = (\<lambda>_. None), session = l\<rparr>"

lemma Instance_start: "fresh (Instance (start_state l))" "instance_made (Instance (start_state l))"
  by (simp_all add: start_state_def Instance_def fresh_def)

lemma init_bitfs_instance: "init_bitfs env api path st = Inr st' \<Longrightarrow> instance_made st' = instance_made st"
  by (auto simp: init_unfold split: prod.splits if_splits sum.splits)

text \<open>
  C1: the whole program, from its start: FUSE initialises it on a torrent file that loads,
  and then makes any sequence of requests. With libtorrent, boost and FUSE as documented,
  initialisation succeeds and every request is answered as the abstract file system
  \<open>spec_answer\<close> says, which is computed from the list of the torrent's files, paths and bytes,
  alone; nothing faults and nothing hangs. Attributes and reads are promised for torrents whose
  files are all below 2 GiB.
\<close>

theorem mount_and_serve:
  assumes "split_ok (env_split env)" "paths_ok ti" "ti_ok ti" "content_ok ti content"
    and "lt_ok api v (piece_data ti content)"
    and "env_load_torrent env path = (ti, 0)"
    and "env_add_torrent env (init_params env ti) (init_session env) = (TorrentHandle ti, 0, l1)"
    and "v_inv v l1"
    and "\<forall>r\<in>set rs. request_ok (files_of ti content) r"
  shows "\<exists>st1 st2. init_wrapper env api path (start_state l0) = Inr st1 \<and>
    serve_all api rs st1 = Some (Inr (map (spec_answer (files_of ti content)) rs, st2))"
proof -
  obtain st1 where i: "init_bitfs env api path (Instance (start_state l0)) = Inr st1"
    and m: "mounted (env_split env) ti st1" "\<not> mutex_held st1" "piece_buffer_map st1 = (\<lambda>_. None)"
      "v_inv v (session st1)"
    using init_bitfs_mounted [OF Instance_start(1) assms(1,5,6,7,8)] by blast
  have "serving (env_split env) ti content v st1"
    using m init_bitfs_instance [OF i] Instance_start(2) by (simp add: serving_def cache_ok_def)
  from serve_all_spec [OF assms(1-5) this assms(9)] show ?thesis
    using i by (auto simp: init_wrapper_def)
qed

theorem mount_and_serve_witness:
  "\<exists>st1 st2. init_wrapper demo_env demo_api ''ok.torrent'' (start_state sim_init) = Inr st1 \<and>
     serve_all demo_api demo_requests st1 = Some (Inr (demo_answers, st2))"
proof -
  have e: "split_ok (env_split demo_env)" "env_load_torrent demo_env ''ok.torrent'' = (demo_ti, 0)"
      "env_add_torrent demo_env (init_params demo_env demo_ti) (init_session demo_env) = (TorrentHandle demo_ti, 0, sim_init)"
    by (simp_all add: demo_env_def split_slash_ok init_session_def)
  from mount_and_serve [OF e(1) demo_ok(2,1) demo_content_ok
      sim_ok [of "piece_data demo_ti demo_content", folded demo_api_def] e(2,3) sim_inv demo_requests_ok]
  show ?thesis unfolding demo_requests_answers .
qed

end
